(* ===== verification/Prelude.thy ===== *)
theory Prelude
  imports Main "HOL-Library.Word"
begin

section \<open>Prelude: results, ordered collections, shared lemmas\<close>

text \<open>
  What every component of the development uses: the result type of fallible Rust code with its
  \<open>?\<close> operator, the machine integers, and the ordered collections of the Rust standard
  library. \<^verbatim>\<open>BTreeSet<T>\<close> and \<^verbatim>\<open>BTreeMap<K, V>\<close> iterate in the order of \<^verbatim>\<open>Ord\<close>; they
  are modelled by strictly ascending lists over an order \<open>le\<close> that is an argument of every
  operation, because the \<^verbatim>\<open>Ord\<close> of a key is sometimes written in the repository and sometimes
  provided by a library. The locale \<open>btree_order\<close> holds what the operations promise over any
  linear order.
\<close>

named_theorems handler_defs \<open>definitions that the lemmas about one handler step unfold\<close>
named_theorems inv_intros \<open>introduction rules of the well-formedness invariants\<close>

subsection \<open>Results\<close>

type_synonym ('e, 'a) result = "'e + 'a"

abbreviation Err :: "'e \<Rightarrow> ('e, 'a) result" where
  "Err \<equiv> Inl"

abbreviation Ok :: "'a \<Rightarrow> ('e, 'a) result" where
  "Ok \<equiv> Inr"

text \<open>The \<open>?\<close> operator: an error leaves the enclosing function at once.\<close>

definition and_then :: "('e, 'a) result \<Rightarrow> ('a \<Rightarrow> ('e, 'b) result) \<Rightarrow> ('e, 'b) result" where
  "and_then r f = (case r of Inl e \<Rightarrow> Inl e | Inr x \<Rightarrow> f x)"

lemma and_then_simps [simp]:
  "and_then (Inl e) f = Inl e"
  "and_then (Inr x) f = f x"
  by (simp_all add: and_then_def)

lemma and_then_Inr_iff: "and_then r f = Inr y \<longleftrightarrow> (\<exists>x. r = Inr x \<and> f x = Inr y)"
  by (cases r) simp_all

lemma and_then_Inl_iff: "and_then r f = Inl e \<longleftrightarrow> r = Inl e \<or> (\<exists>x. r = Inr x \<and> f x = Inl e)"
  by (cases r) simp_all

subsection \<open>Machine integers and time\<close>

type_synonym u8 = "8 word"
type_synonym u16 = "16 word"
type_synonym u32 = "32 word"
type_synonym u64 = "64 word"

text \<open>
  A point in time (\<^verbatim>\<open>chrono::DateTime<Utc>\<close>, \<^verbatim>\<open>std::time::Instant\<close>) is its distance from the
  epoch in nanoseconds; a duration is a number of nanoseconds. The clock is never read inside a
  definition: each operation takes the value its call of \<^verbatim>\<open>now()\<close> returned.
\<close>

type_synonym datetime = int
type_synonym duration = int

text \<open>The smaller of two optional values, as a \<^verbatim>\<open>match\<close> on the pair of options computes it.\<close>

definition opt_min :: "('a::linorder) option \<Rightarrow> 'a option \<Rightarrow> 'a option" where
  "opt_min a b = (case (a, b) of
      (Some t1, Some t2) \<Rightarrow> Some (min t1 t2)
    | (Some t1, None) \<Rightarrow> Some t1
    | (None, Some t2) \<Rightarrow> Some t2
    | (None, None) \<Rightarrow> None)"

lemma opt_min_simps [simp]:
  "opt_min (Some s) (Some t) = Some (min s t)"
  "opt_min a None = a"
  "opt_min None b = b"
  by (auto simp: opt_min_def split: option.splits)

lemma opt_min_commute: "opt_min a b = opt_min b a"
  by (cases a; cases b) (simp_all add: min.commute)

lemma opt_min_assoc: "opt_min (opt_min a b) c = opt_min a (opt_min b c)"
  by (cases a; cases b; cases c) (simp_all add: min.assoc)

lemma opt_min_idem [simp]: "opt_min a a = a"
  by (cases a) simp_all

subsection \<open>\<open>BTreeSet\<close>\<close>

fun bset_insert :: "('a \<Rightarrow> 'a \<Rightarrow> bool) \<Rightarrow> 'a \<Rightarrow> 'a list \<Rightarrow> 'a list" where
  "bset_insert le x [] = [x]"
| "bset_insert le x (y # ys) =
     (if x = y then y # ys
      else if le x y then x # y # ys
      else y # bset_insert le x ys)"

definition bset_remove :: "'a \<Rightarrow> 'a list \<Rightarrow> 'a list" where
  "bset_remove x xs = filter (\<lambda>y. y \<noteq> x) xs"

definition bset_of_list :: "('a \<Rightarrow> 'a \<Rightarrow> bool) \<Rightarrow> 'a list \<Rightarrow> 'a list" where
  "bset_of_list le xs = fold (bset_insert le) xs []"

text \<open>\<^verbatim>\<open>range(..=hi)\<close> and \<^verbatim>\<open>range(lo..=hi)\<close>: the stored elements between the bounds, ascending.\<close>

definition bset_range_to :: "('a \<Rightarrow> 'a \<Rightarrow> bool) \<Rightarrow> 'a \<Rightarrow> 'a list \<Rightarrow> 'a list" where
  "bset_range_to le hi xs = filter (\<lambda>y. le y hi) xs"

definition bset_range :: "('a \<Rightarrow> 'a \<Rightarrow> bool) \<Rightarrow> 'a \<Rightarrow> 'a \<Rightarrow> 'a list \<Rightarrow> 'a list" where
  "bset_range le lo hi xs = filter (\<lambda>y. le lo y \<and> le y hi) xs"

definition last_opt :: "'a list \<Rightarrow> 'a option" where
  "last_opt xs = (if xs = [] then None else Some (last xs))"

text \<open>The lists that represent a set: strictly ascending.\<close>

definition bset_ok :: "('a \<Rightarrow> 'a \<Rightarrow> bool) \<Rightarrow> 'a list \<Rightarrow> bool" where
  "bset_ok le xs \<longleftrightarrow> sorted_wrt (\<lambda>x y. le x y \<and> x \<noteq> y) xs"

lemma bset_ok_Nil [simp]: "bset_ok le []"
  by (simp add: bset_ok_def)

lemma bset_ok_Cons:
  "bset_ok le (x # xs) \<longleftrightarrow> (\<forall>y\<in>set xs. le x y \<and> x \<noteq> y) \<and> bset_ok le xs"
  by (simp add: bset_ok_def)

lemma bset_ok_distinct: "bset_ok le xs \<Longrightarrow> distinct xs"
  by (induction xs) (auto simp: bset_ok_Cons)

lemma bset_ok_filter: "bset_ok le xs \<Longrightarrow> bset_ok le (filter P xs)"
  by (simp add: bset_ok_def sorted_wrt_filter)

lemma set_bset_insert [simp]: "set (bset_insert le x xs) = insert x (set xs)"
  by (induction xs) auto

lemma set_bset_remove [simp]: "set (bset_remove x xs) = set xs - {x}"
  by (auto simp: bset_remove_def)

lemma bset_ok_remove: "bset_ok le xs \<Longrightarrow> bset_ok le (bset_remove x xs)"
  by (simp add: bset_remove_def bset_ok_filter)

lemma set_fold_bset_insert: "set (fold (bset_insert le) xs acc) = set xs \<union> set acc"
  by (induction xs arbitrary: acc) auto

lemma set_bset_of_list [simp]: "set (bset_of_list le xs) = set xs"
  by (simp add: bset_of_list_def set_fold_bset_insert)

lemma length_bset_remove:
  "x \<in> set xs \<Longrightarrow> length (bset_remove x xs) < length xs"
  unfolding bset_remove_def by (rule length_filter_less) auto

subsection \<open>\<open>BTreeMap\<close>\<close>

fun bmap_insert :: "('k \<Rightarrow> 'k \<Rightarrow> bool) \<Rightarrow> 'k \<Rightarrow> 'v \<Rightarrow> ('k \<times> 'v) list \<Rightarrow> ('k \<times> 'v) list" where
  "bmap_insert le k v [] = [(k, v)]"
| "bmap_insert le k v ((k', v') # m) =
     (if k = k' then (k, v) # m
      else if le k k' then (k, v) # (k', v') # m
      else (k', v') # bmap_insert le k v m)"

definition bmap_ok :: "('k \<Rightarrow> 'k \<Rightarrow> bool) \<Rightarrow> ('k \<times> 'v) list \<Rightarrow> bool" where
  "bmap_ok le m \<longleftrightarrow> bset_ok le (map fst m)"

lemma keys_bmap_insert: "map fst (bmap_insert le k v m) = bset_insert le k (map fst m)"
  by (induction m) auto

lemma map_of_bmap_insert [simp]: "map_of (bmap_insert le k v m) = (map_of m)(k \<mapsto> v)"
  by (induction m) auto

lemma bmap_ok_Nil [simp]: "bmap_ok le []"
  by (simp add: bmap_ok_def)

lemma bmap_ok_distinct: "bmap_ok le m \<Longrightarrow> distinct (map fst m)"
  unfolding bmap_ok_def by (rule bset_ok_distinct)

subsection \<open>What the collections promise over a linear order\<close>

locale btree_order =
  fixes le :: "'a \<Rightarrow> 'a \<Rightarrow> bool"
  assumes le_refl: "le x x"
    and le_antisym: "le x y \<Longrightarrow> le y x \<Longrightarrow> x = y"
    and le_trans: "le x y \<Longrightarrow> le y z \<Longrightarrow> le x z"
    and le_total: "le x y \<or> le y x"
begin

lemma ok_insert: "bset_ok le xs \<Longrightarrow> bset_ok le (bset_insert le x xs)"
proof (induction xs)
  case Nil
  then show ?case by (simp add: bset_ok_Cons)
next
  case (Cons y ys)
  then show ?case
    using le_total [of x y] by (auto simp: bset_ok_Cons intro: le_trans dest: le_antisym)
qed

lemma ok_fold_insert: "bset_ok le acc \<Longrightarrow> bset_ok le (fold (bset_insert le) xs acc)"
  by (induction xs arbitrary: acc) (auto intro: ok_insert)

lemma ok_of_list: "bset_ok le (bset_of_list le xs)"
  by (simp add: bset_of_list_def ok_fold_insert)

text \<open>A strictly ascending list is determined by its elements.\<close>

lemma ok_unique: "bset_ok le xs \<Longrightarrow> bset_ok le ys \<Longrightarrow> set xs = set ys \<Longrightarrow> xs = ys"
proof (induction xs arbitrary: ys)
  case Nil
  then show ?case by simp
next
  case (Cons x xs)
  then obtain y zs where ys: "ys = y # zs" by (cases ys) auto
  have "x = y"
  proof (rule ccontr)
    assume "x \<noteq> y"
    with Cons.prems ys have "x \<in> set zs" "y \<in> set xs" by auto
    with Cons.prems ys have "le x y" "le y x" by (auto simp: bset_ok_Cons)
    with \<open>x \<noteq> y\<close> show False by (auto dest: le_antisym)
  qed
  moreover from this Cons.prems ys have "set xs = set zs"
    by (fastforce simp: bset_ok_Cons)
  ultimately show ?case using Cons ys by (auto simp: bset_ok_Cons)
qed

lemma map_ok_insert: "bmap_ok le m \<Longrightarrow> bmap_ok le (bmap_insert le k v m)"
  by (simp add: bmap_ok_def keys_bmap_insert ok_insert)

text \<open>The last element of an ascending list is above the others.\<close>

lemma ok_last: "bset_ok le xs \<Longrightarrow> x \<in> set xs \<Longrightarrow> le x (last xs)"
proof (induction xs)
  case Nil
  then show ?case by simp
next
  case (Cons y ys)
  then show ?case by (cases "ys = []") (auto simp: bset_ok_Cons le_refl)
qed

lemma range_to_last:
  assumes "bset_ok le xs" "last_opt (bset_range_to le hi xs) = Some m"
  shows "m \<in> set xs" "le m hi" "\<And>x. x \<in> set xs \<Longrightarrow> le x hi \<Longrightarrow> le x m"
proof -
  let ?ys = "bset_range_to le hi xs"
  from assms(2) have ne: "?ys \<noteq> []" and m: "m = last ?ys"
    by (auto simp: last_opt_def split: if_splits)
  from ne m have "m \<in> set ?ys" by simp
  then show "m \<in> set xs" "le m hi" by (auto simp: bset_range_to_def)
  from assms(1) have "bset_ok le ?ys" by (simp add: bset_range_to_def bset_ok_filter)
  then show "\<And>x. x \<in> set xs \<Longrightarrow> le x hi \<Longrightarrow> le x m"
    using m by (auto simp: bset_range_to_def intro!: ok_last)
qed

lemma range_to_none:
  "last_opt (bset_range_to le hi xs) = None \<Longrightarrow> x \<in> set xs \<Longrightarrow> \<not> le x hi"
  by (auto simp: last_opt_def bset_range_to_def filter_empty_conv split: if_splits)

end

interpretation lin: btree_order "(\<le>) :: 'a::linorder \<Rightarrow> 'a \<Rightarrow> bool"
  by unfold_locales auto

lemma bset_ok_lin_sorted: "bset_ok (\<le>) xs \<longleftrightarrow> sorted xs \<and> distinct xs" for xs :: "'a::linorder list"
  by (induction xs) (auto simp: bset_ok_Cons)

text \<open>Over a linear order, collecting a list gives its sorted set.\<close>

lemma bset_of_list_lin: "bset_of_list (\<le>) xs = sorted_list_of_set (set xs)" for xs :: "'a::linorder list"
  using lin.ok_of_list [of xs]
  by (intro lin.ok_unique) (simp_all add: bset_ok_lin_sorted)

subsection \<open>Collecting entries by key\<close>

text \<open>A map filled by inserting every element of a list under its key.\<close>

lemma bmap_insert_values:
  "set (bmap_insert le k v m) \<subseteq> insert (k, v) (set m)"
  by (induction m) (auto split: if_splits)

lemma find_SomeD: "find P xs = Some x \<Longrightarrow> P x \<and> x \<in> set xs"
  by (auto simp: find_Some_iff)

definition collect_by :: "('a \<Rightarrow> 'k::linorder) \<Rightarrow> 'a list \<Rightarrow> ('k \<times> 'a) list" where
  "collect_by key xs = fold (\<lambda>x. bmap_insert (\<le>) (key x) x) xs []"

lemma set_bmap_insert_fresh:
  "k \<notin> fst ` set m \<Longrightarrow> set (bmap_insert le k v m) = insert (k, v) (set m)"
  by (induction m) (auto split: if_splits)

lemma fold_collect:
  fixes key :: "'a \<Rightarrow> 'k::linorder"
  assumes "bmap_ok (\<le>) m" "distinct (map key xs)" "key ` set xs \<inter> fst ` set m = {}"
  shows "bmap_ok (\<le>) (fold (\<lambda>x. bmap_insert (\<le>) (key x) x) xs m) \<and>
    set (fold (\<lambda>x. bmap_insert (\<le>) (key x) x) xs m) = (\<lambda>x. (key x, x)) ` set xs \<union> set m"
  using assms
proof (induction xs arbitrary: m)
  case Nil
  then show ?case by simp
next
  case (Cons x xs)
  have fresh: "set (bmap_insert (\<le>) (key x) x m) = insert (key x, x) (set m)"
    using Cons.prems(3) by (intro set_bmap_insert_fresh) auto
  have ok: "bmap_ok (\<le>) (bmap_insert (\<le>) (key x) x m)"
    by (rule lin.map_ok_insert [OF Cons.prems(1)])
  have "bmap_ok (\<le>) (fold (\<lambda>x. bmap_insert (\<le>) (key x) x) xs (bmap_insert (\<le>) (key x) x m)) \<and>
    set (fold (\<lambda>x. bmap_insert (\<le>) (key x) x) xs (bmap_insert (\<le>) (key x) x m)) =
      (\<lambda>x. (key x, x)) ` set xs \<union> set (bmap_insert (\<le>) (key x) x m)"
    using Cons.prems by (intro Cons.IH [OF ok]) (auto simp: fresh)
  then show ?case by (simp add: fresh)
qed

lemma bmap_ok_unique:
  fixes m n :: "('k::linorder \<times> 'v) list"
  assumes "bmap_ok (\<le>) m" "bmap_ok (\<le>) n" "set m = set n"
  shows "m = n"
proof (rule map_sorted_distinct_set_unique [where f = fst])
  from assms(1) have "distinct (map fst m)" by (rule bmap_ok_distinct)
  then show "inj_on fst (set m \<union> set n)" using assms(3) by (simp add: distinct_map)
qed (use assms in \<open>simp_all add: bmap_ok_def bset_ok_lin_sorted\<close>)

lemma collect_by_spec:
  assumes "distinct (map key xs)"
  shows "bmap_ok (\<le>) (collect_by key xs)" "set (collect_by key xs) = (\<lambda>x. (key x, x)) ` set xs"
  using fold_collect [of "[]" key xs] assms by (simp_all add: collect_by_def)

lemma collect_by_cong:
  assumes "distinct (map key xs)" "distinct (map key ys)" "set xs = set ys"
  shows "collect_by key xs = collect_by key ys"
  by (rule bmap_ok_unique) (simp_all add: collect_by_spec assms)

lemma bmap_insert_map_value:
  "map (apsnd f) (bmap_insert le k v m) = bmap_insert le k (f v) (map (apsnd f) m)"
  by (induction m) auto

lemma collect_by_map:
  fixes key :: "'a \<Rightarrow> 'k::linorder"
  assumes "\<And>x. key (f x) = key x"
  shows "collect_by key (map f xs) = map (apsnd f) (collect_by key xs)"
proof -
  have "fold (\<lambda>x. bmap_insert (\<le>) (key x) x) (map f xs) (map (apsnd f) m) =
      map (apsnd f) (fold (\<lambda>x. bmap_insert (\<le>) (key x) x) xs m)" for m
    by (induction xs arbitrary: m) (simp_all add: assms flip: bmap_insert_map_value)
  from this [of "[]"] show ?thesis by (simp add: collect_by_def)
qed

lemma map_sum_Inr_iff: "map_sum f g z = Inr y \<longleftrightarrow> (\<exists>x. z = Inr x \<and> y = g x)"
  by (cases z) auto

end
