(* ===== verification/Health_Report.thy ===== *)
theory Health_Report
  imports Rust_Strings
begin

section \<open>Health reports\<close>

text \<open>
  \<^verbatim>\<open>crates/health-report/src/lib.rs\<close>: reports of health probes, the merge of two reports, the
  carrying over of \<^verbatim>\<open>in_alert_since\<close>, the queries on classifications, and the sequence of values
  a report feeds into a hasher. \<^verbatim>\<open>HealthProbeId\<close> and \<^verbatim>\<open>HealthAlertClassification\<close> are newtypes
  over \<^verbatim>\<open>String\<close> that derive \<^verbatim>\<open>Ord\<close>; they are datatypes with the corresponding \<open>linorder\<close>
  instance, so a probe key (id, target) has the order of a Rust tuple.
\<close>

subsection \<open>Identifiers and classifications\<close>

datatype health_probe_id = HealthProbeId (probe_str: string)

datatype health_alert_classification = HealthAlertClassification (class_str: string)

instantiation health_probe_id :: linorder
begin

definition less_eq_health_probe_id :: "health_probe_id \<Rightarrow> health_probe_id \<Rightarrow> bool" where
  "a \<le> b \<longleftrightarrow> probe_str a \<le> probe_str b"

definition less_health_probe_id :: "health_probe_id \<Rightarrow> health_probe_id \<Rightarrow> bool" where
  "a < b \<longleftrightarrow> probe_str a < probe_str b"

instance
  by standard
     (auto simp: less_eq_health_probe_id_def less_health_probe_id_def health_probe_id.expand)

end

instantiation health_alert_classification :: linorder
begin

definition less_eq_health_alert_classification ::
    "health_alert_classification \<Rightarrow> health_alert_classification \<Rightarrow> bool" where
  "a \<le> b \<longleftrightarrow> class_str a \<le> class_str b"

definition less_health_alert_classification ::
    "health_alert_classification \<Rightarrow> health_alert_classification \<Rightarrow> bool" where
  "a < b \<longleftrightarrow> class_str a < class_str b"

instance
  by standard
     (auto simp: less_eq_health_alert_classification_def less_health_alert_classification_def
       health_alert_classification.expand)

end

datatype health_report_conversion_error =
    TimestampParseError
  | MissingSource
  | MissingId
  | MissingClassification

definition probe_id_from_str :: "string \<Rightarrow> (health_report_conversion_error, health_probe_id) result" where
  "probe_id_from_str s = (if s = [] then Err MissingId else Ok (HealthProbeId s))"

definition classification_from_str ::
    "string \<Rightarrow> (health_report_conversion_error, health_alert_classification) result" where
  "classification_from_str s =
     (if s = [] then Err MissingClassification else Ok (HealthAlertClassification s))"

definition probe_heartbeat_timeout :: health_probe_id where
  "probe_heartbeat_timeout = HealthProbeId ''HeartbeatTimeout''"

definition probe_stale_agent_version :: health_probe_id where
  "probe_stale_agent_version = HealthProbeId ''StaleAgentVersion''"

definition probe_missing_report :: health_probe_id where
  "probe_missing_report = HealthProbeId ''MissingReport''"

definition probe_malformed_report :: health_probe_id where
  "probe_malformed_report = HealthProbeId ''MalformedReport''"

definition probe_sku_validation :: health_probe_id where
  "probe_sku_validation = HealthProbeId ''SkuValidation''"

definition probe_internal_maintenance :: health_probe_id where
  "probe_internal_maintenance = HealthProbeId ''Maintenance''"

definition probe_ib_port_down :: health_probe_id where
  "probe_ib_port_down = HealthProbeId ''IbPortDown''"

definition prevent_host_state_changes :: health_alert_classification where
  "prevent_host_state_changes = HealthAlertClassification ''PreventHostStateChanges''"

definition prevent_allocations :: health_alert_classification where
  "prevent_allocations = HealthAlertClassification ''PreventAllocations''"

definition prevent_instance_deletion :: health_alert_classification where
  "prevent_instance_deletion = HealthAlertClassification ''PreventInstanceDeletion''"

definition suppress_external_alerting :: health_alert_classification where
  "suppress_external_alerting = HealthAlertClassification ''SuppressExternalAlerting''"

definition stop_reboot_for_automatic_recovery_from_state_machine :: health_alert_classification where
  "stop_reboot_for_automatic_recovery_from_state_machine =
     HealthAlertClassification ''StopRebootForAutomaticRecoveryFromStateMachine''"

definition hardware :: health_alert_classification where
  "hardware = HealthAlertClassification ''Hardware''"

definition sensor_critical :: health_alert_classification where
  "sensor_critical = HealthAlertClassification ''SensorCritical''"

definition exclude_from_state_machine_sla :: health_alert_classification where
  "exclude_from_state_machine_sla = HealthAlertClassification ''ExcludeFromStateMachineSla''"

datatype health_report_apply_mode = Merge | Replace

subsection \<open>Reports\<close>

record health_probe_success =
  succ_id :: health_probe_id
  succ_target :: "string option"

record health_probe_alert =
  alert_id :: health_probe_id
  alert_target :: "string option"
  in_alert_since :: "datetime option"
  alert_message :: string
  tenant_message :: "string option"
  classifications :: "health_alert_classification list"

record health_report =
  hr_source :: string
  triggered_by :: "string option"
  observed_at :: "datetime option"
  successes :: "health_probe_success list"
  alerts :: "health_probe_alert list"

type_synonym probe_key = "health_probe_id \<times> string option"

definition alert_key :: "health_probe_alert \<Rightarrow> probe_key" where
  "alert_key a = (alert_id a, alert_target a)"

definition succ_key :: "health_probe_success \<Rightarrow> probe_key" where
  "succ_key s = (succ_id s, succ_target s)"

definition hr_empty :: "datetime \<Rightarrow> string \<Rightarrow> health_report" where
  "hr_empty now source =
     \<lparr>hr_source = source, triggered_by = None, observed_at = Some now, successes = [], alerts = []\<rparr>"

subsection \<open>Queries\<close>

definition find_alert_by_classification ::
    "health_report \<Rightarrow> health_alert_classification \<Rightarrow> health_probe_alert option" where
  "find_alert_by_classification r c = find (\<lambda>a. c \<in> set (classifications a)) (alerts r)"

definition has_classification :: "health_report \<Rightarrow> health_alert_classification \<Rightarrow> bool" where
  "has_classification r c \<longleftrightarrow> find_alert_by_classification r c \<noteq> None"

definition report_classifications :: "health_report \<Rightarrow> health_alert_classification list" where
  "report_classifications r = concat (map classifications (alerts r))"

definition is_reboot_blocked_in_state_machine :: "health_report \<Rightarrow> bool" where
  "is_reboot_blocked_in_state_machine r \<longleftrightarrow>
     (\<exists>x\<in>set (alerts r). \<exists>a\<in>set (classifications x).
        a = stop_reboot_for_automatic_recovery_from_state_machine)"

subsection \<open>Well-known alerts and reports\<close>

definition alert_heartbeat_timeout :: "datetime \<Rightarrow> string \<Rightarrow> string \<Rightarrow> bool \<Rightarrow> bool \<Rightarrow> health_probe_alert" where
  "alert_heartbeat_timeout now target message prevent suppress =
     \<lparr>alert_id = probe_heartbeat_timeout, alert_target = Some target, in_alert_since = Some now,
      alert_message = message, tenant_message = None,
      classifications =
        (if prevent then [prevent_allocations] else [])
        @ [prevent_host_state_changes]
        @ (if suppress then [suppress_external_alerting] else [])\<rparr>"

definition alert_stale_agent_version :: "datetime \<Rightarrow> string \<Rightarrow> string \<Rightarrow> bool \<Rightarrow> health_probe_alert" where
  "alert_stale_agent_version now dpu_id message prevent =
     \<lparr>alert_id = probe_stale_agent_version, alert_target = Some dpu_id, in_alert_since = Some now,
      alert_message = message, tenant_message = None,
      classifications = (if prevent then [prevent_allocations] else [])\<rparr>"

definition alert_missing_report :: "datetime \<Rightarrow> health_probe_alert" where
  "alert_missing_report now =
     \<lparr>alert_id = probe_missing_report, alert_target = None, in_alert_since = Some now,
      alert_message = ''A HealthReport is not available'', tenant_message = None,
      classifications = []\<rparr>"

definition alert_malformed_report :: "datetime \<Rightarrow> string \<Rightarrow> health_probe_alert" where
  "alert_malformed_report now error =
     \<lparr>alert_id = probe_malformed_report, alert_target = None, in_alert_since = Some now,
      alert_message = ''Health report can not be parsed: '' @ error, tenant_message = None,
      classifications = []\<rparr>"

definition alert_sku_mismatch :: "datetime \<Rightarrow> string list \<Rightarrow> health_probe_alert" where
  "alert_sku_mismatch now mismatches =
     \<lparr>alert_id = probe_sku_validation, alert_target = None, in_alert_since = Some now,
      alert_message = join [CHR 0x0A] mismatches, tenant_message = None,
      classifications = [prevent_allocations]\<rparr>"

definition alert_sku_missing :: "datetime \<Rightarrow> string \<Rightarrow> health_probe_alert" where
  "alert_sku_missing now sku_id =
     \<lparr>alert_id = probe_sku_validation, alert_target = None, in_alert_since = Some now,
      alert_message = ''The assigned sku '' @ sku_id @ '' does not exist'', tenant_message = None,
      classifications = [prevent_allocations]\<rparr>"

definition alert_ib_port_down :: "datetime \<Rightarrow> string list \<Rightarrow> nat \<Rightarrow> health_probe_alert" where
  "alert_ib_port_down now down_ports total_ports =
     \<lparr>alert_id = probe_ib_port_down, alert_target = None, in_alert_since = Some now,
      alert_message = ''IB port(s) down: '' @ show_nat (length down_ports) @ '' of ''
        @ show_nat total_ports @ '' ports are not active. Down GUIDs: '' @ join '', '' down_ports,
      tenant_message = Some (''InfiniBand connectivity issue: '' @ show_nat (length down_ports)
        @ '' port(s) are currently unavailable''),
      classifications = [prevent_allocations]\<rparr>"

text \<open>A report that consists of one alert.\<close>

definition single_alert_report :: "datetime \<Rightarrow> string \<Rightarrow> health_probe_alert \<Rightarrow> health_report" where
  "single_alert_report now source a =
     \<lparr>hr_source = source, triggered_by = None, observed_at = Some now, successes = [], alerts = [a]\<rparr>"

definition missing_report :: "datetime \<Rightarrow> health_report" where
  "missing_report now = single_alert_report now ''MissingReport'' (alert_missing_report now)"

definition malformed_report :: "datetime \<Rightarrow> string \<Rightarrow> health_report" where
  "malformed_report now error =
     single_alert_report now ''MalformedReport'' (alert_malformed_report now error)"

definition heartbeat_timeout :: "datetime \<Rightarrow> string \<Rightarrow> string \<Rightarrow> string \<Rightarrow> bool \<Rightarrow> bool \<Rightarrow> health_report" where
  "heartbeat_timeout now source target message prevent suppress =
     single_alert_report now source (alert_heartbeat_timeout now target message prevent suppress)"

definition stale_agent_version :: "datetime \<Rightarrow> string \<Rightarrow> string \<Rightarrow> string \<Rightarrow> bool \<Rightarrow> health_report" where
  "stale_agent_version now source dpu_id message prevent =
     single_alert_report now source (alert_stale_agent_version now dpu_id message prevent)"

definition sku_mismatch :: "datetime \<Rightarrow> string list \<Rightarrow> health_report" where
  "sku_mismatch now mismatches =
     single_alert_report now ''sku-validation'' (alert_sku_mismatch now mismatches)"

definition sku_missing :: "datetime \<Rightarrow> string \<Rightarrow> health_report" where
  "sku_missing now sku_id = single_alert_report now ''sku-validation'' (alert_sku_missing now sku_id)"

definition quarantine_report :: "datetime \<Rightarrow> string \<Rightarrow> health_report" where
  "quarantine_report now message =
     single_alert_report now ''quarantine''
       \<lparr>alert_id = HealthProbeId ''Quarantine'', alert_target = None, in_alert_since = Some now,
        alert_message = message, tenant_message = None, classifications = [prevent_allocations]\<rparr>"

subsection \<open>Merging\<close>

definition merge_classifications ::
    "health_alert_classification list \<Rightarrow> health_alert_classification list
      \<Rightarrow> health_alert_classification list" where
  "merge_classifications c1 c2 = fold (bset_insert (\<le>)) c2 (bset_of_list (\<le>) c1)"

definition alert_merge :: "health_probe_alert \<Rightarrow> health_probe_alert \<Rightarrow> health_probe_alert" where
  "alert_merge a b =
     a\<lparr>classifications := merge_classifications (classifications a) (classifications b),
       alert_message :=
         (if alert_message a = [] then alert_message b
          else if alert_message b \<noteq> [] then alert_message a @ [CHR 0x0A] @ alert_message b
          else alert_message a),
       tenant_message :=
         (case (tenant_message a, tenant_message b) of
            (Some m1, Some m2) \<Rightarrow> Some (m1 @ [CHR 0x0A] @ m2)
          | (Some m1, None) \<Rightarrow> Some m1
          | (None, Some m2) \<Rightarrow> Some m2
          | (None, None) \<Rightarrow> None),
       in_alert_since := opt_min (in_alert_since b) (in_alert_since a)\<rparr>"

text \<open>The loop state of \<^verbatim>\<open>merge\<close>: the set of successful probes and the map of alerts.\<close>

type_synonym merge_state = "probe_key list \<times> (probe_key \<times> health_probe_alert) list"

definition add_own_alert :: "health_probe_alert \<Rightarrow> merge_state \<Rightarrow> merge_state" where
  "add_own_alert a = (\<lambda>(ss, m).
     (bset_remove (alert_key a) ss, bmap_insert (\<le>) (alert_key a) a m))"

definition add_other_alert :: "health_probe_alert \<Rightarrow> merge_state \<Rightarrow> merge_state" where
  "add_other_alert a = (\<lambda>(ss, m).
     (bset_remove (alert_key a) ss,
      bmap_insert (\<le>) (alert_key a)
        (case map_of m (alert_key a) of None \<Rightarrow> a | Some existing \<Rightarrow> alert_merge existing a) m))"

definition success_of_key :: "probe_key \<Rightarrow> health_probe_success" where
  "success_of_key k = \<lparr>succ_id = fst k, succ_target = snd k\<rparr>"

definition merge_loops :: "health_report \<Rightarrow> health_report \<Rightarrow> merge_state" where
  "merge_loops r s =
     fold add_other_alert (alerts s)
       (fold add_own_alert (alerts r)
          (bset_of_list (\<le>) (map succ_key (successes r) @ map succ_key (successes s)), []))"

definition merge :: "health_report \<Rightarrow> health_report \<Rightarrow> health_report" where
  "merge r s =
     (let (ss, m) = merge_loops r s in
      r\<lparr>observed_at := opt_min (observed_at r) (observed_at s),
        successes := map success_of_key ss,
        alerts := map snd m\<rparr>)"

subsection \<open>Carrying over alert times\<close>

definition previous_in_alert_times :: "health_report option \<Rightarrow> (probe_key \<rightharpoonup> datetime)" where
  "previous_in_alert_times previous =
     (case previous of
        None \<Rightarrow> Map.empty
      | Some p \<Rightarrow>
          fold (\<lambda>a m. case in_alert_since a of None \<Rightarrow> m | Some t \<Rightarrow> m(alert_key a \<mapsto> t))
            (alerts p) Map.empty)"

definition update_in_alert_since :: "datetime \<Rightarrow> health_report \<Rightarrow> health_report option \<Rightarrow> health_report" where
  "update_in_alert_since now r previous =
     r\<lparr>alerts := map (\<lambda>a. a\<lparr>in_alert_since := Some
          (case previous_in_alert_times previous (alert_key a) of Some t \<Rightarrow> t | None \<Rightarrow> now)\<rparr>)
        (alerts r)\<rparr>"

subsection \<open>Hashing\<close>

text \<open>The values handed to the hasher, in order, one entry per call.\<close>

datatype hash_input =
    HUsize nat
  | HString string
  | HOptString "string option"
  | HClassSet "health_alert_classification list"

definition success_hash :: "health_probe_success \<Rightarrow> hash_input list" where
  "success_hash s = [HString (probe_str (succ_id s)), HOptString (succ_target s)]"

definition alert_hash :: "health_probe_alert \<Rightarrow> hash_input list" where
  "alert_hash a =
     [HString (probe_str (alert_id a)), HOptString (alert_target a), HString (alert_message a),
      HOptString (tenant_message a), HClassSet (bset_of_list (\<le>) (classifications a))]"

definition hash_without_timestamps :: "health_report \<Rightarrow> hash_input list" where
  "hash_without_timestamps r =
     (let ss = fold (\<lambda>s. bmap_insert (\<le>) (succ_key s) s) (successes r) [];
          m = fold (\<lambda>a. bmap_insert (\<le>) (alert_key a) a) (alerts r) []
      in HUsize (length ss) # concat (map (success_hash \<circ> snd) ss)
         @ HUsize (length m) # concat (map (alert_hash \<circ> snd) m))"

subsection \<open>Vocabulary of the specification\<close>

text \<open>All classifications that the alerts of a map carry.\<close>

definition map_classes :: "('k \<rightharpoonup> health_probe_alert) \<Rightarrow> health_alert_classification set" where
  "map_classes m = \<Union> ((set \<circ> classifications) ` ran m)"

definition report_classes :: "health_report \<Rightarrow> health_alert_classification set" where
  "report_classes r = \<Union> ((set \<circ> classifications) ` set (alerts r))"

text \<open>Reports as \<open>merge\<close> leaves them: keys ascending, no probe both successful and in alert.\<close>

definition report_ok :: "health_report \<Rightarrow> bool" where
  "report_ok r \<longleftrightarrow>
     bset_ok (\<le>) (map alert_key (alerts r)) \<and> bset_ok (\<le>) (map succ_key (successes r)) \<and>
     set (map alert_key (alerts r)) \<inter> set (map succ_key (successes r)) = {}"

definition alert_lookup :: "health_report \<Rightarrow> probe_key \<Rightarrow> health_probe_alert option" where
  "alert_lookup r k = find (\<lambda>a. alert_key a = k) (alerts r)"

definition merge_ok :: "probe_key set \<Rightarrow> probe_key set \<Rightarrow> merge_state \<Rightarrow> bool" where
  "merge_ok S A st \<longleftrightarrow>
     bset_ok (\<le>) (fst st) \<and> bmap_ok (\<le>) (snd st) \<and>
     set (fst st) = S - A \<and> dom (map_of (snd st)) = A \<and>
     (\<forall>(k, a)\<in>set (snd st). alert_key a = k)"

text \<open>The map of alerts that the two loops build.\<close>

definition combine :: "health_probe_alert option \<Rightarrow> health_probe_alert option \<Rightarrow> health_probe_alert option" where
  "combine a b = (case (a, b) of
      (Some x, Some y) \<Rightarrow> Some (alert_merge x y) | (Some x, None) \<Rightarrow> Some x
    | (None, y) \<Rightarrow> y)"

definition erase_time :: "health_probe_alert \<Rightarrow> health_probe_alert" where
  "erase_time a = a\<lparr>in_alert_since := None\<rparr>"

subsection \<open>Lemmas\<close>

lemma has_classification_iff: "has_classification r c \<longleftrightarrow> c \<in> report_classes r"
  by (auto simp: has_classification_def find_alert_by_classification_def report_classes_def
      find_None_iff)

lemma merge_classifications_set [simp]:
  "set (merge_classifications c1 c2) = set c1 \<union> set c2"
  by (auto simp: merge_classifications_def set_fold_bset_insert)

lemma alert_merge_simps [simp]:
  "alert_key (alert_merge a b) = alert_key a"
  "set (classifications (alert_merge a b)) = set (classifications a) \<union> set (classifications b)"
  by (simp_all add: alert_merge_def alert_key_def)

lemma merge_ok_insert:
  assumes "merge_ok S A (ss, m)" "alert_key v = k"
  shows "merge_ok S (insert k A) (bset_remove k ss, bmap_insert (\<le>) k v m)"
  using assms bmap_insert_values [of "(\<le>)" k v m]
  by (auto simp: merge_ok_def bset_ok_remove lin.map_ok_insert)

lemma merge_ok_own: "merge_ok S A st \<Longrightarrow> merge_ok S (insert (alert_key a) A) (add_own_alert a st)"
  by (cases st) (auto simp: add_own_alert_def intro: merge_ok_insert)

lemma merge_ok_value:
  "merge_ok S A (ss, m) \<Longrightarrow> map_of m k = Some b \<Longrightarrow> alert_key b = k"
  by (auto simp: merge_ok_def dest!: map_of_SomeD)

lemma merge_ok_other: "merge_ok S A st \<Longrightarrow> merge_ok S (insert (alert_key a) A) (add_other_alert a st)"
  by (cases st)
     (auto simp: add_other_alert_def intro!: merge_ok_insert split: option.splits
       dest: merge_ok_value)

lemma merge_ok_fold:
  assumes "\<And>S A st a. merge_ok S A st \<Longrightarrow> merge_ok S (insert (alert_key a) A) (f a st)"
    and "merge_ok S A st"
  shows "merge_ok S (set (map alert_key as) \<union> A) (fold f as st)"
  using assms(2)
proof (induction as arbitrary: A st)
  case Nil
  then show ?case by simp
next
  case (Cons a as)
  have "merge_ok S (set (map alert_key as) \<union> insert (alert_key a) A) (fold f as (f a st))"
    by (rule Cons.IH) (rule assms(1) [OF Cons.prems])
  then show ?case by simp
qed

lemma merge_loops_ok:
  "merge_ok (set (map succ_key (successes r)) \<union> set (map succ_key (successes s)))
     (set (map alert_key (alerts r)) \<union> set (map alert_key (alerts s))) (merge_loops r s)"
proof -
  let ?S = "set (map succ_key (successes r)) \<union> set (map succ_key (successes s))"
  let ?ss = "bset_of_list (\<le>) (map succ_key (successes r) @ map succ_key (successes s))"
  have "merge_ok ?S {} (?ss, [])"
    using lin.ok_of_list [of "map succ_key (successes r) @ map succ_key (successes s)"]
    by (simp add: merge_ok_def)
  then have "merge_ok ?S (set (map alert_key (alerts s)) \<union> (set (map alert_key (alerts r)) \<union> {}))
      (merge_loops r s)"
    unfolding merge_loops_def by (intro merge_ok_fold merge_ok_other merge_ok_own)
  then show ?thesis by (simp add: Un_commute)
qed

lemma succ_key_success_of_key [simp]: "succ_key (success_of_key k) = k"
  by (simp add: succ_key_def success_of_key_def)

lemma merge_ok_keys: "merge_ok S A st \<Longrightarrow> map alert_key (map snd (snd st)) = map fst (snd st)"
  by (auto simp: merge_ok_def)

text \<open>The alerts and successes of a merged report are those of the final loop state.\<close>

lemma merge_state:
  obtains ss m where
    "merge_loops r s = (ss, m)"
    "merge_ok (set (map succ_key (successes r)) \<union> set (map succ_key (successes s)))
       (set (map alert_key (alerts r)) \<union> set (map alert_key (alerts s))) (ss, m)"
    "alerts (merge r s) = map snd m" "map succ_key (successes (merge r s)) = ss"
    "map alert_key (alerts (merge r s)) = map fst m"
proof -
  obtain ss m where st: "merge_loops r s = (ss, m)" by force
  note ok = merge_loops_ok [of r s, unfolded st]
  have "map (succ_key \<circ> success_of_key) ss = ss" by (simp add: comp_def)
  with st ok merge_ok_keys [OF ok] show ?thesis
    by (intro that [of ss m]) (simp_all add: merge_def)
qed

lemma merge_report_ok: "report_ok (merge r s)"
  by (rule merge_state [of r s])
     (simp add: report_ok_def merge_ok_def bmap_ok_def dom_map_of_conv_image_fst
       del: map_map set_map; auto)

lemma merge_keys:
  "set (map alert_key (alerts (merge r s))) = set (map alert_key (alerts r)) \<union> set (map alert_key (alerts s))"
  "set (map succ_key (successes (merge r s))) =
     (set (map succ_key (successes r)) \<union> set (map succ_key (successes s)))
      - (set (map alert_key (alerts r)) \<union> set (map alert_key (alerts s)))"
  by (rule merge_state [of r s];
      simp add: merge_ok_def dom_map_of_conv_image_fst del: map_map set_map; auto)+

lemma add_own_map: "map_of (snd (add_own_alert a st)) = (map_of (snd st))(alert_key a \<mapsto> a)"
  by (cases st) (simp add: add_own_alert_def)

lemma add_other_map:
  "map_of (snd (add_other_alert a st)) =
     (map_of (snd st))(alert_key a := combine (map_of (snd st) (alert_key a)) (Some a))"
  by (cases st) (auto simp: add_other_alert_def combine_def split: option.splits)

lemma fresh_key:
  "distinct (map alert_key (a # as)) \<Longrightarrow> x \<in> set as \<Longrightarrow> alert_key x \<noteq> alert_key a"
  by (metis distinct.simps(2) imageI list.simps(9) set_map)

lemma find_fresh_key:
  "distinct (map alert_key (a # as)) \<Longrightarrow> find (\<lambda>b. alert_key b = alert_key a) as = None"
  by (auto simp: find_None_iff dest: fresh_key simp del: list.map distinct.simps)

lemma fold_own_map:
  "distinct (map alert_key as) \<Longrightarrow> \<forall>a\<in>set as. map_of (snd st) (alert_key a) = None \<Longrightarrow>
   map_of (snd (fold add_own_alert as st)) k =
     (case find (\<lambda>a. alert_key a = k) as of None \<Rightarrow> map_of (snd st) k | Some a \<Rightarrow> Some a)"
proof (induction as arbitrary: st)
  case Nil
  then show ?case by simp
next
  case (Cons a as)
  have "map_of (snd (fold add_own_alert as (add_own_alert a st))) k =
      (case find (\<lambda>a. alert_key a = k) as of
         None \<Rightarrow> map_of (snd (add_own_alert a st)) k | Some a \<Rightarrow> Some a)"
    using Cons.prems fresh_key [OF Cons.prems(1)]
    by (intro Cons.IH) (simp_all add: add_own_map)
  with find_fresh_key [OF Cons.prems(1)] show ?case
    by (auto simp: add_own_map split: option.splits)
qed

lemma fold_other_map:
  "distinct (map alert_key as) \<Longrightarrow>
   map_of (snd (fold add_other_alert as st)) k =
     combine (map_of (snd st) k) (find (\<lambda>a. alert_key a = k) as)"
proof (induction as arbitrary: st)
  case Nil
  then show ?case by (simp add: combine_def split: option.splits)
next
  case (Cons a as)
  note find_fresh_key [OF Cons.prems]
  moreover have "map_of (snd (fold add_other_alert (a # as) st)) k =
      combine (map_of (snd (add_other_alert a st)) k) (find (\<lambda>a. alert_key a = k) as)"
    using Cons.IH [of "add_other_alert a st"] Cons.prems by simp
  ultimately show ?case
    by (auto simp: add_other_map combine_def split: option.splits)
qed

lemma find_values_map_of:
  "\<forall>(k, a)\<in>set m. alert_key a = k \<Longrightarrow> find (\<lambda>a. alert_key a = k) (map snd m) = map_of m k"
  by (induction m) auto

lemma merge_lookup:
  assumes "distinct (map alert_key (alerts r))" "distinct (map alert_key (alerts s))"
  shows "alert_lookup (merge r s) k = combine (alert_lookup r k) (alert_lookup s k)"
proof (rule merge_state [of r s])
  fix ss m
  assume st: "merge_loops r s = (ss, m)" and al: "alerts (merge r s) = map snd m"
    and ok: "merge_ok (set (map succ_key (successes r)) \<union> set (map succ_key (successes s)))
       (set (map alert_key (alerts r)) \<union> set (map alert_key (alerts s))) (ss, m)"
  from st have "map_of m k = map_of (snd (merge_loops r s)) k" by simp
  also have "\<dots> = combine (alert_lookup r k) (alert_lookup s k)"
    using assms
    by (simp add: merge_loops_def fold_other_map fold_own_map alert_lookup_def split: option.splits)
  finally show ?thesis
    using ok by (simp add: alert_lookup_def al find_values_map_of merge_ok_def)
qed

text \<open>Classifications through the loops.\<close>

lemma ran_fun_upd_None: "m k = None \<Longrightarrow> ran (m(k \<mapsto> v)) = insert v (ran m)"
  by (rule ran_map_upd)

lemma map_classes_fresh:
  "m k = None \<Longrightarrow> map_classes (m(k \<mapsto> v)) = set (classifications v) \<union> map_classes m"
  by (simp add: map_classes_def)

lemma map_classes_grow:
  assumes "m k = Some u" "set (classifications v) = set (classifications u) \<union> C"
  shows "map_classes (m(k \<mapsto> v)) = C \<union> map_classes m"
proof -
  have "ran (m(k \<mapsto> v)) \<subseteq> insert v (ran m)" "v \<in> ran (m(k \<mapsto> v))" "u \<in> ran m"
    using assms(1) by (auto simp: ran_def)
  moreover have "ran m \<subseteq> insert u (ran (m(k \<mapsto> v)))"
  proof
    fix x
    assume "x \<in> ran m"
    then obtain j where "m j = Some x" by (auto simp: ran_def)
    with assms(1) have "x = u \<or> (m(k \<mapsto> v)) j = Some x" by (cases "j = k") auto
    then show "x \<in> insert u (ran (m(k \<mapsto> v)))" by (blast intro: ranI)
  qed
  ultimately show ?thesis using assms(2) unfolding map_classes_def by fastforce
qed

lemma add_other_classes:
  "map_classes (map_of (snd (add_other_alert a st))) =
     set (classifications a) \<union> map_classes (map_of (snd st))"
proof (cases "map_of (snd st) (alert_key a)")
  case None
  then show ?thesis by (simp add: add_other_map combine_def map_classes_fresh)
next
  case (Some u)
  then show ?thesis by (simp add: add_other_map combine_def map_classes_grow)
qed

lemma fold_other_classes:
  "map_classes (map_of (snd (fold add_other_alert as st))) =
     \<Union> ((set \<circ> classifications) ` set as) \<union> map_classes (map_of (snd st))"
  by (induction as arbitrary: st) (auto simp: add_other_classes)

lemma fold_own_classes:
  "distinct (map alert_key as) \<Longrightarrow> \<forall>a\<in>set as. map_of (snd st) (alert_key a) = None \<Longrightarrow>
   map_classes (map_of (snd (fold add_own_alert as st))) =
     \<Union> ((set \<circ> classifications) ` set as) \<union> map_classes (map_of (snd st))"
proof (induction as arbitrary: st)
  case Nil
  then show ?case by simp
next
  case (Cons a as)
  have "map_classes (map_of (snd (fold add_own_alert as (add_own_alert a st)))) =
      \<Union> ((set \<circ> classifications) ` set as) \<union> map_classes (map_of (snd (add_own_alert a st)))"
    using Cons.prems fresh_key [OF Cons.prems(1)]
    by (intro Cons.IH) (simp_all add: add_own_map)
  moreover have "map_classes (map_of (snd (add_own_alert a st)))
      = set (classifications a) \<union> map_classes (map_of (snd st))"
    using Cons.prems by (simp add: add_own_map map_classes_fresh)
  ultimately show ?case by auto
qed

lemma merge_classes:
  assumes "distinct (map alert_key (alerts r))"
  shows "report_classes (merge r s) = report_classes r \<union> report_classes s"
proof (rule merge_state [of r s])
  fix ss m
  assume st: "merge_loops r s = (ss, m)" and al: "alerts (merge r s) = map snd m"
    and ok: "merge_ok (set (map succ_key (successes r)) \<union> set (map succ_key (successes s)))
       (set (map alert_key (alerts r)) \<union> set (map alert_key (alerts s))) (ss, m)"
  have "ran (map_of m) = snd ` set m"
    using ok by (intro ran_distinct) (auto simp: merge_ok_def bmap_ok_distinct)
  then have "report_classes (merge r s) = map_classes (map_of m)"
    by (simp add: report_classes_def al map_classes_def)
  also have "\<dots> = map_classes (map_of (snd (merge_loops r s)))" by (simp add: st)
  also have "\<dots> = report_classes r \<union> report_classes s"
    using assms
    by (simp add: merge_loops_def fold_other_classes fold_own_classes report_classes_def Un_ac)
      (simp add: map_classes_def)
  finally show ?thesis .
qed


text \<open>Alert times of the previous report.\<close>

lemma previous_times_fold:
  "fold (\<lambda>a m. case in_alert_since a of None \<Rightarrow> m | Some t \<Rightarrow> m(alert_key a \<mapsto> t)) as m k =
     (case find (\<lambda>a. alert_key a = k \<and> in_alert_since a \<noteq> None) (rev as) of
        None \<Rightarrow> m k | Some a \<Rightarrow> in_alert_since a)"
proof (induction as rule: rev_induct)
  case Nil
  then show ?case by simp
next
  case (snoc a as)
  then show ?case by (auto split: option.splits)
qed

lemma erase_time_simps [simp]:
  "alert_key (erase_time a) = alert_key a" "alert_hash (erase_time a) = alert_hash a"
  by (simp_all add: erase_time_def alert_key_def alert_hash_def)

lemma hash_entries:
  "map (alert_hash \<circ> snd) (collect_by alert_key (map erase_time as)) =
     map (alert_hash \<circ> snd) (collect_by alert_key as)"
  "length (collect_by alert_key (map erase_time as)) = length (collect_by alert_key as)"
  by (simp_all add: collect_by_map comp_def)

subsection \<open>Properties\<close>

text \<open>
  C31. Merging two reports yields a well-formed report whatever the inputs: one alert per probe
  (id and target), one success per probe, both in ascending order of their keys, and no probe that
  is successful and in alert at once. The probes in alert are those of either report; the
  successful ones are those of either report that are in alert in none.
\<close>

theorem merge_well_formed:
  "report_ok (merge r s)
   \<and> set (map alert_key (alerts (merge r s)))
       = set (map alert_key (alerts r)) \<union> set (map alert_key (alerts s))
   \<and> set (map succ_key (successes (merge r s)))
       = (set (map succ_key (successes r)) \<union> set (map succ_key (successes s)))
         - (set (map alert_key (alerts r)) \<union> set (map alert_key (alerts s)))
   \<and> observed_at (merge r s) = opt_min (observed_at r) (observed_at s)
   \<and> hr_source (merge r s) = hr_source r"
  using merge_report_ok [of r s] merge_keys [of r s]
  by (auto simp: merge_def split: prod.splits)

text \<open>
  The functional behaviour of \<^verbatim>\<open>merge\<close> per probe, for reports that mention each probe at
  most once: an alert of only one report is copied, alerts of both are combined by
  \<open>alert_merge\<close>.
\<close>

theorem merge_alert_lookup:
  assumes "distinct (map alert_key (alerts r))" "distinct (map alert_key (alerts s))"
  shows "alert_lookup (merge r s) k =
    (case (alert_lookup r k, alert_lookup s k) of
       (Some a, Some b) \<Rightarrow> Some (alert_merge a b)
     | (Some a, None) \<Rightarrow> Some a
     | (None, b) \<Rightarrow> b)"
  using merge_lookup [OF assms] by (simp add: combine_def)

theorem merge_alert_lookup_witness:
  "alert_lookup (merge (quarantine_report 5 ''a'') (quarantine_report 5 ''b'')) (HealthProbeId ''Quarantine'', None)
     = Some (alert_merge (hd (alerts (quarantine_report 5 ''a''))) (hd (alerts (quarantine_report 5 ''b''))))"
  using merge_alert_lookup [of "quarantine_report 5 ''a''" "quarantine_report 5 ''b''"
      "(HealthProbeId ''Quarantine'', None)"]
  by (simp add: quarantine_report_def single_alert_report_def alert_lookup_def
      alert_key_def)

text \<open>
  No classification is lost or invented by a merge into a report that mentions each probe at
  most once: the merged report has a classification exactly when one of the two reports has it. In
  particular a \<^verbatim>\<open>PreventAllocations\<close> alert of either report still prevents allocations.
\<close>

theorem merge_has_classification:
  assumes "distinct (map alert_key (alerts r))"
  shows "has_classification (merge r s) c \<longleftrightarrow> has_classification r c \<or> has_classification s c"
  using merge_classes [OF assms, of s] by (simp add: has_classification_iff)

theorem merge_has_classification_witness:
  "has_classification (merge (hr_empty 5 ''x'') (quarantine_report 5 ''b'')) prevent_allocations"
  using merge_has_classification [of "hr_empty 5 ''x''" "quarantine_report 5 ''b''" prevent_allocations]
  by (simp add: quarantine_report_def single_alert_report_def hr_empty_def
      has_classification_def find_alert_by_classification_def)

text \<open>
  When the receiving report mentions a probe twice, only its last alert survives a merge, and
  with the other alert its classifications are lost: a report that prevents allocations can stop
  doing so by being merged with an empty report.
\<close>

theorem merge_drops_duplicate_own_alerts:
  "\<exists>r s. has_classification r prevent_allocations \<and> alerts s = []
     \<and> \<not> has_classification (merge r s) prevent_allocations"
proof -
  let ?a = "\<lparr>alert_id = HealthProbeId ''Fan'', alert_target = None, in_alert_since = None,
    alert_message = ''m'', tenant_message = None, classifications = [prevent_allocations]\<rparr>"
  let ?r = "(hr_empty 5 ''x'')\<lparr>alerts := [?a, ?a\<lparr>classifications := []\<rparr>]\<rparr>"
  have "has_classification ?r prevent_allocations"
    by (simp add: hr_empty_def has_classification_def find_alert_by_classification_def)
  moreover have "\<not> has_classification (merge ?r (hr_empty 5 ''x'')) prevent_allocations"
    by (simp add: merge_def merge_loops_def hr_empty_def add_own_alert_def alert_key_def
        bset_of_list_def bset_remove_def has_classification_def find_alert_by_classification_def)
  ultimately show ?thesis by (intro exI [of _ ?r] exI [of _ "hr_empty 5 ''x''"]) (simp add: hr_empty_def)
qed

text \<open>
  \<^verbatim>\<open>update_in_alert_since\<close> dates every alert: an alert of a probe that the previous report
  had in alert with a time keeps that time (the last such alert of the probe counts), any other
  alert gets the current time; nothing else of the report changes.
\<close>

theorem update_in_alert_since_spec:
  "update_in_alert_since now r previous =
     r\<lparr>alerts := map (\<lambda>a. a\<lparr>in_alert_since :=
        (case previous of
           None \<Rightarrow> Some now
         | Some p \<Rightarrow>
             (case find (\<lambda>b. alert_key b = alert_key a \<and> in_alert_since b \<noteq> None) (rev (alerts p)) of
                None \<Rightarrow> Some now
              | Some b \<Rightarrow> in_alert_since b))\<rparr>) (alerts r)\<rparr>"
proof (cases previous)
  case None
  then show ?thesis
    by (simp add: update_in_alert_since_def previous_in_alert_times_def)
next
  case (Some p)
  have "Some (case previous_in_alert_times previous k of Some t \<Rightarrow> t | None \<Rightarrow> now) =
      (case find (\<lambda>b. alert_key b = k \<and> in_alert_since b \<noteq> None) (rev (alerts p)) of
         None \<Rightarrow> Some now | Some b \<Rightarrow> in_alert_since b)" for k
  proof (cases "find (\<lambda>b. alert_key b = k \<and> in_alert_since b \<noteq> None) (rev (alerts p))")
    case None
    with Some show ?thesis
      by (simp add: previous_in_alert_times_def previous_times_fold del: not_None_eq)
  next
    case (Some b)
    from find_SomeD [OF this] obtain t where "in_alert_since b = Some t" by auto
    with Some \<open>previous = Some p\<close> show ?thesis
      by (simp add: previous_in_alert_times_def previous_times_fold del: not_None_eq)
  qed
  with Some show ?thesis by (simp add: update_in_alert_since_def)
qed

text \<open>
  The hash of a report ignores every timestamp and the order in which a report lists its
  probes: two reports that list the same successes and, up to \<^verbatim>\<open>in_alert_since\<close>, the same alerts,
  each probe at most once, feed the same values into the hasher.
\<close>

theorem hash_ignores_times_and_order:
  assumes "distinct (map alert_key (alerts r))" "distinct (map alert_key (alerts s))"
    and "distinct (map succ_key (successes r))" "distinct (map succ_key (successes s))"
    and "set (map erase_time (alerts r)) = set (map erase_time (alerts s))"
    and "set (successes r) = set (successes s)"
  shows "hash_without_timestamps r = hash_without_timestamps s"
proof -
  have h: "hash_without_timestamps q =
      HUsize (length (collect_by succ_key (successes q)))
      # concat (map (success_hash \<circ> snd) (collect_by succ_key (successes q)))
      @ HUsize (length (collect_by alert_key (map erase_time (alerts q))))
      # concat (map (alert_hash \<circ> snd) (collect_by alert_key (map erase_time (alerts q))))" for q
    by (simp add: hash_without_timestamps_def hash_entries Let_def collect_by_def [symmetric] del: map_map)
  have "collect_by alert_key (map erase_time (alerts r)) =
      collect_by alert_key (map erase_time (alerts s))"
    using assms by (intro collect_by_cong) (simp_all add: comp_def)
  moreover have "collect_by succ_key (successes r) = collect_by succ_key (successes s)"
    using assms by (intro collect_by_cong) simp_all
  ultimately show ?thesis by (simp only: h)
qed

theorem hash_ignores_times_and_order_witness:
  "hash_without_timestamps (quarantine_report 5 ''m'') = hash_without_timestamps (quarantine_report 9 ''m'')"
  using hash_ignores_times_and_order [of "quarantine_report 5 ''m''" "quarantine_report 9 ''m''"]
  by (simp add: quarantine_report_def single_alert_report_def erase_time_def)

end
