(* ===== verification/Config_Version.thy ===== *)
theory Config_Version
  imports Rust_Strings "HOL-Library.Signed_Division"
begin

section \<open>Versions of configurations and controller states\<close>

text \<open>
  \<^verbatim>\<open>crates/config-version/src/lib.rs\<close>: the version number and timestamp attached to every
  configuration and controller state, its increment, its database format and the parser of that
  format, and the human-readable age. \<^verbatim>\<open>chrono\<close> is a library outside the repository: the four
  functions of it that the crate calls are the record \<open>chrono_ops\<close>, an argument of the
  definitions, and the locale \<open>chrono\<close> states what chrono documents of them. A panic
  (\<^verbatim>\<open>expect\<close>, arithmetic overflow with overflow checks on) is the value \<open>None\<close>.
\<close>

record chrono_ops =
  from_timestamp :: "int \<Rightarrow> u32 \<Rightarrow> datetime option"
  timestamp_micros :: "datetime \<Rightarrow> int"
  num_seconds :: "duration \<Rightarrow> int"

subsection \<open>The data\<close>

record config_version =
  version_nr :: u64
  timestamp :: datetime

record 'a versioned =
  ver_value :: 'a
  ver_version :: config_version

record config_version_change =
  current_version :: config_version
  new_version :: config_version

datatype config_version_parse_error =
    VersionFormat string
  | DateTimeError int u32

subsection \<open>Operations\<close>

definition versioned_new :: "'a \<Rightarrow> config_version \<Rightarrow> 'a versioned" where
  "versioned_new v ver = \<lparr>ver_value = v, ver_version = ver\<rparr>"

definition versioned_take :: "'a versioned \<Rightarrow> 'a \<times> config_version" where
  "versioned_take v = (ver_value v, ver_version v)"

text \<open>
  \<open>cv_now c sys\<close>: the system clock read \<open>sys\<close> nanoseconds after the epoch, truncated to a
  microsecond.
\<close>

definition cv_now :: "chrono_ops \<Rightarrow> int \<Rightarrow> datetime option" where
  "cv_now c sys =
     (if sys < 0 then None
      else let rnd = sys mod 1000;
               now = sys - rnd;
               secs = (of_int (now div 1000000000) :: u64);
               nanos = (of_int (now mod 1000000000) :: u32)
           in from_timestamp c (sint secs) nanos)"

definition tzero :: "chrono_ops \<Rightarrow> datetime option" where
  "tzero c = cv_now c 0"

definition cv_new :: "chrono_ops \<Rightarrow> int \<Rightarrow> u64 \<Rightarrow> config_version option" where
  "cv_new c sys nr = map_option (\<lambda>t. \<lparr>version_nr = nr, timestamp = t\<rparr>) (cv_now c sys)"

definition cv_initial :: "chrono_ops \<Rightarrow> int \<Rightarrow> config_version option" where
  "cv_initial c sys = map_option (\<lambda>t. \<lparr>version_nr = 1, timestamp = t\<rparr>) (cv_now c sys)"

definition cv_invalid :: "chrono_ops \<Rightarrow> config_version option" where
  "cv_invalid c = map_option (\<lambda>t. \<lparr>version_nr = 0, timestamp = t\<rparr>) (tzero c)"

definition next_nr :: "u64 \<Rightarrow> u64" where
  "next_nr nr = (let nr = nr + 1 in or nr (if nr = 0 then 1 else 0))"

definition increment :: "chrono_ops \<Rightarrow> int \<Rightarrow> config_version \<Rightarrow> config_version option" where
  "increment c sys v =
     map_option (\<lambda>t. \<lparr>version_nr = next_nr (version_nr v), timestamp = t\<rparr>) (cv_now c sys)"

text \<open>\<^verbatim>\<open>Utc::now()\<close> is not truncated here; the addition panics on overflow.\<close>

definition incremental_change :: "int \<Rightarrow> config_version \<Rightarrow> config_version_change option" where
  "incremental_change utc_now v =
     (if version_nr v = - 1 then None
      else Some \<lparr>current_version = v,
                 new_version = \<lparr>version_nr = version_nr v + 1, timestamp = utc_now\<rparr>\<rparr>)"

definition version_string :: "chrono_ops \<Rightarrow> config_version \<Rightarrow> string" where
  "version_string c v =
     ''V'' @ show_nat (unat (version_nr v)) @ ''-T'' @ show_int (timestamp_micros c (timestamp v))"

definition since_state_change :: "datetime \<Rightarrow> config_version \<Rightarrow> duration" where
  "since_state_change utc_now v = utc_now - timestamp v"

definition min_by_timestamp :: "config_version \<Rightarrow> config_version \<Rightarrow> config_version" where
  "min_by_timestamp v w =
     (if timestamp v < timestamp w then v
      else if timestamp v = timestamp w then
        (if version_nr v < version_nr w then v
         else if version_nr v = version_nr w then v
         else w)
      else w)"

definition from_str :: "chrono_ops \<Rightarrow> string \<Rightarrow> (config_version_parse_error, config_version) result" where
  "from_str c s =
     (case split_on (CHR ''-'') (trim s) of
        [] \<Rightarrow> Err (VersionFormat s)
      | [_] \<Rightarrow> Err (VersionFormat s)
      | [version_nr_str, timestamp_str] \<Rightarrow>
          if version_nr_str = [] \<or> hd version_nr_str \<noteq> CHR ''V''
             \<or> timestamp_str = [] \<or> hd timestamp_str \<noteq> CHR ''T''
          then Err (VersionFormat s)
          else (case parse_u64 (tl version_nr_str) of
              None \<Rightarrow> Err (VersionFormat s)
            | Some nr \<Rightarrow>
                (case parse_u64 (tl timestamp_str) of
                   None \<Rightarrow> Err (VersionFormat s)
                 | Some ts \<Rightarrow>
                     let secs = ts div 1000000;
                         usecs = ts mod 1000000;
                         nanos = (ucast (usecs * 1000) :: u32)
                     in case from_timestamp c (sint secs) nanos of
                          None \<Rightarrow> Err (DateTimeError (sint secs) nanos)
                        | Some t \<Rightarrow> Ok \<lparr>version_nr = nr, timestamp = t\<rparr>))
      | _ \<Rightarrow> Err (VersionFormat s))"

subsection \<open>Human-readable age\<close>

definition plural :: "int \<Rightarrow> string \<Rightarrow> string" where
  "plural val period =
     (if val = 1 then show_int val @ '' '' @ period else show_int val @ '' '' @ period @ ''s'')"

definition duration_parts :: "int \<Rightarrow> string list" where
  "duration_parts seconds =
     (let days = seconds sdiv 86400;
          hours = (seconds smod 86400) sdiv 3600;
          minutes = (seconds smod 3600) sdiv 60;
          secs = seconds smod 60;
          parts = (if days > 0 then [plural days ''day''] else [])
                @ (if hours > 0 then [plural hours ''hour''] else [])
                @ (if minutes > 0 then [plural minutes ''minute''] else [])
      in if parts = [] then [plural secs ''second''] else parts)"

definition format_duration :: "chrono_ops \<Rightarrow> duration \<Rightarrow> string" where
  "format_duration c d =
     (let parts = duration_parts (num_seconds c d) in
      case parts of
        [] \<Rightarrow> ''0 seconds''
      | [p] \<Rightarrow> p
      | _ \<Rightarrow> join '', '' (butlast parts) @ '' and '' @ last parts)"

definition since_state_change_humanized :: "chrono_ops \<Rightarrow> datetime \<Rightarrow> string \<Rightarrow> string" where
  "since_state_change_humanized c utc_now ver =
     (case from_str c ver of
        Inl _ \<Rightarrow> ''state version parse error''
      | Inr v \<Rightarrow> format_duration c (since_state_change utc_now v))"

text \<open>The order that \<open>min_by_timestamp\<close> minimises.\<close>

definition version_key :: "config_version \<Rightarrow> datetime \<times> u64" where
  "version_key v = (timestamp v, version_nr v)"

subsection \<open>What chrono documents\<close>

text \<open>
  \<open>from_timestamp\<close> returns the instant \<open>s\<close> seconds and \<open>ns\<close> nanoseconds after the epoch
  when the number of seconds is in range; \<open>timestamp_micros\<close> counts the whole microseconds
  since the epoch; \<open>num_seconds\<close> counts whole seconds, rounding towards zero.
\<close>

locale chrono =
  fixes c :: chrono_ops and secs_ok :: "int \<Rightarrow> bool"
  assumes from_timestamp_spec: "unat ns < 1000000000 \<Longrightarrow>
      from_timestamp c s ns = (if secs_ok s then Some (s * 1000000000 + int (unat ns)) else None)"
    and timestamp_micros_spec: "timestamp_micros c t = t div 1000"
    and num_seconds_spec: "num_seconds c d = d sdiv 1000000000"

definition chrono_secs_ok :: "int \<Rightarrow> bool" where
  "chrono_secs_ok s \<longleftrightarrow> - 8334601228800 \<le> s \<and> s \<le> 8210266876799"

definition chrono_doc :: chrono_ops where
  "chrono_doc =
     \<lparr>from_timestamp = (\<lambda>s ns.
        if chrono_secs_ok s \<and> (unat ns < 1000000000 \<or> unat ns < 2000000000 \<and> s mod 60 = 59)
        then Some (s * 1000000000 + int (unat ns)) else None),
      timestamp_micros = (\<lambda>t. t div 1000),
      num_seconds = (\<lambda>d. d sdiv 1000000000)\<rparr>"

interpretation chrono_doc: chrono chrono_doc chrono_secs_ok
  by unfold_locales (simp_all add: chrono_doc_def)

subsection \<open>Lemmas\<close>

lemma sint_small_nat: "n < 2 ^ 63 \<Longrightarrow> sint (of_nat n :: u64) = int n"
  by (simp add: signed_of_nat signed_take_bit_int_eq_self)

lemma micros_secs:
  fixes ts :: u64
  shows "sint (ts div 1000000) = int (unat ts div 1000000)"
proof -
  have "unat ts < 2 ^ LENGTH(64)" by (rule unsigned_less)
  then have "unat ts div 1000000 < 2 ^ 63" by simp
  moreover have "ts div 1000000 = of_nat (unat ts div 1000000)"
    by (simp add: word_arith_nat_defs(6))
  ultimately show ?thesis by (simp add: sint_small_nat)
qed

lemma micros_nanos:
  fixes ts :: u64
  shows "unat (ucast (ts mod 1000000 * 1000) :: u32) = unat ts mod 1000000 * 1000"
proof -
  have m: "unat (ts mod 1000000) = unat ts mod 1000000"
    by (simp add: unat_mod_distrib)
  have "unat (ts mod 1000000 * 1000) = unat ts mod 1000000 * 1000"
    using m by (subst unat_mult_lem [THEN iffD1]) auto
  then show ?thesis
    by (simp add: unsigned_ucast_eq take_bit_nat_eq_self)
qed

lemma micros_recombine:
  "int (n div 1000000) * 1000000000 + int (n mod 1000000 * 1000) = int n * 1000"
proof -
  have "n div 1000000 * 1000000 + n mod 1000000 = n" by simp
  then have "n div 1000000 * 1000000000 + n mod 1000000 * 1000 = n * 1000" by linarith
  then show ?thesis by (metis of_nat_add of_nat_mult of_nat_numeral)
qed

text \<open>Splitting the printed form.\<close>

lemma split_version_string:
  assumes "0 \<le> timestamp_micros c (timestamp v)"
  shows "split_on (CHR ''-'') (trim (version_string c v)) =
    [CHR ''V'' # show_nat (unat (version_nr v)),
     CHR ''T'' # show_nat (nat (timestamp_micros c (timestamp v)))]"
proof -
  let ?a = "show_nat (unat (version_nr v))"
  let ?b = "show_nat (nat (timestamp_micros c (timestamp v)))"
  have s: "version_string c v = (CHR ''V'' # ?a) @ CHR ''-'' # (CHR ''T'' # ?b)"
    using assms by (simp add: version_string_def show_int_nonneg)
  have dash: "CHR ''-'' \<notin> set (show_nat n)" for n
    using show_nat_digits [of n] by auto
  have "last ?b \<in> set ?b" by simp
  with show_nat_digits have "graphic (last ?b)" by (blast intro: is_digit_graphic)
  then have "trim (version_string c v) = version_string c v"
    by (intro trim_graphic) (simp add: s graphic_def)
  with s dash show ?thesis
    by (simp del: append_Cons split_on.simps add: split_on_append split_on_absent)
qed

context chrono
begin

lemma parsed_timestamp:
  fixes ts :: u64
  shows "from_timestamp c (sint (ts div 1000000)) (ucast (ts mod 1000000 * 1000) :: u32) =
    (if secs_ok (int (unat ts div 1000000)) then Some (int (unat ts) * 1000) else None)"
proof -
  have "unat ts mod 1000000 * 1000 < 1000000000" by (simp add: mult_less_cancel2 [of _ 1000 1000000, simplified])
  moreover have "int (unat ts div 1000000) * 1000000000 + int (unat ts mod 1000000 * 1000)
      = int (unat ts) * 1000"
    by (rule micros_recombine)
  ultimately show ?thesis
    by (simp only: from_timestamp_spec micros_nanos micros_secs)
qed

lemma from_str_version_string:
  assumes "0 \<le> timestamp v" "1000 dvd timestamp v" "timestamp v < 2 ^ 64 * 1000"
    "secs_ok (timestamp v div 1000000000)"
  shows "from_str c (version_string c v) = Ok v"
proof -
  define m where "m = nat (timestamp v div 1000)"
  have t: "timestamp v = int m * 1000" and m: "m < 2 ^ 64"
    using assms(1-3) by (auto simp: m_def dvd_def)
  have tm: "timestamp_micros c (timestamp v) = int m"
    by (simp add: timestamp_micros_spec t)
  have p: "parse_u64 (show_nat m) = Some (of_nat m)"
    using m by (simp add: parse_u64_def parse_nat_show_nat)
  have um: "unat (of_nat m :: u64) = m"
    using m by (simp add: unsigned_of_nat take_bit_nat_eq_self)
  have "timestamp v div 1000000000 = int (m div 1000000)"
    by (simp add: t zdiv_int zdiv_zmult2_eq [of 1000 "int m * 1000" 1000000, simplified])
  with assms(4) have "secs_ok (int (m div 1000000))" by simp
  then show ?thesis
    using tm by (simp add: from_str_def split_version_string p Let_def parsed_timestamp um t)
qed

lemma from_str_timestamp:
  assumes "from_str c s = Ok v"
  shows "\<exists>m. m < 2 ^ 64 \<and> timestamp v = int m * 1000 \<and> secs_ok (int (m div 1000000))"
proof -
  from assms obtain ts :: u64 where ts:
    "from_timestamp c (sint (ts div 1000000)) (ucast (ts mod 1000000 * 1000) :: u32) = Some (timestamp v)"
    by (auto simp: from_str_def Let_def split: list.splits if_splits option.splits)
  have "unat ts < 2 ^ LENGTH(64)" by (rule unsigned_less)
  with ts show ?thesis
    by (auto simp: parsed_timestamp split: if_splits intro!: exI [of _ "unat ts"])
qed

end


subsection \<open>Properties\<close>

lemma next_nr_eq: "next_nr n = (if n = - 1 then 1 else n + 1)"
  by (simp add: next_nr_def Let_def eq_neg_iff_add_eq_0)

lemma next_nr_nonzero: "next_nr n \<noteq> 0"
  by (simp add: next_nr_eq eq_neg_iff_add_eq_0)

lemma next_nr_less: "n \<noteq> - 1 \<Longrightarrow> n < next_nr n"
  by (simp add: next_nr_eq word_less_nat_alt unatSuc add.commute eq_neg_iff_add_eq_0)

lemma cv_now_aligned:
  assumes "chrono c secs_ok" "cv_now c sys = Some t" "sys < 2 ^ 64 * 1000"
  shows "0 \<le> t" "1000 dvd t" "t < 2 ^ 64 * 1000" "secs_ok (t div 1000000000)"
proof -
  from assms(1) have spec: "unat ns < 1000000000 \<Longrightarrow>
      from_timestamp c s ns = (if secs_ok s then Some (s * 1000000000 + int (unat ns)) else None)"
    for s ns by (rule chrono.from_timestamp_spec)
  define n where "n = sys - sys mod 1000"
  from assms(2) have sys: "0 \<le> sys" by (auto simp: cv_now_def split: if_splits)
  have n: "0 \<le> n" "n \<le> sys" "1000 dvd n"
    using sys by (simp_all add: n_def zmod_le_nonneg_dividend)
  have secs: "sint (of_int (n div 1000000000) :: u64) = n div 1000000000"
    using n(1,2) assms(3) by (simp add: signed_of_int signed_take_bit_int_eq_self)
  have nanos: "unat (of_int (n mod 1000000000) :: u32) = nat (n mod 1000000000)"
  proof -
    have "n mod 1000000000 < 2 ^ 32" "0 \<le> n mod 1000000000"
      by (simp_all add: order.strict_trans [OF pos_mod_bound [of 1000000000 n]])
    then show ?thesis by (simp add: unat_eq_nat_uint unsigned_of_int take_bit_int_eq_self)
  qed
  have "nat (n mod 1000000000) < 1000000000" by (simp add: nat_less_iff)
  with assms(2) sys have t: "t = n" and ok: "secs_ok (n div 1000000000)"
    by (auto simp: cv_now_def Let_def secs nanos spec simp flip: n_def split: if_splits)
  show "0 \<le> t" "1000 dvd t" "t < 2 ^ 64 * 1000" "secs_ok (t div 1000000000)"
    using t ok n assms(3) by simp_all
qed

text \<open>
  C39. Parsing accepts what printing writes: a version whose timestamp is a whole, non-negative
  number of microseconds (at most 64 bits of them, in the range of chrono) is read back unchanged
  from its database format.
\<close>

theorem version_string_roundtrip:
  assumes "chrono c secs_ok" "0 \<le> timestamp v" "1000 dvd timestamp v"
    "timestamp v < 2 ^ 64 * 1000" "secs_ok (timestamp v div 1000000000)"
  shows "from_str c (version_string c v) = Ok v"
  using assms by (rule chrono.from_str_version_string)

theorem version_string_roundtrip_witness:
  "from_str chrono_doc (version_string chrono_doc \<lparr>version_nr = 7, timestamp = 1700000000000123000\<rparr>)
     = Ok \<lparr>version_nr = 7, timestamp = 1700000000000123000\<rparr>"
  by (rule version_string_roundtrip [OF chrono_doc.chrono_axioms])
     (simp_all add: chrono_secs_ok_def)

text \<open>
  \<^verbatim>\<open>increment\<close> never yields the reserved version number 0, is strictly larger than its
  predecessor except after the largest 64-bit number, where it restarts at 1, and the version it
  creates survives the database format.
\<close>

theorem increment_correct:
  assumes "chrono c secs_ok" "sys < 2 ^ 64 * 1000" "increment c sys v = Some w"
  shows "version_nr w \<noteq> 0
    \<and> version_nr w = (if version_nr v = - 1 then 1 else version_nr v + 1)
    \<and> (version_nr v \<noteq> - 1 \<longrightarrow> version_nr v < version_nr w)
    \<and> from_str c (version_string c w) = Ok w"
proof -
  from assms(3) obtain t where t: "cv_now c sys = Some t"
    and w: "w = \<lparr>version_nr = next_nr (version_nr v), timestamp = t\<rparr>"
    by (auto simp: increment_def)
  have "from_str c (version_string c w) = Ok w"
    using cv_now_aligned [OF assms(1) t assms(2)]
    by (intro chrono.from_str_version_string [OF assms(1)]) (simp_all add: w)
  then show ?thesis
    by (simp add: w next_nr_nonzero next_nr_less) (simp add: next_nr_eq)
qed

theorem increment_correct_witness:
  "\<exists>w. increment chrono_doc 1700000000000123456 \<lparr>version_nr = - 1, timestamp = 0\<rparr> = Some w
     \<and> version_nr w = 1 \<and> from_str chrono_doc (version_string chrono_doc w) = Ok w"
proof -
  let ?v = "\<lparr>version_nr = - 1, timestamp = 0\<rparr>"
  let ?w = "\<lparr>version_nr = 1, timestamp = 1700000000000123000\<rparr>"
  have e: "increment chrono_doc 1700000000000123456 ?v = Some ?w"
    by (simp add: increment_def cv_now_def next_nr_def chrono_doc_def chrono_secs_ok_def)
  show ?thesis
    using e increment_correct [OF chrono_doc.chrono_axioms _ e] by simp
qed

text \<open>
  Every accepted string has a normal form: the parsed version prints to a string that parses
  to the same version again.
\<close>

theorem from_str_normal_form:
  assumes "chrono c secs_ok" "from_str c s = Ok v"
  shows "from_str c (version_string c v) = Ok v"
proof -
  from chrono.from_str_timestamp [OF assms] obtain m where
    "m < 2 ^ 64" "timestamp v = int m * 1000" "secs_ok (int (m div 1000000))" by blast
  moreover have "int m * 1000 div 1000000000 = int (m div 1000000)"
    by (simp add: zdiv_int zdiv_zmult2_eq [of 1000 "int m * 1000" 1000000, simplified])
  ultimately show ?thesis
    by (intro chrono.from_str_version_string [OF assms(1)]) simp_all
qed

theorem from_str_normal_form_witness:
  "from_str chrono_doc ''V+7-T0005'' = Ok \<lparr>version_nr = 7, timestamp = 5000\<rparr>
   \<and> from_str chrono_doc (version_string chrono_doc \<lparr>version_nr = 7, timestamp = 5000\<rparr>)
     = Ok \<lparr>version_nr = 7, timestamp = 5000\<rparr>"
proof -
  have e: "from_str chrono_doc ''V+7-T0005''
      = Ok \<lparr>version_nr = 7, timestamp = 5000\<rparr>"
  proof -
    have "trim ''V+7-T0005'' = ''V+7-T0005''" by (rule trim_graphic) (simp add: graphic_def)
    then show ?thesis
      by (simp add: from_str_def parse_u64_def parse_nat_below_def digit_val_def chrono_doc_def
          chrono_secs_ok_def)
  qed
  show ?thesis using e from_str_normal_form [OF chrono_doc.chrono_axioms e] by simp
qed

text \<open>
  \<^verbatim>\<open>incremental_change\<close> takes the clock at nanosecond precision: whenever the clock is not at
  a whole microsecond, the version it creates is not the one read back from the database.
\<close>

theorem incremental_change_not_stable:
  assumes "chrono c secs_ok" "incremental_change utc_now v = Some ch" "\<not> 1000 dvd utc_now"
  shows "from_str c (version_string c (new_version ch)) \<noteq> Ok (new_version ch)"
proof
  assume "from_str c (version_string c (new_version ch)) = Ok (new_version ch)"
  from chrono.from_str_timestamp [OF assms(1) this] have "1000 dvd timestamp (new_version ch)"
    by auto
  with assms(2,3) show False by (auto simp: incremental_change_def split: if_splits)
qed

theorem incremental_change_not_stable_witness:
  "from_str chrono_doc (version_string chrono_doc \<lparr>version_nr = 2, timestamp = 1700000000000123456\<rparr>)
     \<noteq> Ok \<lparr>version_nr = 2, timestamp = 1700000000000123456\<rparr>"
  using incremental_change_not_stable
    [OF chrono_doc.chrono_axioms, of 1700000000000123456 "\<lparr>version_nr = 1, timestamp = 0\<rparr>"]
  by (simp add: incremental_change_def)

lemma version_key_inject: "version_key v = version_key w \<longleftrightarrow> v = w"
  by (auto simp: version_key_def intro: config_version.equality)

lemma version_key_min: "version_key (min_by_timestamp v w) = min (version_key v) (version_key w)"
  by (auto simp: min_by_timestamp_def version_key_def min_def less_eq_prod_def)

text \<open>
  \<^verbatim>\<open>min_by_timestamp\<close> chooses the older of two versions, and between equally old ones the
  one with the smaller number: it is the minimum of the lexicographic order, so the order in which
  several versions are combined does not matter.
\<close>

theorem min_by_timestamp_min:
  "version_key (min_by_timestamp v w) = min (version_key v) (version_key w)
   \<and> (min_by_timestamp v w = v \<or> min_by_timestamp v w = w)
   \<and> min_by_timestamp v w = min_by_timestamp w v
   \<and> min_by_timestamp (min_by_timestamp u v) w = min_by_timestamp u (min_by_timestamp v w)"
proof -
  have "min_by_timestamp v w = v \<or> min_by_timestamp v w = w"
    by (simp add: min_by_timestamp_def)
  moreover have "min_by_timestamp v w = min_by_timestamp w v"
    by (simp add: version_key_inject [symmetric] version_key_min min.commute)
  moreover have "min_by_timestamp (min_by_timestamp u v) w = min_by_timestamp u (min_by_timestamp v w)"
    by (simp add: version_key_inject [symmetric] version_key_min min.assoc)
  ultimately show ?thesis using version_key_min [of v w] by blast
qed

end
