(* ===== verification/Rust_Net.thy ===== *)
theory Rust_Net
  imports Rust_Strings
begin

section \<open>Integers in a radix and IP addresses as text\<close>

text \<open>
  What the components use of \<^verbatim>\<open>i64::from_str_radix\<close> and of the text forms of
  \<^verbatim>\<open>std::net::Ipv4Addr\<close> and \<^verbatim>\<open>std::net::Ipv6Addr\<close>: the parsers of the standard library, which
  read at most three decimal digits per octet without leading zeros, at most four hexadecimal
  digits per group, one \<^verbatim>\<open>::\<close> that stands for at least one group and an embedded IPv4 address
  at the end, and \<^verbatim>\<open>Display\<close>, which compresses the first longest run of at least two zero
  groups.
\<close>

subsection \<open>Integers in a radix\<close>

definition to_digit :: "nat \<Rightarrow> char \<Rightarrow> nat option" where
  "to_digit radix c =
     (let n = (of_char c :: nat);
          d = (if 48 \<le> n \<and> n \<le> 57 then Some (n - 48)
               else if 97 \<le> n \<and> n \<le> 122 then Some (n - 87)
               else if 65 \<le> n \<and> n \<le> 90 then Some (n - 55)
               else None)
      in case d of Some v \<Rightarrow> if v < radix then Some v else None | None \<Rightarrow> None)"

datatype int_error_kind = EmptyInt | InvalidDigit | PosOverflow | NegOverflow

fun int_error_text :: "int_error_kind \<Rightarrow> string" where
  "int_error_text EmptyInt = ''cannot parse integer from empty string''"
| "int_error_text InvalidDigit = ''invalid digit found in string''"
| "int_error_text PosOverflow = ''number too large to fit in target type''"
| "int_error_text NegOverflow = ''number too small to fit in target type''"

fun radix_digits :: "nat \<Rightarrow> nat \<Rightarrow> int_error_kind \<Rightarrow> nat \<Rightarrow> string \<Rightarrow> (int_error_kind, nat) result" where
  "radix_digits radix limit over acc [] = Ok acc"
| "radix_digits radix limit over acc (c # cs) =
     (case to_digit radix c of
        None \<Rightarrow> Err InvalidDigit
      | Some d \<Rightarrow> if limit < acc * radix + d then Err over else radix_digits radix limit over (acc * radix + d) cs)"

definition i64_from_str_radix :: "string \<Rightarrow> nat \<Rightarrow> (int_error_kind, int) result" where
  "i64_from_str_radix s radix =
     (if s = [] then Err EmptyInt
      else if s = ''+'' \<or> s = ''-'' then Err InvalidDigit
      else if hd s = CHR ''-'' then and_then (radix_digits radix (2 ^ 63) NegOverflow 0 (tl s)) (\<lambda>n. Ok (- int n))
      else and_then (radix_digits radix (2 ^ 63 - 1) PosOverflow 0 (if hd s = CHR ''+'' then tl s else s)) (\<lambda>n. Ok (int n)))"

text \<open>\<^verbatim>\<open>str::to_lowercase\<close> on the ASCII letters; no other letter has a lower case form that is one.\<close>

definition lower_char :: "char \<Rightarrow> char" where
  "lower_char c = (let n = (of_char c :: nat) in if 65 \<le> n \<and> n \<le> 90 then char_of (n + 32) else c)"

definition to_lowercase :: "string \<Rightarrow> string" where
  "to_lowercase s = map lower_char s"

subsection \<open>IPv4 addresses\<close>

definition ipv4_octets :: "u32 \<Rightarrow> nat list" where
  "ipv4_octets a = map (\<lambda>k. unat a div 2 ^ k mod 256) [24, 16, 8, 0]"

definition ipv4_text :: "u32 \<Rightarrow> string" where
  "ipv4_text a = join ''.'' (map show_nat (ipv4_octets a))"

definition is_radix_digit :: "nat \<Rightarrow> char \<Rightarrow> bool" where
  "is_radix_digit radix c \<longleftrightarrow> to_digit radix c \<noteq> None"

definition read_number :: "nat \<Rightarrow> nat \<Rightarrow> bool \<Rightarrow> nat \<Rightarrow> string \<Rightarrow> (nat \<times> string) option" where
  "read_number radix max_digits allow_zero_prefix bound s =
     (let ds = takeWhile (is_radix_digit radix) s;
          v = foldl (\<lambda>acc c. acc * radix + the (to_digit radix c)) 0 ds
      in if length ds > max_digits \<or> ds = [] \<or> \<not> allow_zero_prefix \<and> hd ds = CHR ''0'' \<and> length ds > 1 \<or> bound \<le> v
         then None else Some (v, dropWhile (is_radix_digit radix) s))"

definition read_given_char :: "char \<Rightarrow> string \<Rightarrow> string option" where
  "read_given_char c s = (case s of [] \<Rightarrow> None | x # xs \<Rightarrow> if x = c then Some xs else None)"

definition read_octet :: "bool \<Rightarrow> string \<Rightarrow> (nat \<times> string) option" where
  "read_octet first s =
     (case (if first then Some s else read_given_char (CHR ''.'') s) of
        None \<Rightarrow> None
      | Some r \<Rightarrow> read_number 10 3 False 256 r)"

definition read_ipv4_addr :: "string \<Rightarrow> (u32 \<times> string) option" where
  "read_ipv4_addr s =
     Option.bind (read_octet True s) (\<lambda>(a, s1).
     Option.bind (read_octet False s1) (\<lambda>(b, s2).
     Option.bind (read_octet False s2) (\<lambda>(c, s3).
     Option.bind (read_octet False s3) (\<lambda>(d, s4).
       Some (of_nat (((a * 256 + b) * 256 + c) * 256 + d), s4)))))"

definition parse_ipv4 :: "string \<Rightarrow> u32 option" where
  "parse_ipv4 s =
     (if length s > 15 then None
      else case read_ipv4_addr s of Some (a, []) \<Rightarrow> Some a | _ \<Rightarrow> None)"

subsection \<open>IPv6 addresses\<close>

definition ipv6_segments :: "128 word \<Rightarrow> nat list" where
  "ipv6_segments a = map (\<lambda>k. unat a div 2 ^ k mod 65536) [112, 96, 80, 64, 48, 32, 16, 0]"

fun show_hex :: "nat \<Rightarrow> string" where
  "show_hex n =
     (let c = (\<lambda>d. if d < 10 then digit_char d else char_of (87 + d))
      in if n < 16 then [c n] else show_hex (n div 16) @ [c (n mod 16)])"

declare show_hex.simps [simp del]

text \<open>The first longest run of zero groups, as (start, length).\<close>

fun zero_run :: "nat \<Rightarrow> nat list \<Rightarrow> nat \<times> nat \<Rightarrow> nat \<times> nat \<Rightarrow> nat \<times> nat" where
  "zero_run i [] current longest = longest"
| "zero_run i (x # xs) current longest =
     (if x = 0 then
        (let c = (if snd current = 0 then (i, 1) else (fst current, snd current + 1))
         in zero_run (Suc i) xs c (if snd c > snd longest then c else longest))
      else zero_run (Suc i) xs (0, 0) longest)"

definition ipv6_text :: "128 word \<Rightarrow> string" where
  "ipv6_text a =
     (let segs = ipv6_segments a;
          fmt = (\<lambda>chunk. join '':'' (map show_hex chunk));
          (start, len) = zero_run 0 segs (0, 0) (0, 0)
      in if take 6 segs = [0, 0, 0, 0, 0, 65535] then ''::ffff:'' @ ipv4_text (of_nat (unat a mod 2 ^ 32))
         else if len > 1 then fmt (take start segs) @ ''::'' @ fmt (drop (start + len) segs)
         else fmt segs)"

text \<open>
  \<open>read_groups i limit s\<close> reads groups from number \<open>i\<close> on while there are fewer than \<open>limit\<close>;
  the flag says that it ended with an embedded IPv4 address.
\<close>

definition read_group_sep :: "nat \<Rightarrow> string \<Rightarrow> string option" where
  "read_group_sep i s = (if i = 0 then Some s else read_given_char (CHR '':'') s)"

function read_groups :: "nat \<Rightarrow> nat \<Rightarrow> string \<Rightarrow> nat list \<times> bool \<times> string" where
  "read_groups i limit s =
     (if limit \<le> i then ([], False, s)
      else case (if i + 1 < limit then (case read_group_sep i s of None \<Rightarrow> None | Some r \<Rightarrow> read_ipv4_addr r) else None) of
             Some (v4, rest) \<Rightarrow> ([unat v4 div 65536, unat v4 mod 65536], True, rest)
           | None \<Rightarrow>
               (case (case read_group_sep i s of None \<Rightarrow> None | Some r \<Rightarrow> read_number 16 4 True 65536 r) of
                  None \<Rightarrow> ([], False, s)
                | Some (g, rest) \<Rightarrow> (let (gs, v4, r) = read_groups (Suc i) limit rest in (g # gs, v4, r))))"
  by pat_completeness auto
termination
  by (relation "measure (\<lambda>(i, limit, _). limit - i)") auto

declare read_groups.simps [simp del]

definition segments_value :: "nat list \<Rightarrow> 128 word" where
  "segments_value segs = of_nat (foldl (\<lambda>acc g. acc * 65536 + g) 0 segs)"

definition parse_ipv6 :: "string \<Rightarrow> 128 word option" where
  "parse_ipv6 s =
     (let (head, head_ipv4, r) = read_groups 0 8 s
      in if length head = 8 then (if r = [] then Some (segments_value head) else None)
         else if head_ipv4 then None
         else case r of
                c1 # c2 # r' \<Rightarrow>
                  if c1 = CHR '':'' \<and> c2 = CHR '':'' then
                    (let (tail, _, r'') = read_groups 0 (8 - (length head + 1)) r'
                     in if r'' = [] then
                          Some (segments_value (head @ replicate (8 - length head - length tail) 0 @ tail))
                        else None)
                  else None
              | _ \<Rightarrow> None)"

lemma to_digit_decimal: "to_digit 10 c = digit_val c"
  by (auto simp: to_digit_def digit_val_def Let_def)

lemma is_radix_digit_decimal: "is_radix_digit 10 c \<longleftrightarrow> is_digit c"
  by (simp add: is_radix_digit_def to_digit_decimal digit_val_def is_digit_def Let_def)

lemma digits_val_mono: "digits_val acc s = Some n \<Longrightarrow> acc \<le> n"
proof (induction s arbitrary: acc)
  case (Cons c cs)
  then obtain d where "digits_val (10 * acc + d) cs = Some n" by (auto split: option.splits)
  from Cons.IH [OF this] show ?case by simp
qed simp

lemma radix_digits_decimal:
  "digits_val acc s = Some n \<Longrightarrow> n \<le> limit \<Longrightarrow> radix_digits 10 limit over acc s = Ok n"
proof (induction s arbitrary: acc)
  case (Cons c cs)
  then obtain d where d: "digit_val c = Some d" "digits_val (10 * acc + d) cs = Some n" by (auto split: option.splits)
  with digits_val_mono [OF d(2)] Cons show ?case by (simp add: to_digit_decimal mult.commute)
qed simp

lemma radix_digits_limit: "radix_digits radix limit over acc s = Ok n \<Longrightarrow> acc \<le> limit \<Longrightarrow> n \<le> limit"
  by (induction s arbitrary: acc) (auto split: option.splits if_splits)

lemma i64_from_str_radix_range: "i64_from_str_radix s radix = Ok i \<Longrightarrow> - (2 ^ 63) \<le> i \<and> i < 2 ^ 63"
  by (auto simp: i64_from_str_radix_def and_then_Inr_iff split: if_splits dest!: radix_digits_limit)

lemma i64_from_str_show_int:
  assumes "- (2 ^ 63) \<le> i" "i < 2 ^ 63"
  shows "i64_from_str_radix (show_int i) 10 = Ok i"
proof (cases "i < 0")
  case True
  then have "radix_digits 10 (2 ^ 63) NegOverflow 0 (show_nat (nat (- i))) = Ok (nat (- i))"
    using assms by (intro radix_digits_decimal digits_val_show_nat) simp
  with True show ?thesis by (simp add: i64_from_str_radix_def show_int_def)
next
  case False
  then have "radix_digits 10 (2 ^ 63 - 1) PosOverflow 0 (show_nat (nat i)) = Ok (nat i)"
    using assms by (intro radix_digits_decimal digits_val_show_nat) simp
  moreover obtain c cs where s: "show_nat (nat i) = c # cs" by (cases "show_nat (nat i)") auto
  moreover have "is_digit c" using show_nat_digits [of "nat i"] s by simp
  then have "c \<noteq> CHR ''+'' \<and> c \<noteq> CHR ''-''" by auto
  ultimately show ?thesis using False by (auto simp: i64_from_str_radix_def show_int_def)
qed

lemma foldl_digits_val:
  "(\<And>c. c \<in> set s \<Longrightarrow> is_digit c) \<Longrightarrow>
    digits_val acc s = Some (foldl (\<lambda>acc c. acc * 10 + the (to_digit 10 c)) acc s)"
  by (induction s arbitrary: acc)
    (auto simp: to_digit_decimal is_digit_def digit_val_def Let_def mult.commute)

lemma show_nat_length: "n < 1000 \<Longrightarrow> length (show_nat n) \<le> 3"
  by (subst show_nat.simps, auto, subst show_nat.simps, auto, subst show_nat.simps, auto)

lemma show_nat_hd: "n \<noteq> 0 \<Longrightarrow> hd (show_nat n) \<noteq> CHR ''0''"
proof (induction n rule: show_nat.induct)
  case (1 n)
  have digit: "digit_char d \<noteq> CHR ''0''" if "d < 10" "d \<noteq> 0" for d
  proof
    assume "digit_char d = CHR ''0''"
    then have "of_char (digit_char d) = (of_char (CHR ''0'') :: nat)" by simp
    with that show False by (simp add: of_char_digit_char)
  qed
  show ?case
  proof (cases "n < 10")
    case True
    with 1 digit show ?thesis by (simp add: show_nat.simps [of n])
  next
    case False
    with 1 show ?thesis by (simp add: show_nat.simps [of n] hd_append)
  qed
qed

lemma read_number_show_nat:
  assumes "n < 256" "\<And>c cs. rest = c # cs \<Longrightarrow> \<not> is_digit c"
  shows "read_number 10 3 False 256 (show_nat n @ rest) = Some (n, rest)"
proof -
  have d: "\<And>c. c \<in> set (show_nat n) \<Longrightarrow> is_digit c" using show_nat_digits [of n] by simp
  have eq: "is_radix_digit 10 = is_digit" by (simp add: is_radix_digit_decimal fun_eq_iff)
  have tw: "takeWhile is_digit (show_nat n @ rest) = show_nat n" "dropWhile is_digit (show_nat n @ rest) = rest"
    using d assms(2) by (cases rest; simp add: takeWhile_append dropWhile_append)+
  have v: "foldl (\<lambda>acc c. acc * 10 + the (to_digit 10 c)) 0 (show_nat n) = n"
    using foldl_digits_val [of "show_nat n" 0] d digits_val_show_nat [of n] by simp
  have z: "hd (show_nat n) = CHR ''0'' \<Longrightarrow> length (show_nat n) = 1"
    using show_nat_hd [of n] by (cases "n = 0") (auto simp: show_nat.simps [of 0])
  show ?thesis
    using assms(1) show_nat_length [of n] z unfolding read_number_def eq tw Let_def v by auto
qed

lemma not_is_digit_dot [simp]: "\<not> is_digit (CHR ''.'')"
  by (simp add: is_digit_def)

lemma read_octet_show_nat:
  assumes "n < 256"
  shows "read_number 10 3 False 256 (show_nat n @ CHR ''.'' # cs) = Some (n, CHR ''.'' # cs)"
    "read_number 10 3 False 256 (show_nat n) = Some (n, [])"
  using read_number_show_nat [OF assms, of "CHR ''.'' # cs"] read_number_show_nat [OF assms, of "[]"] by auto

lemma base_256: "(n :: nat) = (n div 256) * 256 + n mod 256"
  by simp

lemma ipv4_octets_value:
  "unat (a :: u32) = ((unat a div 2 ^ 24 mod 256 * 256 + unat a div 2 ^ 16 mod 256) * 256 + unat a div 2 ^ 8 mod 256) * 256 + unat a mod 256"
proof -
  let ?n = "unat a"
  have "?n < 2 ^ 32" using unsigned_less [of a] by simp
  then have "?n div 2 ^ 24 < 256" by (simp add: less_mult_imp_div_less)
  then have "?n div 2 ^ 24 mod 256 = ?n div 2 ^ 24" by simp
  moreover have "?n div 2 ^ 16 = ?n div 2 ^ 24 * 256 + ?n div 2 ^ 16 mod 256"
    using base_256 [of "?n div 2 ^ 16"] by (simp flip: div_mult2_eq)
  moreover have "?n div 2 ^ 8 = ?n div 2 ^ 16 * 256 + ?n div 2 ^ 8 mod 256"
    using base_256 [of "?n div 2 ^ 8"] by (simp flip: div_mult2_eq)
  moreover have "?n = ?n div 2 ^ 8 * 256 + ?n mod 256"
    using base_256 [of ?n] by simp
  ultimately show ?thesis by metis
qed

lemma parse_ipv4_text [simp]: "parse_ipv4 (ipv4_text a) = Some a"
proof -
  define o1 where o1: "o1 = unat a div 2 ^ 24 mod 256"
  define o2 where o2: "o2 = unat a div 2 ^ 16 mod 256"
  define o3 where o3: "o3 = unat a div 2 ^ 8 mod 256"
  define o4 where o4: "o4 = unat a mod 256"
  note oct = o1 o2 o3 o4
  have form: "ipv4_text a = show_nat o1 @ ''.'' @ show_nat o2 @ ''.'' @ show_nat o3 @ ''.'' @ show_nat o4"
    by (simp add: ipv4_text_def ipv4_octets_def oct)
  have lt: "o1 < 256" "o2 < 256" "o3 < 256" "o4 < 256" by (simp_all add: oct)
  have len: "length (ipv4_text a) \<le> 15"
    using show_nat_length [of o1] show_nat_length [of o2] show_nat_length [of o3] show_nat_length [of o4] lt
    by (simp add: form)
  have "read_ipv4_addr (ipv4_text a) = Some (of_nat (((o1 * 256 + o2) * 256 + o3) * 256 + o4), [])"
    using lt by (simp add: form read_ipv4_addr_def read_octet_def read_given_char_def read_octet_show_nat
      del: of_nat_add of_nat_mult) 
  moreover have "((o1 * 256 + o2) * 256 + o3) * 256 + o4 = unat a"
    unfolding oct by (rule ipv4_octets_value [symmetric])
  moreover have "word_of_nat (unat a) = a" by simp
  ultimately have r: "read_ipv4_addr (ipv4_text a) = Some (a, [])" by metis
  show ?thesis using len by (simp add: parse_ipv4_def r)
qed

end
