(* ===== verification/Device_Ids.thy ===== *)
theory Device_Ids
  imports Rust_Net
begin

section \<open>Identifiers of machines, switches, power shelves and racks\<close>

text \<open>
  The identifiers of \<^verbatim>\<open>uuid/src/machine\<close>, \<^verbatim>\<open>switch\<close>, \<^verbatim>\<open>power_shelf\<close>, \<^verbatim>\<open>device\<close> and \<^verbatim>\<open>rack\<close>: their
  text form and its parser.  A hardware identifier is a prefix, a character for the type, one for
  the source, and the base 32 form of a hash of 32 bytes.

  The base 32 encoding is that of the \<^verbatim>\<open>data_encoding\<close> crate and the hash that of \<^verbatim>\<open>sha2\<close>: both
  are parameters.  The locale \<open>base32\<close> has what is documented of \<^verbatim>\<open>BASE32_DNSSEC\<close>.  A parser
  returns \<open>None\<close> where the code panics.
\<close>

subsection \<open>Base 32\<close>

record base32_ops =
  b32_encode :: "u8 list \<Rightarrow> string"
  b32_decode :: "string \<Rightarrow> u8 list option"

subsection \<open>Hardware identifiers\<close>

datatype id_source = Tpm | ProductBoardChassisSerial

fun source_id_char :: "id_source \<Rightarrow> char" where
  "source_id_char Tpm = CHR ''t''"
| "source_id_char ProductBoardChassisSerial = CHR ''s''"

definition source_from_id_char :: "char \<Rightarrow> id_source option" where
  "source_from_id_char c =
     (if c = source_id_char Tpm then Some Tpm
      else if c = source_id_char ProductBoardChassisSerial then Some ProductBoardChassisSerial
      else None)"

datatype machine_type = Dpu | Host | PredictedHost

fun machine_type_id_char :: "machine_type \<Rightarrow> char" where
  "machine_type_id_char Dpu = CHR ''d''"
| "machine_type_id_char Host = CHR ''h''"
| "machine_type_id_char PredictedHost = CHR ''p''"

definition machine_type_from_id_char :: "char \<Rightarrow> machine_type option" where
  "machine_type_from_id_char c =
     (if c = machine_type_id_char Dpu then Some Dpu
      else if c = machine_type_id_char Host then Some Host
      else if c = machine_type_id_char PredictedHost then Some PredictedHost
      else None)"

fun machine_type_id_prefix :: "machine_type \<Rightarrow> string" where
  "machine_type_id_prefix Dpu = ''fm100d''"
| "machine_type_id_prefix Host = ''fm100h''"
| "machine_type_id_prefix PredictedHost = ''fm100p''"

fun machine_type_metrics_value :: "machine_type \<Rightarrow> string" where
  "machine_type_metrics_value Dpu = ''dpu''"
| "machine_type_metrics_value Host = ''host''"
| "machine_type_metrics_value PredictedHost = ''predictedhost''"

datatype switch_type = NvLink

fun switch_type_id_char :: "switch_type \<Rightarrow> char" where
  "switch_type_id_char NvLink = CHR ''n''"

definition switch_type_from_id_char :: "char \<Rightarrow> switch_type option" where
  "switch_type_from_id_char c = (if c = switch_type_id_char NvLink then Some NvLink else None)"

datatype power_shelf_type = ShelfRack | ShelfHost

fun power_shelf_type_id_char :: "power_shelf_type \<Rightarrow> char" where
  "power_shelf_type_id_char ShelfRack = CHR ''r''"
| "power_shelf_type_id_char ShelfHost = CHR ''h''"

definition power_shelf_type_from_id_char :: "char \<Rightarrow> power_shelf_type option" where
  "power_shelf_type_from_id_char c =
     (if c = power_shelf_type_id_char ShelfRack then Some ShelfRack
      else if c = power_shelf_type_id_char ShelfHost then Some ShelfHost
      else None)"

text \<open>\<^verbatim>\<open>MachineId\<close>, \<^verbatim>\<open>SwitchId\<close> and \<^verbatim>\<open>PowerShelfId\<close> have the same fields; they differ in the type.\<close>

record 'ty hw_id =
  id_src :: id_source
  hardware_id :: string
  id_type :: 'ty

type_synonym machine_id = "machine_type hw_id"
type_synonym switch_id = "switch_type hw_id"
type_synonym power_shelf_id = "power_shelf_type hw_id"

definition PREFIX_LENGTH :: nat where
  "PREFIX_LENGTH = 7"

definition HARDWARE_ID_BASE32_LENGTH :: nat where
  "HARDWARE_ID_BASE32_LENGTH = 52"

definition ID_LENGTH :: nat where
  "ID_LENGTH = PREFIX_LENGTH + HARDWARE_ID_BASE32_LENGTH"

definition hw_new :: "base32_ops \<Rightarrow> id_source \<Rightarrow> u8 list \<Rightarrow> 'ty \<Rightarrow> 'ty hw_id option" where
  "hw_new b32 src hardware_hash ty =
     (let encoded = b32_encode b32 hardware_hash
      in if length encoded \<noteq> HARDWARE_ID_BASE32_LENGTH then None
         else Some \<lparr>id_src = src, hardware_id = encoded, id_type = ty\<rparr>)"

definition hw_show :: "string \<Rightarrow> ('ty \<Rightarrow> char) \<Rightarrow> 'ty hw_id \<Rightarrow> string" where
  "hw_show prefix ty_char x = prefix @ [ty_char (id_type x), source_id_char (id_src x)] @ hardware_id x"

datatype id_parse_error = IdLength nat | IdPrefix string | IdEncoding string

definition hw_from_str ::
  "base32_ops \<Rightarrow> string \<Rightarrow> (char \<Rightarrow> 'ty option) \<Rightarrow> string \<Rightarrow> (id_parse_error, 'ty hw_id) result option" where
  "hw_from_str b32 prefix ty_from_char s =
     (if length s \<noteq> ID_LENGTH then Some (Err (IdLength (length s)))
      else if \<not> starts_with s prefix then Some (Err (IdPrefix s))
      else case b32_decode b32 (drop PREFIX_LENGTH s) of
             None \<Rightarrow> Some (Err (IdEncoding s))
           | Some hardware_hash \<Rightarrow>
               if length hardware_hash \<noteq> 32 then Some (Err (IdEncoding s))
               else case ty_from_char (s ! 5) of
                      None \<Rightarrow> Some (Err (IdPrefix s))
                    | Some ty \<Rightarrow>
                        (case source_from_id_char (s ! 6) of
                           None \<Rightarrow> Some (Err (IdPrefix s))
                         | Some src \<Rightarrow> map_option Ok (hw_new b32 src hardware_hash ty)))"

definition MACHINE_ID_PREFIX :: string where "MACHINE_ID_PREFIX = ''fm100''"

definition SWITCH_ID_PREFIX :: string where "SWITCH_ID_PREFIX = ''sw100''"

definition POWER_SHELF_ID_PREFIX :: string where "POWER_SHELF_ID_PREFIX = ''ps100''"

definition machine_id_show :: "machine_id \<Rightarrow> string" where
  "machine_id_show = hw_show MACHINE_ID_PREFIX machine_type_id_char"

definition machine_id_from_str :: "base32_ops \<Rightarrow> string \<Rightarrow> (id_parse_error, machine_id) result option" where
  "machine_id_from_str b32 = hw_from_str b32 MACHINE_ID_PREFIX machine_type_from_id_char"

definition switch_id_show :: "switch_id \<Rightarrow> string" where
  "switch_id_show = hw_show SWITCH_ID_PREFIX switch_type_id_char"

definition switch_id_from_str :: "base32_ops \<Rightarrow> string \<Rightarrow> (id_parse_error, switch_id) result option" where
  "switch_id_from_str b32 = hw_from_str b32 SWITCH_ID_PREFIX switch_type_from_id_char"

definition power_shelf_id_show :: "power_shelf_id \<Rightarrow> string" where
  "power_shelf_id_show = hw_show POWER_SHELF_ID_PREFIX power_shelf_type_id_char"

definition power_shelf_id_from_str :: "base32_ops \<Rightarrow> string \<Rightarrow> (id_parse_error, power_shelf_id) result option" where
  "power_shelf_id_from_str b32 = hw_from_str b32 POWER_SHELF_ID_PREFIX power_shelf_type_from_id_char"

text \<open>\<^verbatim>\<open>remote_id\<close> with the hash function as a parameter, and \<^verbatim>\<open>MachineType::from_id_string\<close>.\<close>

definition remote_id :: "base32_ops \<Rightarrow> (string \<Rightarrow> u8 list) \<Rightarrow> machine_id \<Rightarrow> string" where
  "remote_id b32 sha256 x = b32_encode b32 (sha256 (machine_id_show x))"

definition machine_type_from_id_string :: "base32_ops \<Rightarrow> string \<Rightarrow> machine_type option option" where
  "machine_type_from_id_string b32 s =
     map_option (\<lambda>r. case r of Inl _ \<Rightarrow> None | Inr x \<Rightarrow> Some (id_type x)) (machine_id_from_str b32 s)"

subsection \<open>Device identifiers\<close>

datatype device_id = DevMachine machine_id | DevSwitch switch_id | DevPowerShelf power_shelf_id

datatype device_kind = KindMachine | KindSwitch | KindPowerShelf

fun device_id_kind :: "device_id \<Rightarrow> device_kind" where
  "device_id_kind (DevMachine _) = KindMachine"
| "device_id_kind (DevSwitch _) = KindSwitch"
| "device_id_kind (DevPowerShelf _) = KindPowerShelf"

fun device_kind_text :: "device_kind \<Rightarrow> string" where
  "device_kind_text KindMachine = ''machine''"
| "device_kind_text KindSwitch = ''switch''"
| "device_kind_text KindPowerShelf = ''power-shelf''"

fun device_id_show :: "device_id \<Rightarrow> string" where
  "device_id_show (DevMachine x) = machine_id_show x"
| "device_id_show (DevSwitch x) = switch_id_show x"
| "device_id_show (DevPowerShelf x) = power_shelf_id_show x"

datatype device_id_parse_error =
    DevMachineError id_parse_error
  | DevSwitchError id_parse_error
  | DevPowerShelfError id_parse_error
  | UnknownId string

definition device_id_from_str :: "base32_ops \<Rightarrow> string \<Rightarrow> (device_id_parse_error, device_id) result option" where
  "device_id_from_str b32 s =
     (if starts_with s MACHINE_ID_PREFIX then map_option (map_sum DevMachineError DevMachine) (machine_id_from_str b32 s)
      else if starts_with s SWITCH_ID_PREFIX then map_option (map_sum DevSwitchError DevSwitch) (switch_id_from_str b32 s)
      else if starts_with s POWER_SHELF_ID_PREFIX then map_option (map_sum DevPowerShelfError DevPowerShelf) (power_shelf_id_from_str b32 s)
      else Some (Err (UnknownId s)))"

subsection \<open>Rack identifiers\<close>

datatype rack_id = RackId (rack_id_text: string)

definition rack_id_show :: "rack_id \<Rightarrow> string" where
  "rack_id_show r = rack_id_text r"

definition rack_id_from_str :: "string \<Rightarrow> rack_id option" where
  "rack_id_from_str s = (if s = [] then None else Some (RackId s))"

subsection \<open>What a well-formed identifier is\<close>

definition hw_ok :: "base32_ops \<Rightarrow> 'ty hw_id \<Rightarrow> bool" where
  "hw_ok b32 x \<longleftrightarrow>
     (case b32_decode b32 (hardware_id x) of
        None \<Rightarrow> False
      | Some h \<Rightarrow> length h = 32 \<and> b32_encode b32 h = hardware_id x)"

fun device_ok :: "base32_ops \<Rightarrow> device_id \<Rightarrow> bool" where
  "device_ok b32 (DevMachine x) = hw_ok b32 x"
| "device_ok b32 (DevSwitch x) = hw_ok b32 x"
| "device_ok b32 (DevPowerShelf x) = hw_ok b32 x"

definition rack_ok :: "rack_id \<Rightarrow> bool" where
  "rack_ok r \<longleftrightarrow> rack_id_text r \<noteq> []"

text \<open>What a queue needs of a parser: its successes, as an option.\<close>

definition parsed :: "('e, 'a) result option \<Rightarrow> 'a option" where
  "parsed r = (case r of Some (Inr x) \<Rightarrow> Some x | _ \<Rightarrow> None)"

subsection \<open>Base 32 as its documentation defines it\<close>

text \<open>
  The symbols \<^verbatim>\<open>0-9a-v\<close>, most significant bit first, no padding, both cases accepted when
  decoding, and trailing bits that must be zero.
\<close>

primrec to_digits :: "nat \<Rightarrow> nat \<Rightarrow> nat \<Rightarrow> nat list" where
  "to_digits b 0 v = []"
| "to_digits b (Suc n) v = to_digits b n (v div b) @ [v mod b]"

definition of_digits :: "nat \<Rightarrow> nat list \<Rightarrow> nat" where
  "of_digits b ds = foldl (\<lambda>a d. a * b + d) 0 ds"

definition symbol :: "nat \<Rightarrow> char" where
  "symbol d = char_of (if d < 10 then 48 + d else 87 + d)"

definition symbol_value :: "char \<Rightarrow> nat option" where
  "symbol_value c =
     (let n = (of_char (lower_char c) :: nat)
      in if 48 \<le> n \<and> n \<le> 57 then Some (n - 48) else if 97 \<le> n \<and> n \<le> 118 then Some (n - 87) else None)"

definition dnssec_encode :: "u8 list \<Rightarrow> string" where
  "dnssec_encode h =
     (let m = (8 * length h + 4) div 5
      in map symbol (to_digits 32 m (of_digits 256 (map unat h) * 2 ^ (5 * m - 8 * length h))))"

definition dnssec_decode :: "string \<Rightarrow> u8 list option" where
  "dnssec_decode s =
     Option.bind (those (map symbol_value s)) (\<lambda>ds.
       let n = 5 * length s div 8;
           pad = 5 * length s - 8 * n;
           v = of_digits 32 ds
       in if pad < 5 \<and> v mod 2 ^ pad = 0 then Some (map of_nat (to_digits 256 n (v div 2 ^ pad))) else None)"

definition base32_dnssec :: base32_ops where
  "base32_dnssec = \<lparr>b32_encode = dnssec_encode, b32_decode = dnssec_decode\<rparr>"

definition demo_machine :: machine_id where
  "demo_machine = \<lparr>id_src = Tpm, hardware_id = replicate 52 (CHR ''0''), id_type = Host\<rparr>"

lemma to_digits_length [simp]: "length (to_digits b n v) = n"
  by (induction n arbitrary: v) simp_all

lemma to_digits_bound: "0 < b \<Longrightarrow> d \<in> set (to_digits b n v) \<Longrightarrow> d < b"
  by (induction n arbitrary: v) auto

lemma of_digits_snoc: "of_digits b (ds @ [d]) = of_digits b ds * b + d"
  by (simp add: of_digits_def)

lemma of_to_digits: "of_digits b (to_digits b n v) = v mod b ^ n"
proof (induction n arbitrary: v)
  case (Suc n)
  have "v mod (b * b ^ n) = b * (v div b mod b ^ n) + v mod b" by (simp add: mod_mult2_eq)
  then show ?case by (simp add: of_digits_snoc Suc mult.commute)
qed (simp add: of_digits_def)

lemma of_digits_bound:
  assumes "\<forall>d\<in>set ds. d < b"
  shows "of_digits b ds < b ^ length ds"
  using assms
proof (induction ds rule: rev_induct)
  case (snoc d ds)
  then have "of_digits b ds + 1 \<le> b ^ length ds" by auto
  then have "(of_digits b ds + 1) * b \<le> b ^ length ds * b" by (rule mult_le_mono1)
  with snoc.prems show ?case by (simp add: of_digits_snoc mult.commute)
qed (simp add: of_digits_def)

lemma to_of_digits: "\<forall>d\<in>set ds. d < b \<Longrightarrow> to_digits b (length ds) (of_digits b ds) = ds"
  by (induction ds rule: rev_induct) (simp_all add: of_digits_snoc)

lemma symbol_value_symbol [simp]: "d < 32 \<Longrightarrow> symbol_value (symbol d) = Some d"
  by (auto simp: symbol_value_def symbol_def lower_char_def Let_def)

lemma symbol_of_value: "symbol_value c = Some d \<Longrightarrow> symbol d = lower_char c \<and> d < 32"
  by (auto simp: symbol_value_def symbol_def Let_def split: if_splits)

lemma those_symbols: "\<forall>d\<in>set ds. d < 32 \<Longrightarrow> those (map symbol_value (map symbol ds)) = Some ds"
  by (induction ds) simp_all

lemma those_symbol_values:
  "those (map symbol_value s) = Some ds \<Longrightarrow> map symbol ds = to_lowercase s \<and> (\<forall>d\<in>set ds. d < 32) \<and> length ds = length s"
  by (induction s arbitrary: ds) (auto simp: to_lowercase_def symbol_of_value split: option.splits)

lemma bytes_of_nat: "\<forall>d\<in>set ds. d < 256 \<Longrightarrow> map unat (map of_nat ds :: u8 list) = ds"
  by (induction ds) (simp_all add: unat_of_nat)

lemma unat_bytes: "\<forall>d\<in>set (map unat (h :: u8 list)). d < 256"
proof -
  have "unat b < 256" for b :: u8 using unsigned_less [of b] by simp
  then show ?thesis by auto
qed

lemma pad_eq:
  fixes n :: nat
  assumes "m = (8 * n + 4) div 5"
  shows "5 * m - 8 * n < 5" "5 * m div 8 = n" "8 * n \<le> 5 * m"
  using assms by presburger+

lemma bits_pow: "8 * n \<le> 5 * m \<Longrightarrow> (32 :: nat) ^ m = 256 ^ n * 2 ^ (5 * m - 8 * n)"
proof -
  assume le: "8 * n \<le> 5 * m"
  have "(32 :: nat) ^ m = 2 ^ (5 * m)" by (simp add: power_mult)
  also have "\<dots> = 2 ^ (8 * n) * 2 ^ (5 * m - 8 * n)" using le by (simp flip: power_add)
  also have "(2 :: nat) ^ (8 * n) = 256 ^ n" by (simp add: power_mult)
  finally show ?thesis .
qed

lemma dnssec_decode_encode: "dnssec_decode (dnssec_encode h) = Some h"
proof -
  define n where "n = length h"
  define m where "m = (8 * n + 4) div 5"
  define w where "w = of_digits 256 (map unat h)"
  note pad = pad_eq [OF m_def]
  have w: "w < 256 ^ n" unfolding w_def n_def using of_digits_bound [OF unat_bytes] by (metis length_map)
  have "w * 2 ^ (5 * m - 8 * n) < 32 ^ m" unfolding bits_pow [OF pad(3)] using w by simp
  then have v: "of_digits 32 (to_digits 32 m (w * 2 ^ (5 * m - 8 * n))) = w * 2 ^ (5 * m - 8 * n)" by (simp add: of_to_digits)
  have "those (map symbol_value (dnssec_encode h)) = Some (to_digits 32 m (w * 2 ^ (5 * m - 8 * n)))"
    unfolding dnssec_encode_def Let_def n_def [symmetric] m_def [symmetric] w_def [symmetric]
    by (rule those_symbols) (use to_digits_bound in auto)
  moreover have "length (dnssec_encode h) = m" by (simp add: dnssec_encode_def m_def n_def Let_def)
  moreover have "map of_nat (to_digits 256 n w) = h"
    unfolding w_def n_def using to_of_digits [OF unat_bytes, of h] by (simp add: comp_def)
  ultimately show ?thesis unfolding dnssec_decode_def Let_def using pad v by simp
qed

lemma dnssec_encode_decode:
  assumes "dnssec_decode s = Some h"
  shows "dnssec_encode h = to_lowercase s" "length h = 5 * length s div 8"
proof -
  define m where "m = length s"
  define n where "n = 5 * m div 8"
  define pad where "pad = 5 * m - 8 * n"
  from assms obtain ds where ds: "those (map symbol_value s) = Some ds" "pad < 5" "of_digits 32 ds mod 2 ^ pad = 0"
      "h = map of_nat (to_digits 256 n (of_digits 32 ds div 2 ^ pad))"
    by (auto simp: dnssec_decode_def Let_def m_def n_def pad_def split: if_splits simp: bind_eq_Some_conv)
  note sym = those_symbol_values [OF ds(1)]
  have le: "8 * n \<le> 5 * m" unfolding n_def by presburger
  have len: "length h = n" using ds(4) by simp
  have "of_digits 32 ds < 32 ^ m" using of_digits_bound sym unfolding m_def by metis
  then have "of_digits 32 ds < 256 ^ n * 2 ^ pad" unfolding bits_pow [OF le] pad_def .
  then have w: "of_digits 32 ds div 2 ^ pad < 256 ^ n" by (simp add: less_mult_imp_div_less)
  have "map unat h = to_digits 256 n (of_digits 32 ds div 2 ^ pad)"
    unfolding ds(4) by (rule bytes_of_nat) (use to_digits_bound in auto)
  then have v: "of_digits 256 (map unat h) = of_digits 32 ds div 2 ^ pad" using w by (simp add: of_to_digits)
  have "(8 * n + 4) div 5 = m" using ds(2) unfolding pad_def n_def by presburger
  moreover have "of_digits 32 ds div 2 ^ pad * 2 ^ pad = of_digits 32 ds" using ds(3) by auto
  moreover have "to_digits 32 m (of_digits 32 ds) = ds" using to_of_digits sym unfolding m_def by metis
  ultimately show "dnssec_encode h = to_lowercase s"
    unfolding dnssec_encode_def Let_def len v using sym by (simp add: pad_def)
  show "length h = 5 * length s div 8" using len by (simp add: n_def m_def)
qed

subsection \<open>The encoding as an interface\<close>

locale base32 =
  fixes b32 :: base32_ops
  assumes decode_encode: "b32_decode b32 (b32_encode b32 h) = Some h"
    and encode_decode: "b32_decode b32 s = Some h \<Longrightarrow> b32_encode b32 h = to_lowercase s"
    and encode_length: "length h = 32 \<Longrightarrow> length (b32_encode b32 h) = HARDWARE_ID_BASE32_LENGTH"
begin

lemma hw_ok_length: "hw_ok b32 x \<Longrightarrow> length (hardware_id x) = HARDWARE_ID_BASE32_LENGTH"
  by (auto simp: hw_ok_def dest: encode_length split: option.splits)

lemma hw_new_ok:
  assumes "length h = 32"
  shows "\<exists>x. hw_new b32 src h ty = Some x \<and> hw_ok b32 x \<and> x = \<lparr>id_src = src, hardware_id = b32_encode b32 h, id_type = ty\<rparr>"
  using assms by (simp add: hw_new_def hw_ok_def decode_encode encode_length Let_def)

lemma hw_round_trip:
  assumes "hw_ok b32 x" "length prefix = 5" "\<And>ty. from_char (ty_char ty) = Some ty"
  shows "hw_from_str b32 prefix from_char (hw_show prefix ty_char x) = Some (Ok x)"
proof -
  obtain h where h: "b32_decode b32 (hardware_id x) = Some h" "length h = 32" "b32_encode b32 h = hardware_id x"
    using assms(1) by (auto simp: hw_ok_def split: option.splits)
  let ?s = "hw_show prefix ty_char x"
  have "length ?s = ID_LENGTH" using hw_ok_length [OF assms(1)] assms(2)
    by (simp add: hw_show_def ID_LENGTH_def PREFIX_LENGTH_def)
  moreover have "starts_with ?s prefix" using assms(2) by (auto simp: hw_show_def starts_with_def)
  moreover have "drop PREFIX_LENGTH ?s = hardware_id x" "?s ! 5 = ty_char (id_type x)" "?s ! 6 = source_id_char (id_src x)"
    using assms(2) by (simp_all add: hw_show_def PREFIX_LENGTH_def nth_append)
  moreover have "source_from_id_char (source_id_char src) = Some src" for src
    by (cases src) (simp_all add: source_from_id_char_def)
  ultimately show ?thesis using h hw_ok_length [OF assms(1)] assms(3)
    by (simp add: hw_from_str_def hw_new_def Let_def)
qed

lemma hw_from_str_total: "hw_from_str b32 prefix from_char s \<noteq> None"
  by (auto simp: hw_from_str_def hw_new_def Let_def encode_length split: option.split)

lemma hw_from_str_canonical:
  assumes "hw_from_str b32 prefix from_char s = Some (Ok x)" "length prefix = 5" "\<And>c ty. from_char c = Some ty \<Longrightarrow> ty_char ty = c"
  shows "hw_ok b32 x \<and> hw_show prefix ty_char x = take PREFIX_LENGTH s @ to_lowercase (drop PREFIX_LENGTH s)"
proof -
  obtain h ty src where d: "length s = ID_LENGTH" "starts_with s prefix" "b32_decode b32 (drop PREFIX_LENGTH s) = Some h" "length h = 32"
      "from_char (s ! 5) = Some ty" "source_from_id_char (s ! 6) = Some src" "hw_new b32 src h ty = Some x"
    using assms(1) by (auto simp: hw_from_str_def split: if_splits option.splits)
  have x: "x = \<lparr>id_src = src, hardware_id = b32_encode b32 h, id_type = ty\<rparr>" "hw_ok b32 x"
    using hw_new_ok [OF d(4), of src ty] d(7) by auto
  have "source_id_char src = s ! 6" using d(6) by (auto simp: source_from_id_char_def split: if_splits)
  moreover have "take 7 s = prefix @ [s ! 5, s ! 6]"
  proof -
    have "length s = 59" using d(1) by (simp add: ID_LENGTH_def PREFIX_LENGTH_def HARDWARE_ID_BASE32_LENGTH_def)
    then have "take (Suc (Suc 5)) s = take 5 s @ [s ! 5, s ! Suc 5]" by (simp only: take_Suc_conv_app_nth) simp
    then have "take 7 s = take 5 s @ [s ! 5, s ! 6]" by simp
    then show ?thesis using d(2) assms(2) by (simp add: starts_with_def)
  qed
  ultimately show ?thesis using x encode_decode [OF d(3)] assms(3) [OF d(5)]
    by (simp add: hw_show_def PREFIX_LENGTH_def)
qed

end

interpretation dnssec: base32 base32_dnssec
proof
  show "b32_encode base32_dnssec h = to_lowercase s" if "b32_decode base32_dnssec s = Some h" for s h
    using that dnssec_encode_decode(1) by (simp add: base32_dnssec_def)
qed (simp_all add: base32_dnssec_def dnssec_decode_encode, simp add: dnssec_encode_def Let_def HARDWARE_ID_BASE32_LENGTH_def)

subsection \<open>Identifiers as an interface\<close>

text \<open>
  What a queue of objects needs of their identifiers: a well-formed one is read back from its text.
\<close>

locale object_ids =
  fixes show_id :: "'o \<Rightarrow> string" and parse_id :: "string \<Rightarrow> 'o option" and valid_id :: "'o \<Rightarrow> bool"
  assumes parse_show: "valid_id x \<Longrightarrow> parse_id (show_id x) = Some x"
begin

lemma show_inj: "valid_id x \<Longrightarrow> valid_id y \<Longrightarrow> show_id x = show_id y \<longleftrightarrow> x = y"
  by (metis option.inject parse_show)

end

lemmas prefix_defs = MACHINE_ID_PREFIX_def SWITCH_ID_PREFIX_def POWER_SHELF_ID_PREFIX_def

lemma type_chars:
  "machine_type_from_id_char (machine_type_id_char a) = Some a" "switch_type_from_id_char (switch_type_id_char b) = Some b"
  "power_shelf_type_from_id_char (power_shelf_type_id_char c) = Some c"
  by (cases a; cases b; cases c; simp add: machine_type_from_id_char_def switch_type_from_id_char_def power_shelf_type_from_id_char_def)+

lemma type_chars_inv:
  "machine_type_from_id_char ch = Some a \<Longrightarrow> machine_type_id_char a = ch" "switch_type_from_id_char ch = Some b \<Longrightarrow> switch_type_id_char b = ch"
  "power_shelf_type_from_id_char ch = Some c \<Longrightarrow> power_shelf_type_id_char c = ch"
  by (auto simp: machine_type_from_id_char_def switch_type_from_id_char_def power_shelf_type_from_id_char_def split: if_splits)

interpretation rack_ids: object_ids rack_id_show rack_id_from_str rack_ok
  by unfold_locales (auto simp: rack_id_show_def rack_id_from_str_def rack_ok_def)

interpretation machine_ids: object_ids machine_id_show "\<lambda>s. parsed (machine_id_from_str base32_dnssec s)" "hw_ok base32_dnssec"
  by unfold_locales
    (simp add: machine_id_show_def machine_id_from_str_def dnssec.hw_round_trip type_chars prefix_defs parsed_def)

interpretation switch_ids: object_ids switch_id_show "\<lambda>s. parsed (switch_id_from_str base32_dnssec s)" "hw_ok base32_dnssec"
  by unfold_locales
    (simp add: switch_id_show_def switch_id_from_str_def dnssec.hw_round_trip type_chars prefix_defs parsed_def)

interpretation power_shelf_ids: object_ids power_shelf_id_show "\<lambda>s. parsed (power_shelf_id_from_str base32_dnssec s)" "hw_ok base32_dnssec"
  by unfold_locales
    (simp add: power_shelf_id_show_def power_shelf_id_from_str_def dnssec.hw_round_trip type_chars prefix_defs parsed_def)

lemma device_prefixes:
  "starts_with (machine_id_show x) MACHINE_ID_PREFIX"
  "\<not> starts_with (switch_id_show y) MACHINE_ID_PREFIX" "starts_with (switch_id_show y) SWITCH_ID_PREFIX"
  "\<not> starts_with (power_shelf_id_show z) MACHINE_ID_PREFIX" "\<not> starts_with (power_shelf_id_show z) SWITCH_ID_PREFIX"
  "starts_with (power_shelf_id_show z) POWER_SHELF_ID_PREFIX"
  by (simp_all add: machine_id_show_def switch_id_show_def power_shelf_id_show_def hw_show_def prefix_defs starts_with_def)

text \<open>
  C38. The text of a device identifier is unambiguous: for every well-formed machine, switch or power
  shelf identifier, parsing the text of the device identifier gives the same identifier
  of the same kind back.\<close>
theorem device_id_round_trip:
  assumes "base32 b32" "device_ok b32 d"
  shows "device_id_from_str b32 (device_id_show d) = Some (Ok d)"
proof (cases d)
  case (DevMachine x)
  then have "machine_id_from_str b32 (machine_id_show x) = Some (Ok x)" using assms
    by (simp add: machine_id_from_str_def machine_id_show_def base32.hw_round_trip type_chars prefix_defs)
  with DevMachine show ?thesis by (simp add: device_id_from_str_def device_prefixes)
next
  case (DevSwitch x)
  then have "switch_id_from_str b32 (switch_id_show x) = Some (Ok x)" using assms
    by (simp add: switch_id_from_str_def switch_id_show_def base32.hw_round_trip type_chars prefix_defs)
  with DevSwitch show ?thesis by (simp add: device_id_from_str_def device_prefixes)
next
  case (DevPowerShelf x)
  then have "power_shelf_id_from_str b32 (power_shelf_id_show x) = Some (Ok x)" using assms
    by (simp add: power_shelf_id_from_str_def power_shelf_id_show_def base32.hw_round_trip type_chars prefix_defs)
  with DevPowerShelf show ?thesis by (simp add: device_id_from_str_def device_prefixes)
qed

theorem device_id_round_trip_witness:
  "device_id_from_str base32_dnssec (device_id_show (DevMachine demo_machine)) = Some (Ok (DevMachine demo_machine))"
proof -
  have "device_ok base32_dnssec (DevMachine demo_machine)" by code_simp
  then show ?thesis by (rule device_id_round_trip [OF dnssec.base32_axioms])
qed

text \<open>
  Parsing a device identifier never panics, and what it accepts is a well-formed identifier whose
  text is the input with the hash in lower case.\<close>
theorem device_id_from_str_canonical:
  assumes "base32 b32"
  shows "\<exists>r. device_id_from_str b32 s = Some r \<and>
    (\<forall>d. r = Ok d \<longrightarrow> device_ok b32 d \<and> device_id_show d = take PREFIX_LENGTH s @ to_lowercase (drop PREFIX_LENGTH s))"
proof -
  have "machine_id_from_str b32 s \<noteq> None" "switch_id_from_str b32 s \<noteq> None" "power_shelf_id_from_str b32 s \<noteq> None"
    using base32.hw_from_str_total [OF assms] by (simp_all only: machine_id_from_str_def switch_id_from_str_def power_shelf_id_from_str_def not_False_eq_True)
  then obtain r where r: "device_id_from_str b32 s = Some r" unfolding device_id_from_str_def by fastforce
  have "hw_ok b32 x \<and> machine_id_show x = take PREFIX_LENGTH s @ to_lowercase (drop PREFIX_LENGTH s)"
    if "machine_id_from_str b32 s = Some (Ok x)" for x
    unfolding machine_id_show_def by (rule base32.hw_from_str_canonical [OF assms that [unfolded machine_id_from_str_def]])
      (simp_all add: prefix_defs type_chars_inv)
  moreover have "hw_ok b32 x \<and> switch_id_show x = take PREFIX_LENGTH s @ to_lowercase (drop PREFIX_LENGTH s)"
    if "switch_id_from_str b32 s = Some (Ok x)" for x
    unfolding switch_id_show_def by (rule base32.hw_from_str_canonical [OF assms that [unfolded switch_id_from_str_def]])
      (simp_all add: prefix_defs type_chars_inv)
  moreover have "hw_ok b32 x \<and> power_shelf_id_show x = take PREFIX_LENGTH s @ to_lowercase (drop PREFIX_LENGTH s)"
    if "power_shelf_id_from_str b32 s = Some (Ok x)" for x
    unfolding power_shelf_id_show_def by (rule base32.hw_from_str_canonical [OF assms that [unfolded power_shelf_id_from_str_def]])
      (simp_all add: prefix_defs type_chars_inv)
  ultimately have "device_ok b32 d \<and> device_id_show d = take PREFIX_LENGTH s @ to_lowercase (drop PREFIX_LENGTH s)" if "r = Ok d" for d
    using r that by (cases d) (auto simp: device_id_from_str_def map_sum_Inr_iff split: if_splits)
  with r show ?thesis by blast
qed

theorem device_id_from_str_canonical_witness:
  "\<exists>r. device_id_from_str base32_dnssec ''fm200'' = Some r \<and> (\<forall>d. r = Ok d \<longrightarrow> device_ok base32_dnssec d)"
  using device_id_from_str_canonical [OF dnssec.base32_axioms, of "''fm200''"] by blast

end
