(* ===== verification/Aggregate_Health.thy ===== *)
theory Aggregate_Health
  imports Health_Report Config_Version Device_Ids
begin

text \<open>
  The aggregate health of racks, switches, power shelves and managed hosts
  (\<^verbatim>\<open>api-model/src/health.rs\<close>, \<^verbatim>\<open>api-model/src/machine/mod.rs\<close> and its siblings), and the
  decision whether a managed host may be allocated as an instance.

  A \<^verbatim>\<open>BTreeMap<String, HealthReport>\<close> is an association list in strictly ascending key
  order.  A machine is a record of the fields these functions read.  The substates
  that \<^verbatim>\<open>ManagedHostState\<close> carries and the instance snapshot are type parameters, since
  no function here looks into them.  All clock readings of one call are the argument \<^verbatim>\<open>now\<close>; the text of a
  timestamp in RFC 3339 form is the argument \<^verbatim>\<open>rfc3339\<close>, and the version the server
  was built from is the argument \<^verbatim>\<open>build_version\<close>.
\<close>

subsection \<open>Health report sources\<close>

record health_report_sources =
  replace :: "health_report option"
  merges :: "(string \<times> health_report) list"

definition DPU_AGENT_SOURCE :: string where
  "DPU_AGENT_SOURCE = ''forge-dpu-agent''"

definition MACHINE_VALIDATION_SOURCE :: string where
  "MACHINE_VALIDATION_SOURCE = ''machine-validation''"

definition HARDWARE_HEALTH_OVERRIDE_PREFIX :: string where
  "HARDWARE_HEALTH_OVERRIDE_PREFIX = ''hardware-health.''"

definition repair_merge_active :: "health_report_sources \<Rightarrow> bool" where
  "repair_merge_active hs \<longleftrightarrow>
     map_of (merges hs) ''repair-request'' \<noteq> None \<or> map_of (merges hs) ''request-online-repair'' \<noteq> None"

definition by_source :: "health_report_sources \<Rightarrow> string \<Rightarrow> health_report option" where
  "by_source hs source =
     (case replace hs of
        Some r \<Rightarrow> if hr_source r = source then Some r else map_of (merges hs) source
      | None \<Rightarrow> map_of (merges hs) source)"

definition sources_iter :: "health_report_sources \<Rightarrow> (health_report \<times> health_report_apply_mode) list" where
  "sources_iter hs =
     map (\<lambda>(_, r). (r, Merge)) (merges hs)
     @ (case replace hs of Some r \<Rightarrow> [(r, Replace)] | None \<Rightarrow> [])"

record maintenance_override =
  maintenance_reference :: string
  maintenance_start_time :: "datetime option"

definition get_maintenance_override :: "health_report_sources \<Rightarrow> maintenance_override option" where
  "get_maintenance_override hs =
     (case map_of (merges hs) ''maintenance'' of
        None \<Rightarrow> None
      | Some ovr \<Rightarrow>
          (case find (\<lambda>a. alert_id a = HealthProbeId ''Maintenance'') (alerts ovr) of
             None \<Rightarrow> None
           | Some a \<Rightarrow> Some \<lparr>maintenance_reference = alert_message a,
                            maintenance_start_time = in_alert_since a\<rparr>))"

definition is_hardware_health_override_source :: "string \<Rightarrow> bool" where
  "is_hardware_health_override_source source \<longleftrightarrow>
     take (length HARDWARE_HEALTH_OVERRIDE_PREFIX) source = HARDWARE_HEALTH_OVERRIDE_PREFIX"

subsection \<open>Racks, switches and power shelves\<close>

definition merge_values :: "(string \<times> health_report) list \<Rightarrow> health_report \<Rightarrow> health_report" where
  "merge_values ms output = fold (\<lambda>(_, r) out. merge out r) ms output"

definition derive_rack_aggregate_health :: "datetime \<Rightarrow> health_report_sources \<Rightarrow> health_report" where
  "derive_rack_aggregate_health now hs =
     (case replace hs of
        Some r \<Rightarrow> r
      | None \<Rightarrow> (merge_values (merges hs) (hr_empty now ''rack-aggregate-health''))\<lparr>observed_at := Some now\<rparr>)"

definition derive_switch_aggregate_health :: "datetime \<Rightarrow> health_report_sources \<Rightarrow> health_report" where
  "derive_switch_aggregate_health now hs =
     (case replace hs of
        Some r \<Rightarrow> r
      | None \<Rightarrow> (merge_values (merges hs) (hr_empty now ''switch-aggregate-health''))\<lparr>observed_at := Some now\<rparr>)"

definition derive_power_shelf_aggregate_health :: "datetime \<Rightarrow> health_report_sources \<Rightarrow> health_report" where
  "derive_power_shelf_aggregate_health now hs =
     (case replace hs of
        Some r \<Rightarrow> r
      | None \<Rightarrow> (merge_values (merges hs) (hr_empty now ''power-shelf-aggregate-health''))\<lparr>observed_at := Some now\<rparr>)"

subsection \<open>Managed hosts\<close>

definition is_dpu_type :: "machine_type \<Rightarrow> bool" where
  "is_dpu_type t \<longleftrightarrow> t = Dpu"

datatype 'd managed_host_state =
    DpuDiscoveringState 'd
  | DPUInit 'd
  | HostInit 'd
  | Validation 'd
  | Ready
  | BootConfiguring 'd
  | Maintenance 'd
  | Assigned 'd
  | WaitingForCleanup 'd
  | ForceDeletion
  | Created
  | Failed 'd
  | DPUReprovision 'd
  | HostReprovision 'd
  | RotatingBmc 'd
  | RotatingHostUefi 'd
  | RotatingDpuUefi 'd
  | Measuring 'd
  | PostAssignedMeasuring 'd
  | PreAssignedMeasuring 'd
  | StartAssignmentCycle
  | BomValidating 'd

definition suppress_dpu_alerts :: "'d managed_host_state \<Rightarrow> bool" where
  "suppress_dpu_alerts st =
     (case st of DpuDiscoveringState _ \<Rightarrow> True | DPUInit _ \<Rightarrow> True | DPUReprovision _ \<Rightarrow> True | _ \<Rightarrow> False)"

record network_status_observation =
  nso_machine_id :: machine_id
  agent_version :: "string option"
  agent_version_superseded_at :: "datetime option"

record machine =
  m_id :: machine_id
  health_reports :: health_report_sources
  nso :: "network_status_observation option"
  desired_boot_interface_version :: "config_version option"
  boot_interface_observed_version :: "config_version option"
  attached_dpu_machine_ids :: "machine_id option list"

datatype hardware_health_reports_config = Disabled | MonitorOnly | Enabled

record host_health_config =
  hardware_health_reports :: hardware_health_reports_config
  dpu_agent_version_staleness_threshold :: duration
  prevent_allocations_on_stale_dpu_agent_version :: bool
  prevent_allocations_on_scout_heartbeat_timeout :: bool
  suppress_external_alerting_on_scout_heartbeat_timeout :: bool

definition host_health_config_default :: host_health_config where
  "host_health_config_default =
     \<lparr>hardware_health_reports = Disabled,
      dpu_agent_version_staleness_threshold = 86400 * 1000000000,
      prevent_allocations_on_stale_dpu_agent_version = False,
      prevent_allocations_on_scout_heartbeat_timeout = False,
      suppress_external_alerting_on_scout_heartbeat_timeout = True\<rparr>"

record ('d, 'i) managed_host_state_snapshot =
  host_snapshot :: machine
  dpu_snapshots :: "machine list"
  managed_state :: "'d managed_host_state"
  instance_snapshot :: "'i option"
  rack_health_overrides :: "health_report_sources option"
  aggregate_health :: health_report

datatype 'd not_allocatable_reason =
    InvalidState "'d managed_host_state"
  | PendingInstanceCreation
  | PendingBootConfiguration
  | NoDpuSnapshots
  | MaintenanceMode
  | HealthAlert health_probe_alert

definition dpu_agent_health_report :: "machine \<Rightarrow> health_report option" where
  "dpu_agent_health_report mc = map_of (merges (health_reports mc)) DPU_AGENT_SOURCE"

definition machine_validation_health_report :: "datetime \<Rightarrow> machine \<Rightarrow> health_report" where
  "machine_validation_health_report now mc =
     (case map_of (merges (health_reports mc)) MACHINE_VALIDATION_SOURCE of
        Some r \<Rightarrow> r
      | None \<Rightarrow> hr_empty now MACHINE_VALIDATION_SOURCE)"

definition associated_dpu_machine_ids :: "machine \<Rightarrow> machine_id list" where
  "associated_dpu_machine_ids mc =
     (if is_dpu_type (id_type (m_id mc)) then [] else List.map_filter id (attached_dpu_machine_ids mc))"

definition pending_version :: "config_version option \<Rightarrow> config_version option \<Rightarrow> config_version option" where
  "pending_version desired_version verified_version =
     (case desired_version of
        None \<Rightarrow> None
      | Some v \<Rightarrow> if Some v \<noteq> verified_version then Some v else None)"

definition pending_boot_interface_config_version :: "machine \<Rightarrow> config_version option" where
  "pending_boot_interface_config_version mc =
     pending_version (desired_boot_interface_version mc) (boot_interface_observed_version mc)"

definition is_usable_as_instance ::
  "('d, 'i) managed_host_state_snapshot \<Rightarrow> bool \<Rightarrow> ('d not_allocatable_reason, unit) result" where
  "is_usable_as_instance s allow_unhealthy =
     (if managed_state s \<noteq> Ready then Err (InvalidState (managed_state s))
      else if instance_snapshot s \<noteq> None then Err PendingInstanceCreation
      else if pending_boot_interface_config_version (host_snapshot s) \<noteq> None then Err PendingBootConfiguration
      else if dpu_snapshots s = [] \<and> associated_dpu_machine_ids (host_snapshot s) \<noteq> [] then Err NoDpuSnapshots
      else if \<not> allow_unhealthy then
        (case find_alert_by_classification (aggregate_health s) prevent_allocations of
           Some a \<Rightarrow> Err (HealthAlert a)
         | None \<Rightarrow> Ok ())
      else Ok ())"

definition clear_classifications :: "health_report \<Rightarrow> health_report" where
  "clear_classifications r = r\<lparr>alerts := map (\<lambda>a. a\<lparr>classifications := []\<rparr>) (alerts r)\<rparr>"

text \<open>
  The report is passed by mutable reference: in monitor-only mode its stored
  classifications are cleared too, so the report is part of the result.
\<close>

definition merge_override_report_with_hw_health ::
  "health_report \<Rightarrow> string \<Rightarrow> health_report \<Rightarrow> hardware_health_reports_config
    \<Rightarrow> health_report \<times> health_report \<times> bool" where
  "merge_override_report_with_hw_health output source report cfg =
     (if is_hardware_health_override_source source then
        (case cfg of
           Disabled \<Rightarrow> (output, report, True)
         | MonitorOnly \<Rightarrow>
             (let report' = clear_classifications report in (merge output report', report', True))
         | Enabled \<Rightarrow> (merge output report, report, True))
      else (merge output report, report, False))"

fun merge_overrides ::
  "hardware_health_reports_config \<Rightarrow> (string \<Rightarrow> bool) \<Rightarrow> (string \<times> health_report) list \<Rightarrow> health_report
    \<Rightarrow> health_report \<times> (string \<times> health_report) list \<times> bool" where
  "merge_overrides cfg keep [] output = (output, [], False)"
| "merge_overrides cfg keep ((source, over) # ms) output =
     (if keep source then
        (let (output1, over', hw) = merge_override_report_with_hw_health output source over cfg;
             (output2, ms', hws) = merge_overrides cfg keep ms output1
         in (output2, (source, over') # ms', hw \<or> hws))
      else
        (let (output1, ms', hws) = merge_overrides cfg keep ms output
         in (output1, (source, over) # ms', hws)))"

definition merge_or_timeout :: "datetime \<Rightarrow> health_report \<Rightarrow> health_report option \<Rightarrow> string \<Rightarrow> health_report" where
  "merge_or_timeout now output input target =
     (case input of
        Some r \<Rightarrow> merge output r
      | None \<Rightarrow> merge output (heartbeat_timeout now [] target [] True False))"

definition expired_version_health_report ::
  "string \<Rightarrow> (datetime \<Rightarrow> string) \<Rightarrow> datetime \<Rightarrow> network_status_observation \<Rightarrow> duration \<Rightarrow> bool
    \<Rightarrow> health_report option" where
  "expired_version_health_report build_version rfc3339 now obs staleness_threshold prevent =
     (case agent_version obs of
        None \<Rightarrow>
          Some (stale_agent_version now ''forge-dpu-agent'' (machine_id_show (nso_machine_id obs))
                  ''Agent version is not known'' prevent)
      | Some v \<Rightarrow>
          if v = build_version then None
          else
            (case agent_version_superseded_at obs of
               Some superseded_at \<Rightarrow>
                 if now - superseded_at > staleness_threshold then
                   Some (stale_agent_version now ''forge-dpu-agent'' (machine_id_show (nso_machine_id obs))
                           (''Agent version is '' @ v @ '', which is out of date since ''
                            @ rfc3339 superseded_at) prevent)
                 else None
             | None \<Rightarrow> None))"

definition merge_dpu ::
  "string \<Rightarrow> (datetime \<Rightarrow> string) \<Rightarrow> datetime \<Rightarrow> host_health_config \<Rightarrow> bool \<Rightarrow> machine \<Rightarrow> health_report
    \<Rightarrow> health_report \<times> machine" where
  "merge_dpu build_version rfc3339 now cfg suppress snapshot output =
     (case replace (health_reports snapshot) of
        Some over \<Rightarrow>
          (let (output1, over', _) =
                 merge_override_report_with_hw_health output (hr_source over) over (hardware_health_reports cfg)
           in (output1, snapshot\<lparr>health_reports := (health_reports snapshot)\<lparr>replace := Some over'\<rparr>\<rparr>))
      | None \<Rightarrow>
          (let report = (if suppress then map_option clear_classifications (dpu_agent_health_report snapshot)
                         else dpu_agent_health_report snapshot);
               output1 =
                 (case nso snapshot of
                    None \<Rightarrow> output
                  | Some obs \<Rightarrow>
                      (case expired_version_health_report build_version rfc3339 now obs
                              (dpu_agent_version_staleness_threshold cfg)
                              (prevent_allocations_on_stale_dpu_agent_version cfg) of
                         None \<Rightarrow> output
                       | Some r \<Rightarrow> merge output r));
               output2 = merge_or_timeout now output1 report ''forge-dpu-agent'';
               (output3, ms, _) =
                 merge_overrides (hardware_health_reports cfg) (\<lambda>source. source \<noteq> DPU_AGENT_SOURCE)
                   (merges (health_reports snapshot)) output2
           in (output3, snapshot\<lparr>health_reports := (health_reports snapshot)\<lparr>merges := ms\<rparr>\<rparr>)))"

fun merge_dpus ::
  "string \<Rightarrow> (datetime \<Rightarrow> string) \<Rightarrow> datetime \<Rightarrow> host_health_config \<Rightarrow> bool \<Rightarrow> machine list \<Rightarrow> health_report
    \<Rightarrow> health_report \<times> machine list" where
  "merge_dpus bv rfc now cfg suppress [] output = (output, [])"
| "merge_dpus bv rfc now cfg suppress (d # ds) output =
     (let (output1, d') = merge_dpu bv rfc now cfg suppress d output;
          (output2, ds') = merge_dpus bv rfc now cfg suppress ds output1
      in (output2, d' # ds'))"

definition merge_rack_overrides :: "health_report_sources option \<Rightarrow> health_report \<Rightarrow> health_report" where
  "merge_rack_overrides rack output =
     (case rack of
        None \<Rightarrow> output
      | Some ro \<Rightarrow>
          merge_values (merges ro)
            (case replace ro of None \<Rightarrow> output | Some r \<Rightarrow> merge output r))"

definition derive_aggregate_health ::
  "string \<Rightarrow> (datetime \<Rightarrow> string) \<Rightarrow> datetime \<Rightarrow> ('d, 'i) managed_host_state_snapshot \<Rightarrow> host_health_config
    \<Rightarrow> ('d, 'i) managed_host_state_snapshot" where
  "derive_aggregate_health build_version rfc3339 now s cfg =
     (let finish = (\<lambda>r. r\<lparr>hr_source := ''aggregate-host-health'', observed_at := Some now\<rparr>) in
      case replace (health_reports (host_snapshot s)) of
        Some over \<Rightarrow> s\<lparr>aggregate_health := finish over\<rparr>
      | None \<Rightarrow>
          (let (output1, dpus) =
                 merge_dpus build_version rfc3339 now cfg (suppress_dpu_alerts (managed_state s))
                   (dpu_snapshots s) (hr_empty now []);
               (output2, ms, has_host_hardware_health) =
                 merge_overrides (hardware_health_reports cfg) (\<lambda>_. True)
                   (merges (health_reports (host_snapshot s))) output1;
               output3 =
                 (if hardware_health_reports cfg = Enabled \<and> \<not> has_host_hardware_health
                  then merge_or_timeout now output2 None ''hardware-health'' else output2);
               output4 = merge_rack_overrides (rack_health_overrides s) output3
           in s\<lparr>dpu_snapshots := dpus,
                host_snapshot := (host_snapshot s)\<lparr>health_reports :=
                  (health_reports (host_snapshot s))\<lparr>merges := ms\<rparr>\<rparr>,
                aggregate_health := finish output4\<rparr>))"

subsection \<open>Which classifications reach the aggregate\<close>

text \<open>What one override contributes, given how hardware health reports are configured.\<close>

definition override_classes ::
  "hardware_health_reports_config \<Rightarrow> string \<Rightarrow> health_report \<Rightarrow> health_alert_classification set" where
  "override_classes cfg source r =
     (if is_hardware_health_override_source source \<and> cfg \<noteq> Enabled then {} else report_classes r)"

definition timeout_classes :: "health_alert_classification set" where
  "timeout_classes = {prevent_allocations, prevent_host_state_changes}"

definition dpu_classes ::
  "string \<Rightarrow> (datetime \<Rightarrow> string) \<Rightarrow> datetime \<Rightarrow> host_health_config \<Rightarrow> bool \<Rightarrow> machine
    \<Rightarrow> health_alert_classification set" where
  "dpu_classes bv rfc now cfg suppress d =
     (case replace (health_reports d) of
        Some over \<Rightarrow> override_classes (hardware_health_reports cfg) (hr_source over) over
      | None \<Rightarrow>
          (case dpu_agent_health_report d of
             None \<Rightarrow> timeout_classes
           | Some r \<Rightarrow> if suppress then {} else report_classes r)
          \<union> (case nso d of
               None \<Rightarrow> {}
             | Some obs \<Rightarrow>
                 (case expired_version_health_report bv rfc now obs
                         (dpu_agent_version_staleness_threshold cfg)
                         (prevent_allocations_on_stale_dpu_agent_version cfg) of
                    None \<Rightarrow> {}
                  | Some r \<Rightarrow> report_classes r))
          \<union> (\<Union>(source, r) \<in> set (merges (health_reports d)).
               if source = DPU_AGENT_SOURCE then {} else override_classes (hardware_health_reports cfg) source r))"

definition sources_classes :: "health_report_sources \<Rightarrow> health_alert_classification set" where
  "sources_classes hs =
     (case replace hs of None \<Rightarrow> {} | Some r \<Rightarrow> report_classes r)
     \<union> (\<Union>(_, r) \<in> set (merges hs). report_classes r)"

text \<open>Every step of the aggregation keeps the output well formed and adds the classifications of its source.\<close>

definition adds :: "(health_report \<Rightarrow> health_report) \<Rightarrow> health_alert_classification set \<Rightarrow> bool" where
  "adds f C \<longleftrightarrow> (\<forall>out. report_ok out \<longrightarrow> report_ok (f out) \<and> report_classes (f out) = report_classes out \<union> C)"

named_theorems adds_intros

definition host_classes ::
  "string \<Rightarrow> (datetime \<Rightarrow> string) \<Rightarrow> datetime \<Rightarrow> ('d, 'i) managed_host_state_snapshot \<Rightarrow> host_health_config
    \<Rightarrow> health_alert_classification set" where
  "host_classes bv rfc now s cfg =
     (case replace (health_reports (host_snapshot s)) of
        Some over \<Rightarrow> report_classes over
      | None \<Rightarrow>
          (\<Union>d \<in> set (dpu_snapshots s). dpu_classes bv rfc now cfg (suppress_dpu_alerts (managed_state s)) d)
          \<union> (\<Union>(source, r) \<in> set (merges (health_reports (host_snapshot s))).
               override_classes (hardware_health_reports cfg) source r)
          \<union> (if hardware_health_reports cfg = Enabled
                \<and> \<not> list_ex is_hardware_health_override_source (map fst (merges (health_reports (host_snapshot s))))
             then timeout_classes else {})
          \<union> (case rack_health_overrides s of None \<Rightarrow> {} | Some ro \<Rightarrow> sources_classes ro))"

definition fleet_classes :: "health_report_sources \<Rightarrow> health_alert_classification set" where
  "fleet_classes hs =
     (case replace hs of
        Some r \<Rightarrow> report_classes r
      | None \<Rightarrow> (\<Union>(_, r) \<in> set (merges hs). report_classes r))"

definition silent_machine :: machine where
  "silent_machine =
     \<lparr>m_id = \<lparr>id_src = ProductBoardChassisSerial, hardware_id = ''0'', id_type = Dpu\<rparr>,
      health_reports = \<lparr>replace = None, merges = []\<rparr>, nso = None,
      desired_boot_interface_version = None, boot_interface_observed_version = None,
      attached_dpu_machine_ids = []\<rparr>"

definition ready_host :: "machine list \<Rightarrow> (unit, unit) managed_host_state_snapshot" where
  "ready_host dpus =
     \<lparr>host_snapshot = silent_machine\<lparr>m_id := \<lparr>id_src = Tpm, hardware_id = ''0'', id_type = Host\<rparr>\<rparr>,
      dpu_snapshots = dpus, managed_state = Ready, instance_snapshot = None,
      rack_health_overrides = None, aggregate_health = hr_empty 0 []\<rparr>"

subsection \<open>Deriving twice\<close>

definition settle :: "hardware_health_reports_config \<Rightarrow> string \<Rightarrow> health_report \<Rightarrow> health_report" where
  "settle cfg source r =
     (if is_hardware_health_override_source source \<and> cfg = MonitorOnly then clear_classifications r else r)"

definition settle_all ::
  "hardware_health_reports_config \<Rightarrow> (string \<Rightarrow> bool) \<Rightarrow> (string \<times> health_report) list \<Rightarrow> (string \<times> health_report) list" where
  "settle_all cfg keep = map (\<lambda>(s, r). (s, if keep s then settle cfg s r else r))"

definition settle_dpu :: "host_health_config \<Rightarrow> machine \<Rightarrow> machine" where
  "settle_dpu cfg d =
     d\<lparr>health_reports :=
        (case replace (health_reports d) of
           Some over \<Rightarrow> (health_reports d)\<lparr>replace := Some (settle (hardware_health_reports cfg) (hr_source over) over)\<rparr>
         | None \<Rightarrow> (health_reports d)\<lparr>merges := settle_all (hardware_health_reports cfg)
                     (\<lambda>s. s \<noteq> DPU_AGENT_SOURCE) (merges (health_reports d))\<rparr>)\<rparr>"

lemma report_ok_distinct: "report_ok r \<Longrightarrow> distinct (map alert_key (alerts r))"
  unfolding report_ok_def using bset_ok_distinct by blast

lemma classes_merge:
  "report_ok r \<Longrightarrow> report_classes (merge r s) = report_classes r \<union> report_classes s"
  by (rule merge_classes) (rule report_ok_distinct)

lemma hr_empty_ok [simp]: "report_ok (hr_empty now s)"
  by (simp add: report_ok_def hr_empty_def)

lemma hr_empty_classes [simp]: "report_classes (hr_empty now s) = {}"
  by (simp add: report_classes_def hr_empty_def)

lemma report_classes_meta [simp]:
  "report_classes (r\<lparr>observed_at := t\<rparr>) = report_classes r"
  "report_classes (r\<lparr>hr_source := src\<rparr>) = report_classes r"
  by (simp_all add: report_classes_def)

lemma clear_classifications_classes [simp]: "report_classes (clear_classifications r) = {}"
  by (auto simp: report_classes_def clear_classifications_def)

lemma timeout_report_classes [simp]:
  "report_classes (heartbeat_timeout now src target msg True False) = timeout_classes"
  by (auto simp: report_classes_def heartbeat_timeout_def single_alert_report_def alert_heartbeat_timeout_def
      timeout_classes_def)

lemma adds_apply:
  "adds f C \<Longrightarrow> report_ok out \<Longrightarrow> report_ok (f out)"
  "adds f C \<Longrightarrow> report_ok out \<Longrightarrow> report_classes (f out) = report_classes out \<union> C"
  by (simp_all add: adds_def)

lemma adds_id [adds_intros]: "adds (\<lambda>out. out) {}"
  by (simp add: adds_def)

lemma adds_merge [adds_intros]: "adds (\<lambda>out. merge out r) (report_classes r)"
  by (simp add: adds_def merge_report_ok classes_merge)

lemma adds_comp: "adds f C \<Longrightarrow> adds g D \<Longrightarrow> adds (\<lambda>out. g (f out)) (C \<union> D)"
  by (auto simp: adds_def)

lemma adds_if: "adds f C \<Longrightarrow> adds (\<lambda>out. if b then f out else out) (if b then C else {})"
  by (simp add: adds_def)

lemma adds_merge_values: "adds (merge_values ms) (\<Union>(_, r) \<in> set ms. report_classes r)"
proof (induction ms)
  case Nil
  show ?case by (simp add: merge_values_def adds_def)
next
  case (Cons m ms)
  obtain s r where m: "m = (s, r)" by (cases m)
  show ?case
    using adds_comp [OF adds_merge [of r] Cons] by (simp add: merge_values_def m)
qed

lemma adds_override:
  "adds (\<lambda>out. fst (merge_override_report_with_hw_health out source r cfg)) (override_classes cfg source r)"
  by (cases cfg)
    (simp_all add: merge_override_report_with_hw_health_def override_classes_def adds_def merge_report_ok
      classes_merge Let_def)

lemma merge_override_parts:
  "snd (merge_override_report_with_hw_health out source r cfg) =
     (if is_hardware_health_override_source source \<and> cfg = MonitorOnly then clear_classifications r else r,
      is_hardware_health_override_source source)"
  by (cases cfg) (simp_all add: merge_override_report_with_hw_health_def Let_def)

lemma merge_overrides_step:
  "fst (merge_overrides cfg keep ((s, r) # ms) out) =
     fst (merge_overrides cfg keep ms
       (if keep s then fst (merge_override_report_with_hw_health out s r cfg) else out))"
  "snd (snd (merge_overrides cfg keep ((s, r) # ms) out)) \<longleftrightarrow>
     (if keep s then
        is_hardware_health_override_source s
        \<or> snd (snd (merge_overrides cfg keep ms (fst (merge_override_report_with_hw_health out s r cfg))))
      else snd (snd (merge_overrides cfg keep ms out)))"
  by (simp_all add: split_beta Let_def merge_override_parts)

lemma adds_overrides:
  "adds (\<lambda>out. fst (merge_overrides cfg keep ms out))
     (\<Union>(source, r) \<in> set ms. if keep source then override_classes cfg source r else {})"
proof (induction ms)
  case Nil
  show ?case by (simp add: adds_def)
next
  case (Cons m ms)
  obtain s r where m: "m = (s, r)" by (cases m)
  have "adds (\<lambda>out. if keep s then fst (merge_override_report_with_hw_health out s r cfg) else out)
          (if keep s then override_classes cfg s r else {})"
    using adds_override adds_id by (cases "keep s") simp_all
  from adds_comp [OF this Cons] show ?case
    unfolding m merge_overrides_step by (simp only: list.set UN_insert prod.case)
qed

lemma merge_overrides_hw:
  "snd (snd (merge_overrides cfg keep ms out)) \<longleftrightarrow>
     (\<exists>source \<in> fst ` set ms. keep source \<and> is_hardware_health_override_source source)"
proof (induction ms arbitrary: out)
  case Nil
  show ?case by simp
next
  case (Cons m ms)
  obtain s r where m: "m = (s, r)" by (cases m)
  show ?case unfolding m merge_overrides_step Cons by auto
qed

lemma adds_timeout: 
  "adds (\<lambda>out. merge_or_timeout now out input target)
     (case input of None \<Rightarrow> timeout_classes | Some r \<Rightarrow> report_classes r)"
  using adds_merge by (cases input) (simp_all add: merge_or_timeout_def adds_def merge_report_ok classes_merge)

lemma adds_dpu: "adds (\<lambda>out. fst (merge_dpu bv rfc now cfg quiet d out)) (dpu_classes bv rfc now cfg quiet d)"
proof (cases "replace (health_reports d)")
  case (Some over)
  then show ?thesis
    using adds_override by (simp add: merge_dpu_def dpu_classes_def split_beta)
next
  case None
  let ?exp = "\<lambda>out. case nso d of None \<Rightarrow> out
     | Some obs \<Rightarrow> (case expired_version_health_report bv rfc now obs
                      (dpu_agent_version_staleness_threshold cfg)
                      (prevent_allocations_on_stale_dpu_agent_version cfg) of None \<Rightarrow> out | Some r \<Rightarrow> merge out r)"
  let ?E = "case nso d of None \<Rightarrow> {} | Some obs \<Rightarrow> (case expired_version_health_report bv rfc now obs
                      (dpu_agent_version_staleness_threshold cfg)
                      (prevent_allocations_on_stale_dpu_agent_version cfg) of None \<Rightarrow> {} | Some r \<Rightarrow> report_classes r)"
  have e: "adds ?exp ?E"
    by (auto intro: adds_intros split: option.splits)
  let ?rep = "if quiet then map_option clear_classifications (dpu_agent_health_report d) else dpu_agent_health_report d"
  have t: "(case ?rep of None \<Rightarrow> timeout_classes | Some r \<Rightarrow> report_classes r) =
    (case dpu_agent_health_report d of None \<Rightarrow> timeout_classes | Some r \<Rightarrow> if quiet then {} else report_classes r)"
    by (simp split: option.split)
  note c = adds_comp [OF e adds_timeout [of now ?rep "''forge-dpu-agent''"], unfolded t]
  note f = adds_comp [OF c adds_overrides [of "hardware_health_reports cfg" "\<lambda>s. s \<noteq> DPU_AGENT_SOURCE" "merges (health_reports d)"]]
  have sw: "(if s \<noteq> DPU_AGENT_SOURCE then override_classes h s r else {}) =
     (if s = DPU_AGENT_SOURCE then {} else override_classes h s r)" for s r h by simp
  show ?thesis
    using f unfolding sw merge_dpu_def dpu_classes_def None Let_def
    by (simp add: split_beta Un_ac cong: option.case_cong)
qed

lemma adds_dpus: 
  "adds (\<lambda>out. fst (merge_dpus bv rfc now cfg quiet ds out)) (\<Union>d \<in> set ds. dpu_classes bv rfc now cfg quiet d)"
proof (induction ds)
  case Nil
  show ?case by (simp add: adds_def)
next
  case (Cons d ds)
  show ?case
    using adds_comp [OF adds_dpu Cons] by (simp add: split_beta Let_def)
qed

lemma adds_rack:
  "adds (merge_rack_overrides rack) (case rack of None \<Rightarrow> {} | Some ro \<Rightarrow> sources_classes ro)"
proof (cases rack)
  case None
  then show ?thesis by (simp add: merge_rack_overrides_def adds_def)
next
  case (Some ro)
  have "adds (\<lambda>out. case replace ro of None \<Rightarrow> out | Some r \<Rightarrow> merge out r)
          (case replace ro of None \<Rightarrow> {} | Some r \<Rightarrow> report_classes r)"
    by (auto intro: adds_intros split: option.splits)
  from adds_comp [OF this adds_merge_values [of "merges ro"]] show ?thesis
    by (simp add: merge_rack_overrides_def [abs_def] Some sources_classes_def)
qed

lemma merge_overrides_host:
  "snd (snd (merge_overrides cfg (\<lambda>_. True) ms out)) \<longleftrightarrow> list_ex is_hardware_health_override_source (map fst ms)"
  by (simp add: merge_overrides_hw list_ex_iff)

lemma derive_classes:
  "report_classes (aggregate_health (derive_aggregate_health bv rfc now s cfg)) = host_classes bv rfc now s cfg"
proof (cases "replace (health_reports (host_snapshot s))")
  case (Some over)
  then show ?thesis by (simp add: derive_aggregate_health_def host_classes_def Let_def)
next
  case None
  let ?ms = "merges (health_reports (host_snapshot s))" and ?h = "hardware_health_reports cfg"
  let ?no_hw = "?h = Enabled \<and> \<not> list_ex is_hardware_health_override_source (map fst ?ms)"
  have t: "adds (\<lambda>out. if ?no_hw then merge_or_timeout now out None ''hardware-health'' else out)
             (if ?no_hw then timeout_classes else {})"
    by (rule adds_if) (use adds_timeout [of now None] in simp)
  note c = adds_comp [OF adds_comp [OF adds_comp [OF adds_dpus
      [of bv rfc now cfg "suppress_dpu_alerts (managed_state s)" "dpu_snapshots s"]
      adds_overrides [of ?h "\<lambda>_. True" ?ms]] t] adds_rack [of "rack_health_overrides s"]]
  show ?thesis
    using adds_apply(2) [OF c, of "hr_empty now []"]
    by (simp add: None derive_aggregate_health_def host_classes_def Let_def split_beta merge_overrides_host
        cong: if_cong)
qed

lemma derive_keeps:
  "managed_state (derive_aggregate_health bv rfc now s cfg) = managed_state s"
  "instance_snapshot (derive_aggregate_health bv rfc now s cfg) = instance_snapshot s"
  "rack_health_overrides (derive_aggregate_health bv rfc now s cfg) = rack_health_overrides s"
  "pending_boot_interface_config_version (host_snapshot (derive_aggregate_health bv rfc now s cfg)) =
     pending_boot_interface_config_version (host_snapshot s)"
  "associated_dpu_machine_ids (host_snapshot (derive_aggregate_health bv rfc now s cfg)) =
     associated_dpu_machine_ids (host_snapshot s)"
  by (simp_all add: derive_aggregate_health_def Let_def split_beta pending_boot_interface_config_version_def
      associated_dpu_machine_ids_def split: option.split)

lemma merge_dpus_length: "length (snd (merge_dpus bv rfc now cfg quiet ds out)) = length ds"
  by (induction ds arbitrary: out) (simp_all add: split_beta Let_def)

lemma derive_keeps_dpus:
  "dpu_snapshots (derive_aggregate_health bv rfc now s cfg) = [] \<longleftrightarrow> dpu_snapshots s = []"
proof -
  have "length (dpu_snapshots (derive_aggregate_health bv rfc now s cfg)) = length (dpu_snapshots s)"
    by (simp add: derive_aggregate_health_def Let_def split_beta merge_dpus_length split: option.split)
  then show ?thesis by (metis length_0_conv)
qed

lemma clear_twice [simp]: "clear_classifications (clear_classifications r) = clear_classifications r"
  by (simp add: clear_classifications_def comp_def)

lemma clear_source [simp]: "hr_source (clear_classifications r) = hr_source r"
  by (simp add: clear_classifications_def)

lemma merge_override_settle:
  "merge_override_report_with_hw_health out source (settle cfg source r) cfg =
     merge_override_report_with_hw_health out source r cfg"
  by (cases cfg) (simp_all add: merge_override_report_with_hw_health_def settle_def)

lemma merge_overrides_stored: "fst (snd (merge_overrides cfg keep ms out)) = settle_all cfg keep ms"
  by (induction ms arbitrary: out)
    (auto simp: split_beta Let_def settle_all_def settle_def merge_override_parts)

lemma merge_overrides_settle:
  "merge_overrides cfg keep (settle_all cfg keep ms) out = merge_overrides cfg keep ms out"
proof (induction ms arbitrary: out)
  case Nil
  show ?case by (simp add: settle_all_def)
next
  case (Cons m ms)
  obtain s r where m: "m = (s, r)" by (cases m)
  have "settle_all cfg keep (m # ms) = (s, if keep s then settle cfg s r else r) # settle_all cfg keep ms"
    by (simp add: settle_all_def m)
  then show ?case by (simp add: m Cons merge_override_settle)
qed

lemma settle_all_lookup: "\<not> keep k \<Longrightarrow> map_of (settle_all cfg keep ms) k = map_of ms k"
  by (induction ms) (auto simp: settle_all_def)

lemma settle_source [simp]: "hr_source (settle cfg k r) = hr_source r"
  by (simp add: settle_def)

lemma merge_dpu_stored: "snd (merge_dpu bv rfc now cfg quiet d out) = settle_dpu cfg d"
  by (simp add: merge_dpu_def settle_dpu_def settle_def Let_def split_beta merge_overrides_stored
      merge_override_parts split: option.split)

lemma dpu_agent_report_settle:
  "replace (health_reports d) = None \<Longrightarrow> dpu_agent_health_report (settle_dpu cfg d) = dpu_agent_health_report d"
  by (simp add: dpu_agent_health_report_def settle_dpu_def settle_all_lookup)

lemma merge_dpu_settle: "merge_dpu bv rfc now cfg quiet (settle_dpu cfg d) out = merge_dpu bv rfc now cfg quiet d out"
proof (cases "replace (health_reports d)")
  case None
  have n: "nso (settle_dpu cfg d) = nso d" "replace (health_reports (settle_dpu cfg d)) = None"
    "merges (health_reports (settle_dpu cfg d)) = settle_all (hardware_health_reports cfg)
       (\<lambda>s. s \<noteq> DPU_AGENT_SOURCE) (merges (health_reports d))"
    "(settle_dpu cfg d)\<lparr>health_reports := (health_reports (settle_dpu cfg d))\<lparr>merges := ms\<rparr>\<rparr> =
       d\<lparr>health_reports := (health_reports d)\<lparr>merges := ms\<rparr>\<rparr>" for ms
    using None by (simp_all add: settle_dpu_def)
  show ?thesis
    unfolding merge_dpu_def [of _ _ _ _ _ "settle_dpu cfg d"] n dpu_agent_report_settle [OF None] merge_overrides_settle
    by (simp add: merge_dpu_def None)
next
  case (Some over)
  then show ?thesis
    by (simp add: merge_dpu_def settle_dpu_def merge_override_settle split_beta)
qed

lemma merge_dpus_stored: "snd (merge_dpus bv rfc now cfg quiet ds out) = map (settle_dpu cfg) ds"
  by (induction ds arbitrary: out) (simp_all add: split_beta Let_def merge_dpu_stored)

lemma merge_dpus_settle:
  "merge_dpus bv rfc now cfg quiet (map (settle_dpu cfg) ds) out = merge_dpus bv rfc now cfg quiet ds out"
  by (induction ds arbitrary: out) (simp_all add: merge_dpu_settle)

text \<open>
  A rack, a switch and a power shelf carry a classification exactly when the
  replacing report carries it or, with no replacing report, some merged source does.\<close>
theorem fleet_aggregate_classification:
  "(has_classification (derive_rack_aggregate_health now hs) c \<longleftrightarrow> c \<in> fleet_classes hs) \<and>
   (has_classification (derive_switch_aggregate_health now hs) c \<longleftrightarrow> c \<in> fleet_classes hs) \<and>
   (has_classification (derive_power_shelf_aggregate_health now hs) c \<longleftrightarrow> c \<in> fleet_classes hs)"
  by (cases "replace hs")
    (simp_all add: has_classification_iff derive_rack_aggregate_health_def derive_switch_aggregate_health_def
      derive_power_shelf_aggregate_health_def fleet_classes_def adds_apply(2) [OF adds_merge_values])

text \<open>
  C11. The aggregate health of a managed host carries a classification exactly when one
  of its sources contributes it.  A replacing report on the host decides alone.  Otherwise
  the sources are: every DPU (its replacing report, or its agent report, a missing agent
  report counting as a heartbeat timeout, its stale version and its other overrides), the
  overrides of the host, a heartbeat timeout when hardware health is enforced and no
  hardware source reported, and the overrides of the rack.  Hardware health sources count
  only when they are enforced.\<close>
theorem derive_aggregate_health_classification:
  "has_classification (aggregate_health (derive_aggregate_health bv rfc now s cfg)) c \<longleftrightarrow>
     c \<in> host_classes bv rfc now s cfg"
  by (simp add: has_classification_iff derive_classes)

text \<open>
  C8. After the aggregate health is derived, a managed host is offered for allocation
  exactly when it is in the state Ready, has no instance, has converged on its boot
  interface, its attached DPUs are loaded, and no source of its health prevents
  allocations; the last condition is waived for callers that accept unhealthy hosts.\<close>
theorem usable_after_derive:
  "is_usable_as_instance (derive_aggregate_health bv rfc now s cfg) allow_unhealthy = Ok () \<longleftrightarrow>
     managed_state s = Ready \<and> instance_snapshot s = None \<and>
     pending_boot_interface_config_version (host_snapshot s) = None \<and>
     (dpu_snapshots s = [] \<longrightarrow> associated_dpu_machine_ids (host_snapshot s) = []) \<and>
     (prevent_allocations \<in> host_classes bv rfc now s cfg \<longrightarrow> allow_unhealthy)"
proof -
  have "find_alert_by_classification (aggregate_health (derive_aggregate_health bv rfc now s cfg)) prevent_allocations = None
     \<longleftrightarrow> prevent_allocations \<notin> host_classes bv rfc now s cfg"
    using has_classification_iff [of "aggregate_health (derive_aggregate_health bv rfc now s cfg)" prevent_allocations]
    unfolding has_classification_def derive_classes by blast
  then show ?thesis
    by (auto simp: is_usable_as_instance_def derive_keeps derive_keeps_dpus split: option.splits)
qed

theorem usable_after_derive_witness:
  "is_usable_as_instance
     (derive_aggregate_health ''v1'' (\<lambda>_. []) 7 (ready_host []) host_health_config_default) False = Ok () \<and>
   is_usable_as_instance
     (derive_aggregate_health ''v1'' (\<lambda>_. []) 7 (ready_host [silent_machine]) host_health_config_default) True = Ok ()"
  by (simp add: usable_after_derive ready_host_def silent_machine_def pending_boot_interface_config_version_def
      pending_version_def associated_dpu_machine_ids_def is_dpu_type_def map_filter_simps host_classes_def
      host_health_config_default_def)

text \<open>
  Deriving the aggregate health once more, with the same configuration and clock
  reading, changes nothing, although deriving rewrites the stored reports of hardware
  sources in monitor-only mode and takes those as its input the second time.\<close>
theorem derive_aggregate_health_idempotent:
  "derive_aggregate_health bv rfc now (derive_aggregate_health bv rfc now s cfg) cfg =
     derive_aggregate_health bv rfc now s cfg"
proof (cases "replace (health_reports (host_snapshot s))")
  case None
  then show ?thesis
    by (simp add: derive_aggregate_health_def Let_def split_beta merge_overrides_stored merge_overrides_settle
        merge_dpus_stored merge_dpus_settle)
next
  case (Some over)
  then show ?thesis by (simp add: derive_aggregate_health_def Let_def)
qed

end
