(* ===== verification/Address_Blocks.thy ===== *)
theory Address_Blocks
  imports "HOL-Library.Word"
begin

unbundle bit_operations_syntax

text \<open>
  The binary subdivision of an address space: the block with index \<open>i\<close> and width \<open>w\<close>
  holds the addresses whose bits from \<open>w\<close> upwards spell \<open>i\<close>.  Blocks are nested or
  disjoint, and a block and its neighbour (the index with the last bit flipped) make
  up their parent.
\<close>


definition block :: "nat \<Rightarrow> nat \<Rightarrow> nat set" where
  "block i w = {x. x div 2 ^ w = i}"

lemma div_pow_eq_iff: "x div 2 ^ w = i \<longleftrightarrow> i * 2 ^ w \<le> x \<and> x < i * 2 ^ w + 2 ^ w" for x :: nat
proof -
  have "x div 2 ^ w = i \<longleftrightarrow> i \<le> x div 2 ^ w \<and> x div 2 ^ w < Suc i" by auto
  then show ?thesis by (simp add: less_eq_div_iff_mult_less_eq div_less_iff_less_mult add.commute)
qed

lemma block_interval: "block i w = {i * 2 ^ w..i * 2 ^ w + (2 ^ w - 1)}"
proof (rule set_eqI)
  fix x :: nat
  have "0 < (2::nat) ^ w" by simp
  then have "x < i * 2 ^ w + 2 ^ w \<longleftrightarrow> x \<le> i * 2 ^ w + (2 ^ w - 1)" by linarith
  then show "x \<in> block i w \<longleftrightarrow> x \<in> {i * 2 ^ w..i * 2 ^ w + (2 ^ w - 1)}"
    by (simp only: block_def mem_Collect_eq div_pow_eq_iff atLeastAtMost_iff)
qed

lemma block_mem: "i * 2 ^ w \<in> block i w"
  by (simp add: block_def)

lemma block_card: "card (block i w) = 2 ^ w" "finite (block i w)"
  by (simp_all add: block_interval)

lemma block_sub_width: "block i w \<subseteq> block j v \<Longrightarrow> w \<le> v"
  using card_mono [OF block_card(2), of "block i w" j v] by (simp add: block_card)

lemma block_sub: "w \<le> v \<Longrightarrow> block i w \<subseteq> block j v \<longleftrightarrow> i div 2 ^ (v - w) = j"
proof
  assume w: "w \<le> v"
  have d: "x div 2 ^ v = x div 2 ^ w div 2 ^ (v - w)" for x :: nat
    using w by (metis div_mult2_eq le_add_diff_inverse power_add)
  { assume "i div 2 ^ (v - w) = j" then show "block i w \<subseteq> block j v" by (auto simp: block_def d) }
  { assume "block i w \<subseteq> block j v"
    then have "i * 2 ^ w \<in> block j v" using block_mem by blast
    then show "i div 2 ^ (v - w) = j" by (simp add: block_def d) }
qed

lemma block_laminar: "block i w \<inter> block j v = {} \<or> block i w \<subseteq> block j v \<or> block j v \<subseteq> block i w"
proof -
  have "block i w \<inter> block j v = {} \<or> block i w \<subseteq> block j v" if "w \<le> v" for i j w v
  proof (cases "i div 2 ^ (v - w) = j")
    case True then show ?thesis using block_sub that by simp
  next
    case False
    have "x div 2 ^ v = x div 2 ^ w div 2 ^ (v - w)" for x :: nat
      using that by (metis div_mult2_eq le_add_diff_inverse power_add)
    then show ?thesis using False by (auto simp: block_def)
  qed
  then show ?thesis by (metis inf_commute nat_le_linear)
qed

definition flip :: "nat \<Rightarrow> nat" where
  "flip i = i XOR 1"

lemma flip_eq: "flip i = (if even i then i + 1 else i - 1)"
  by (simp add: flip_def xor_Suc_0_eq)

lemma flip_flip [simp]: "flip (flip i) = i"
  by (simp add: flip_eq)

lemma flip_sibling: "x = i \<or> x = flip i \<longleftrightarrow> x div 2 = i div 2"
proof (cases "even i")
  case True
  then obtain a where "i = 2 * a" by (auto elim: evenE)
  then show ?thesis by (auto simp: flip_eq)
next
  case False
  then obtain a where i: "i = 2 * a + 1" by (auto elim: oddE)
  have "x div 2 = a \<longleftrightarrow> x = 2 * a \<or> x = 2 * a + 1" by linarith
  then show ?thesis unfolding flip_eq i by auto
qed

lemma block_parent: "block i w \<union> block (flip i) w = block (i div 2) (Suc w)"
proof (rule set_eqI)
  fix x :: nat
  have "x div 2 ^ Suc w = x div 2 ^ w div 2" by (simp only: power_Suc2 div_mult2_eq)
  then show "x \<in> block i w \<union> block (flip i) w \<longleftrightarrow> x \<in> block (i div 2) (Suc w)"
    using flip_sibling [of "x div 2 ^ w" i] by (simp only: block_def Un_iff mem_Collect_eq)
qed

lemma flip_neq: "flip i \<noteq> i"
  by (cases i) (simp_all add: flip_eq)

lemma block_flip_disjoint: "block i w \<inter> block (flip i) w = {}"
  using flip_neq [of i] by (auto simp: block_def)

lemma block_least_parent:
  assumes "block i w \<subset> block j v"
  shows "block (i div 2) (Suc w) \<subseteq> block j v"
proof -
  from assms have w: "w \<le> v" using block_sub_width by blast
  from assms have e: "i div 2 ^ (v - w) = j" using block_sub [OF w] by auto
  have "w \<noteq> v"
    using assms e by auto
  with w have lt: "Suc w \<le> v" by simp
  have "i div 2 ^ (v - w) = i div 2 div 2 ^ (v - Suc w)"
    using lt by (metis Suc_diff_le diff_Suc_Suc div_mult2_eq power_Suc)
  then show ?thesis using block_sub [OF lt] e by simp
qed

subsection \<open>Single bits of addresses\<close>

lemma unat_bit: "k < LENGTH('w::len) \<Longrightarrow> unat (push_bit k 1 :: 'w word) = 2 ^ k"
  by (simp only: unsigned_push_bit_eq unsigned_1) (simp add: push_bit_eq_mult take_bit_eq_mod)

lemma unat_top_bit_shifted:
  assumes "n < LENGTH('w::len)"
  shows "unat (drop_bit n (push_bit (LENGTH('w) - 1) 1) :: 'w word) = 2 ^ (LENGTH('w) - Suc n)"
proof -
  have "(2::nat) ^ (LENGTH('w) - 1) = 2 ^ n * 2 ^ (LENGTH('w) - Suc n)"
    using assms by (simp flip: power_add)
  moreover have "unat (push_bit (LENGTH('w) - 1) 1 :: 'w word) = 2 ^ (LENGTH('w) - 1)"
    by (rule unat_bit) simp
  moreover have "unat (drop_bit n x) = unat x div 2 ^ n" for x :: "'w word"
    by (simp only: unat_drop_bit_eq) (simp only: drop_bit_eq_div)
  ultimately show ?thesis by (metis nonzero_mult_div_cancel_left power_not_zero zero_neq_numeral)
qed

lemma xor_bit_index: "(a XOR 2 ^ k) div 2 ^ k = flip (a div 2 ^ k)" for a :: nat
proof -
  have "drop_bit k (a XOR 2 ^ k) = drop_bit k a XOR drop_bit k (2 ^ k)" by (rule drop_bit_xor)
  then show ?thesis by (simp add: flip_def drop_bit_eq_div)
qed

lemma xor_bit_low: "(a XOR 2 ^ k) mod 2 ^ k = a mod 2 ^ k" for a :: nat
proof -
  have "take_bit k (a XOR 2 ^ k) = take_bit k a XOR take_bit k (2 ^ k)" by (rule take_bit_xor)
  then show ?thesis by (simp add: take_bit_eq_mod)
qed

lemma or_bit_index:
  fixes a :: nat
  assumes "even (a div 2 ^ k)"
  shows "(a OR 2 ^ k) div 2 ^ k = Suc (a div 2 ^ k)"
proof -
  have "drop_bit k (a OR 2 ^ k) = drop_bit k a OR drop_bit k (2 ^ k)" by (rule drop_bit_or)
  then show ?thesis using assms by (simp add: drop_bit_eq_div or_Suc_0_eq)
qed

lemma or_bit_low: "(a OR 2 ^ k) mod 2 ^ k = a mod 2 ^ k" for a :: nat
proof -
  have "take_bit k (a OR 2 ^ k) = take_bit k a OR take_bit k (2 ^ k)" by (rule take_bit_or)
  then show ?thesis by (simp add: take_bit_eq_mod)
qed

end
