(* ===== verification/Ip_Prefix.thy ===== *)
theory Ip_Prefix
  imports Prelude Address_Blocks
begin

unbundle bit_operations_syntax

text \<open>
  IP prefixes: \<^verbatim>\<open>network/src/ip/prefix.rs\<close> and \<^verbatim>\<open>network/src/ip/address_family.rs\<close>.

  The networks underneath come from the crate \<^verbatim>\<open>ipnet\<close>: its operations are the record
  \<open>ipnet_ops\<close>, an argument of every definition that calls them, over addresses of 32 or
  128 bits.  The locale \<open>ipnet\<close> states what the crate documents about them, and
  \<open>ipnet_doc\<close> is one implementation of that documentation.  A panic (\<^verbatim>\<open>new_assert\<close>,
  \<^verbatim>\<open>unreachable!\<close>) is the outer \<open>None\<close> of an operation that can panic.

  The last part shows that prefixes of either family are blocks of a binary
  subdivision of the address space; the locale \<open>prefix_space\<close> is that view, the
  interface on which the sets of addresses are built.
\<close>

subsection \<open>The interface of the network crate\<close>

record (overloaded) ('n, 'w::len) ipnet_ops =
  net_new :: "'w word \<Rightarrow> nat \<Rightarrow> 'n option"
  net_from_addr :: "'w word \<Rightarrow> 'n"
  net_addr :: "'n \<Rightarrow> 'w word"
  net_prefix_len :: "'n \<Rightarrow> nat"
  net_network :: "'n \<Rightarrow> 'w word"
  net_broadcast :: "'n \<Rightarrow> 'w word"
  net_trunc :: "'n \<Rightarrow> 'n"
  net_supernet :: "'n \<Rightarrow> 'n option"
  net_contains :: "'n \<Rightarrow> 'n \<Rightarrow> bool"
  net_le :: "'n \<Rightarrow> 'n \<Rightarrow> bool"
  net_from_str :: "string \<Rightarrow> 'n option"

datatype ('n4, 'n6) ip_net = NetV4 'n4 | NetV6 'n6

datatype ip_addr = AddrV4 "32 word" | AddrV6 "128 word"

subsection \<open>Address families\<close>

datatype ip_address_family = Ipv4 | Ipv6

fun interface_prefix_len :: "ip_address_family \<Rightarrow> nat" where
  "interface_prefix_len Ipv4 = 32"
| "interface_prefix_len Ipv6 = 128"

fun pg_family :: "ip_address_family \<Rightarrow> int" where
  "pg_family Ipv4 = 4"
| "pg_family Ipv6 = 6"

fun addr_family :: "ip_addr \<Rightarrow> ip_address_family" where
  "addr_family (AddrV4 _) = Ipv4"
| "addr_family (AddrV6 _) = Ipv6"

definition require_address_family_or_else ::
  "('a \<Rightarrow> ip_address_family) \<Rightarrow> 'a \<Rightarrow> ip_address_family \<Rightarrow> ('a \<Rightarrow> 'e) \<Rightarrow> ('e, 'a) result" where
  "require_address_family_or_else family_of x fam err =
     (if fam = family_of x then Ok x else Err (err x))"

subsection \<open>IPv4 prefixes\<close>

datatype 'n ipv4_prefix = Ipv4Prefix (v4_net: 'n)

datatype prefix_error = NonCanonicalRepresentation | ParseError string | BadPrefixLength nat

definition v4_contains :: "('n, 32) ipnet_ops \<Rightarrow> 'n ipv4_prefix \<Rightarrow> 'n ipv4_prefix \<Rightarrow> bool" where
  "v4_contains N p q = net_contains N (v4_net p) (v4_net q)"

definition v4_get_sibling :: "('n, 32) ipnet_ops \<Rightarrow> 'n ipv4_prefix \<Rightarrow> 'n ipv4_prefix option option" where
  "v4_get_sibling N p =
     (let n = net_prefix_len N (v4_net p) in
      if n = 0 then Some None
      else if n \<le> 32 then
        (let shift_amount = 32 - n;
             single_bit_flip = push_bit shift_amount 1;
             sibling_addr_bits = net_addr N (v4_net p) XOR single_bit_flip
         in map_option (\<lambda>s. Some (Ipv4Prefix s)) (net_new N sibling_addr_bits n))
      else None)"

definition v4_bifurcate ::
  "('n, 32) ipnet_ops \<Rightarrow> 'n ipv4_prefix \<Rightarrow> ('n ipv4_prefix \<times> 'n ipv4_prefix) option option" where
  "v4_bifurcate N p =
     (let n = net_prefix_len N (v4_net p) in
      if n \<le> 31 then
        (let addr_bits = net_addr N (v4_net p);
             single_bit_flip = drop_bit n 0x80000000;
             odd_addr_bits = addr_bits OR single_bit_flip
         in case (net_new N addr_bits (n + 1), net_new N odd_addr_bits (n + 1)) of
              (Some even_net, Some odd_net) \<Rightarrow> Some (Some (Ipv4Prefix even_net, Ipv4Prefix odd_net))
            | _ \<Rightarrow> None)
      else Some None)"

definition addr_to_v4_prefix :: "('n, 32) ipnet_ops \<Rightarrow> 32 word \<Rightarrow> 'n ipv4_prefix" where
  "addr_to_v4_prefix N a = Ipv4Prefix (net_from_addr N a)"

definition net_to_v4_prefix :: "('n, 32) ipnet_ops \<Rightarrow> 'n \<Rightarrow> 'n ipv4_prefix" where
  "net_to_v4_prefix N n = Ipv4Prefix (net_trunc N n)"

definition v4_get_last_subprefix :: "('n, 32) ipnet_ops \<Rightarrow> 'n ipv4_prefix \<Rightarrow> 'n ipv4_prefix" where
  "v4_get_last_subprefix N p = addr_to_v4_prefix N (net_broadcast N (v4_net p))"

definition v4_try_aggregate ::
  "('n, 32) ipnet_ops \<Rightarrow> 'n ipv4_prefix \<Rightarrow> 'n ipv4_prefix \<Rightarrow> 'n ipv4_prefix option" where
  "v4_try_aggregate N p q =
     (if v4_contains N p q then Some p
      else if v4_contains N q p then Some q
      else
        (case (net_supernet N (v4_net p), net_supernet N (v4_net q)) of
           (Some super1, Some super2) \<Rightarrow> if super1 = super2 then Some (Ipv4Prefix super1) else None
         | _ \<Rightarrow> None))"

definition v4_try_from_net :: "('n, 32) ipnet_ops \<Rightarrow> 'n \<Rightarrow> (prefix_error, 'n ipv4_prefix) result" where
  "v4_try_from_net N n =
     (if net_addr N n = net_network N n then Ok (Ipv4Prefix n) else Err NonCanonicalRepresentation)"

definition v4_from_str :: "('n, 32) ipnet_ops \<Rightarrow> string \<Rightarrow> (prefix_error, 'n ipv4_prefix) result" where
  "v4_from_str N s =
     (case net_from_str N s of None \<Rightarrow> Err (ParseError s) | Some n \<Rightarrow> v4_try_from_net N n)"

subsection \<open>IPv6 prefixes\<close>

datatype 'n ipv6_prefix = Ipv6Prefix (v6_net: 'n)

definition v6_contains :: "('n, 128) ipnet_ops \<Rightarrow> 'n ipv6_prefix \<Rightarrow> 'n ipv6_prefix \<Rightarrow> bool" where
  "v6_contains N p q = net_contains N (v6_net p) (v6_net q)"

definition v6_get_sibling :: "('n, 128) ipnet_ops \<Rightarrow> 'n ipv6_prefix \<Rightarrow> 'n ipv6_prefix option option" where
  "v6_get_sibling N p =
     (let n = net_prefix_len N (v6_net p) in
      if n = 0 then Some None
      else if n \<le> 128 then
        (let shift_amount = 128 - n;
             single_bit_flip = push_bit shift_amount 1;
             sibling_addr_bits = net_addr N (v6_net p) XOR single_bit_flip
         in map_option (\<lambda>s. Some (Ipv6Prefix s)) (net_new N sibling_addr_bits n))
      else None)"

definition v6_bifurcate ::
  "('n, 128) ipnet_ops \<Rightarrow> 'n ipv6_prefix \<Rightarrow> ('n ipv6_prefix \<times> 'n ipv6_prefix) option option" where
  "v6_bifurcate N p =
     (let n = net_prefix_len N (v6_net p) in
      if n \<le> 127 then
        (let even_addr_bits = net_addr N (v6_net p);
             single_bit_flip = drop_bit n 0x80000000000000000000000000000000;
             odd_addr_bits = even_addr_bits OR single_bit_flip
         in case (net_new N even_addr_bits (n + 1), net_new N odd_addr_bits (n + 1)) of
              (Some even_net, Some odd_net) \<Rightarrow> Some (Some (Ipv6Prefix even_net, Ipv6Prefix odd_net))
            | _ \<Rightarrow> None)
      else Some None)"

definition addr_to_v6_prefix :: "('n, 128) ipnet_ops \<Rightarrow> 128 word \<Rightarrow> 'n ipv6_prefix" where
  "addr_to_v6_prefix N a = Ipv6Prefix (net_from_addr N a)"

definition net_to_v6_prefix :: "('n, 128) ipnet_ops \<Rightarrow> 'n \<Rightarrow> 'n ipv6_prefix" where
  "net_to_v6_prefix N n = Ipv6Prefix (net_trunc N n)"

definition v6_get_last_subprefix :: "('n, 128) ipnet_ops \<Rightarrow> 'n ipv6_prefix \<Rightarrow> 'n ipv6_prefix" where
  "v6_get_last_subprefix N p = addr_to_v6_prefix N (net_broadcast N (v6_net p))"

definition v6_try_aggregate ::
  "('n, 128) ipnet_ops \<Rightarrow> 'n ipv6_prefix \<Rightarrow> 'n ipv6_prefix \<Rightarrow> 'n ipv6_prefix option" where
  "v6_try_aggregate N p q =
     (if v6_contains N p q then Some p
      else if v6_contains N q p then Some q
      else
        (case (net_supernet N (v6_net p), net_supernet N (v6_net q)) of
           (Some super1, Some super2) \<Rightarrow> if super1 = super2 then Some (Ipv6Prefix super1) else None
         | _ \<Rightarrow> None))"

definition v6_try_from_net :: "('n, 128) ipnet_ops \<Rightarrow> 'n \<Rightarrow> (prefix_error, 'n ipv6_prefix) result" where
  "v6_try_from_net N n =
     (if net_addr N n = net_network N n then Ok (Ipv6Prefix n) else Err NonCanonicalRepresentation)"

definition v6_from_str :: "('n, 128) ipnet_ops \<Rightarrow> string \<Rightarrow> (prefix_error, 'n ipv6_prefix) result" where
  "v6_from_str N s =
     (case net_from_str N s of None \<Rightarrow> Err (ParseError s) | Some n \<Rightarrow> v6_try_from_net N n)"

subsection \<open>Prefixes of either family\<close>

datatype ('n4, 'n6) ip_prefix = V4 "'n4 ipv4_prefix" | V6 "'n6 ipv6_prefix"

type_synonym ('n4, 'n6) nets = "('n4, 32) ipnet_ops \<times> ('n6, 128) ipnet_ops"

fun prefix_family :: "('n4, 'n6) ip_prefix \<Rightarrow> ip_address_family" where
  "prefix_family (V4 _) = Ipv4"
| "prefix_family (V6 _) = Ipv6"

fun ip_contains :: "('n4, 'n6) nets \<Rightarrow> ('n4, 'n6) ip_prefix \<Rightarrow> ('n4, 'n6) ip_prefix \<Rightarrow> bool" where
  "ip_contains (N4, N6) (V4 p) (V4 q) = v4_contains N4 p q"
| "ip_contains (N4, N6) (V6 p) (V6 q) = v6_contains N6 p q"
| "ip_contains _ _ _ = False"

fun ip_get_sibling :: "('n4, 'n6) nets \<Rightarrow> ('n4, 'n6) ip_prefix \<Rightarrow> ('n4, 'n6) ip_prefix option option" where
  "ip_get_sibling (N4, N6) (V4 p) = map_option (map_option V4) (v4_get_sibling N4 p)"
| "ip_get_sibling (N4, N6) (V6 p) = map_option (map_option V6) (v6_get_sibling N6 p)"

fun ip_bifurcate ::
  "('n4, 'n6) nets \<Rightarrow> ('n4, 'n6) ip_prefix \<Rightarrow> (('n4, 'n6) ip_prefix \<times> ('n4, 'n6) ip_prefix) option option" where
  "ip_bifurcate (N4, N6) (V4 p) = map_option (map_option (\<lambda>(e, od). (V4 e, V4 od))) (v4_bifurcate N4 p)"
| "ip_bifurcate (N4, N6) (V6 p) = map_option (map_option (\<lambda>(e, od). (V6 e, V6 od))) (v6_bifurcate N6 p)"

fun ip_get_last_subprefix :: "('n4, 'n6) nets \<Rightarrow> ('n4, 'n6) ip_prefix \<Rightarrow> ('n4, 'n6) ip_prefix" where
  "ip_get_last_subprefix (N4, N6) (V4 p) = V4 (v4_get_last_subprefix N4 p)"
| "ip_get_last_subprefix (N4, N6) (V6 p) = V6 (v6_get_last_subprefix N6 p)"

fun ip_try_aggregate ::
  "('n4, 'n6) nets \<Rightarrow> ('n4, 'n6) ip_prefix \<Rightarrow> ('n4, 'n6) ip_prefix \<Rightarrow> ('n4, 'n6) ip_prefix option" where
  "ip_try_aggregate (N4, N6) (V4 p) (V4 q) = map_option V4 (v4_try_aggregate N4 p q)"
| "ip_try_aggregate (N4, N6) (V6 p) (V6 q) = map_option V6 (v6_try_aggregate N6 p q)"
| "ip_try_aggregate _ _ _ = None"

fun ip_le :: "('n4, 'n6) nets \<Rightarrow> ('n4, 'n6) ip_prefix \<Rightarrow> ('n4, 'n6) ip_prefix \<Rightarrow> bool" where
  "ip_le (N4, N6) (V4 p) (V6 q) = True"
| "ip_le (N4, N6) (V6 p) (V4 q) = False"
| "ip_le (N4, N6) (V4 p) (V4 q) = net_le N4 (v4_net p) (v4_net q)"
| "ip_le (N4, N6) (V6 p) (V6 q) = net_le N6 (v6_net p) (v6_net q)"

fun ip_prefix_length :: "('n4, 'n6) nets \<Rightarrow> ('n4, 'n6) ip_prefix \<Rightarrow> nat" where
  "ip_prefix_length (N4, N6) (V4 p) = net_prefix_len N4 (v4_net p)"
| "ip_prefix_length (N4, N6) (V6 p) = net_prefix_len N6 (v6_net p)"

fun addr_to_prefix :: "('n4, 'n6) nets \<Rightarrow> ip_addr \<Rightarrow> ('n4, 'n6) ip_prefix" where
  "addr_to_prefix (N4, N6) (AddrV4 a) = V4 (addr_to_v4_prefix N4 a)"
| "addr_to_prefix (N4, N6) (AddrV6 a) = V6 (addr_to_v6_prefix N6 a)"

fun net_to_prefix :: "('n4, 'n6) nets \<Rightarrow> ('n4, 'n6) ip_net \<Rightarrow> ('n4, 'n6) ip_prefix" where
  "net_to_prefix (N4, N6) (NetV4 n) = V4 (net_to_v4_prefix N4 n)"
| "net_to_prefix (N4, N6) (NetV6 n) = V6 (net_to_v6_prefix N6 n)"

fun ip_try_from_net ::
  "('n4, 'n6) nets \<Rightarrow> ('n4, 'n6) ip_net \<Rightarrow> (prefix_error, ('n4, 'n6) ip_prefix) result" where
  "ip_try_from_net (N4, N6) (NetV4 n) = map_sum id V4 (v4_try_from_net N4 n)"
| "ip_try_from_net (N4, N6) (NetV6 n) = map_sum id V6 (v6_try_from_net N6 n)"

fun ip_net_new :: "('n4, 'n6) nets \<Rightarrow> ip_addr \<Rightarrow> nat \<Rightarrow> ('n4, 'n6) ip_net option" where
  "ip_net_new (N4, N6) (AddrV4 a) l = map_option NetV4 (net_new N4 a l)"
| "ip_net_new (N4, N6) (AddrV6 a) l = map_option NetV6 (net_new N6 a l)"

definition ip_try_from_addr ::
  "('n4, 'n6) nets \<Rightarrow> ip_addr \<times> nat \<Rightarrow> (prefix_error, ('n4, 'n6) ip_prefix) result" where
  "ip_try_from_addr N value =
     (case value of (addr, prefix_length) \<Rightarrow>
        (case ip_net_new N addr prefix_length of
           None \<Rightarrow> Err (BadPrefixLength prefix_length)
         | Some n \<Rightarrow> ip_try_from_net N n))"

definition ip_from_str ::
  "(string \<Rightarrow> ('n4, 'n6) ip_net option) \<Rightarrow> ('n4, 'n6) nets \<Rightarrow> string \<Rightarrow> (prefix_error, ('n4, 'n6) ip_prefix) result" where
  "ip_from_str ip_net_from_str N s =
     (case ip_net_from_str s of None \<Rightarrow> Err (ParseError s) | Some n \<Rightarrow> ip_try_from_net N n)"

fun ip_into_net :: "('n4, 'n6) ip_prefix \<Rightarrow> ('n4, 'n6) ip_net" where
  "ip_into_net (V4 p) = NetV4 (v4_net p)"
| "ip_into_net (V6 p) = NetV6 (v6_net p)"

subsection \<open>What the crate documents\<close>

definition net_width :: "('n, 'w::len) ipnet_ops \<Rightarrow> 'n \<Rightarrow> nat" where
  "net_width N n = LENGTH('w) - net_prefix_len N n"

definition net_index :: "('n, 'w::len) ipnet_ops \<Rightarrow> 'n \<Rightarrow> nat" where
  "net_index N n = unat (net_addr N n) div 2 ^ net_width N n"

definition net_block :: "('n, 'w::len) ipnet_ops \<Rightarrow> 'n \<Rightarrow> nat set" where
  "net_block N n = block (net_index N n) (net_width N n)"

definition net_canonical :: "('n, 'w::len) ipnet_ops \<Rightarrow> 'n \<Rightarrow> bool" where
  "net_canonical N n \<longleftrightarrow> net_addr N n = net_network N n"

subsection \<open>An implementation of the documentation\<close>

typedef (overloaded) 'w net_doc = "{(a :: 'w::len word, l). l \<le> LENGTH('w)}"
  by (rule exI [of _ "(0, 0)"]) simp

definition doc_addr :: "'w::len net_doc \<Rightarrow> 'w word" where
  "doc_addr n = fst (Rep_net_doc n)"

definition doc_len :: "'w::len net_doc \<Rightarrow> nat" where
  "doc_len n = snd (Rep_net_doc n)"

definition doc_first :: "'w::len word \<Rightarrow> nat \<Rightarrow> 'w word" where
  "doc_first a l = word_of_nat (unat a div 2 ^ (LENGTH('w) - l) * 2 ^ (LENGTH('w) - l))"

definition doc_last :: "'w::len word \<Rightarrow> nat \<Rightarrow> 'w word" where
  "doc_last a l =
     word_of_nat (unat a div 2 ^ (LENGTH('w) - l) * 2 ^ (LENGTH('w) - l) + (2 ^ (LENGTH('w) - l) - 1))"

definition ipnet_doc :: "(string \<Rightarrow> 'w::len net_doc option) \<Rightarrow> ('w net_doc, 'w) ipnet_ops" where
  "ipnet_doc parse =
     \<lparr>net_new = \<lambda>a l. if l \<le> LENGTH('w) then Some (Abs_net_doc (a, l)) else None,
      net_from_addr = \<lambda>a. Abs_net_doc (a, LENGTH('w)),
      net_addr = doc_addr,
      net_prefix_len = doc_len,
      net_network = \<lambda>n. doc_first (doc_addr n) (doc_len n),
      net_broadcast = \<lambda>n. doc_last (doc_addr n) (doc_len n),
      net_trunc = \<lambda>n. Abs_net_doc (doc_first (doc_addr n) (doc_len n), doc_len n),
      net_supernet = \<lambda>n. if doc_len n = 0 then None
        else Some (Abs_net_doc (doc_first (doc_addr n) (doc_len n - 1), doc_len n - 1)),
      net_contains = \<lambda>n m. doc_first (doc_addr n) (doc_len n) \<le> doc_first (doc_addr m) (doc_len m)
        \<and> doc_last (doc_addr m) (doc_len m) \<le> doc_last (doc_addr n) (doc_len n),
      net_le = \<lambda>n m. doc_addr n < doc_addr m \<or> doc_addr n = doc_addr m \<and> doc_len n \<le> doc_len m,
      net_from_str = parse\<rparr>"

subsection \<open>Prefixes as sets of addresses\<close>

definition net_addrs :: "('n, 'w::len) ipnet_ops \<Rightarrow> 'n \<Rightarrow> 'w word set" where
  "net_addrs N n = {a. net_network N n \<le> a \<and> a \<le> net_broadcast N n}"

fun ip_addrs :: "('n4, 'n6) nets \<Rightarrow> ('n4, 'n6) ip_prefix \<Rightarrow> ip_addr set" where
  "ip_addrs (N4, N6) (V4 p) = AddrV4 ` net_addrs N4 (v4_net p)"
| "ip_addrs (N4, N6) (V6 p) = AddrV6 ` net_addrs N6 (v6_net p)"

fun ip_canonical :: "('n4, 'n6) nets \<Rightarrow> ('n4, 'n6) ip_prefix \<Rightarrow> bool" where
  "ip_canonical (N4, N6) (V4 p) = net_canonical N4 (v4_net p)"
| "ip_canonical (N4, N6) (V6 p) = net_canonical N6 (v6_net p)"

fun ip_width :: "('n4, 'n6) nets \<Rightarrow> ('n4, 'n6) ip_prefix \<Rightarrow> nat" where
  "ip_width (N4, N6) (V4 p) = net_width N4 (v4_net p)"
| "ip_width (N4, N6) (V6 p) = net_width N6 (v6_net p)"

locale ipnet =
  fixes N :: "('n, 'w::len) ipnet_ops"
  assumes len_bound: "net_prefix_len N n \<le> LENGTH('w)"
    and new_valid: "l \<le> LENGTH('w) \<Longrightarrow>
      \<exists>n. net_new N a l = Some n \<and> net_addr N n = a \<and> net_prefix_len N n = l"
    and new_invalid: "l > LENGTH('w) \<Longrightarrow> net_new N a l = None"
    and net_ext: "net_addr N n = net_addr N m \<Longrightarrow> net_prefix_len N n = net_prefix_len N m \<Longrightarrow> n = m"
    and from_addr: "net_addr N (net_from_addr N a) = a"
      "net_prefix_len N (net_from_addr N a) = LENGTH('w)"
    and network: "unat (net_network N n) = net_index N n * 2 ^ net_width N n"
    and broadcast: "unat (net_broadcast N n) = unat (net_network N n) + (2 ^ net_width N n - 1)"
    and trunc: "net_addr N (net_trunc N n) = net_network N n"
      "net_prefix_len N (net_trunc N n) = net_prefix_len N n"
    and supernet_None: "net_supernet N n = None \<longleftrightarrow> net_prefix_len N n = 0"
    and supernet_Some: "net_supernet N n = Some s \<Longrightarrow>
      net_prefix_len N n = Suc (net_prefix_len N s) \<and> net_canonical N s \<and> net_contains N s n"
    and contains: "net_contains N n m \<longleftrightarrow>
      net_network N n \<le> net_network N m \<and> net_broadcast N m \<le> net_broadcast N n"
    and order: "net_le N n m \<longleftrightarrow>
      net_addr N n < net_addr N m
      \<or> net_addr N n = net_addr N m \<and> net_prefix_len N n \<le> net_prefix_len N m"
begin

lemma net_order: "btree_order (net_le N)"
  by unfold_locales (auto simp: order intro: net_ext)

lemma width_bound: "net_width N n \<le> LENGTH('w)"
  by (simp add: net_width_def)

lemma len_width: "net_prefix_len N n = LENGTH('w) - net_width N n"
  using len_bound [of n] by (simp add: net_width_def)

lemma block_addresses: "net_block N n = {unat (net_network N n)..unat (net_broadcast N n)}"
  by (simp add: net_block_def block_interval network broadcast)

lemma block_bound: "net_block N n \<subseteq> {..<2 ^ LENGTH('w)}"
proof
  fix x
  assume "x \<in> net_block N n"
  then have "x \<le> unat (net_broadcast N n)" by (simp add: block_addresses)
  also have "\<dots> < 2 ^ LENGTH('w)" by (rule unsigned_less)
  finally show "x \<in> {..<2 ^ LENGTH('w)}" by simp
qed

lemma network_le_broadcast: "net_network N n \<le> net_broadcast N n"
  unfolding word_le_nat_alt broadcast by (rule le_add1)

lemma contains_block: "net_contains N n m \<longleftrightarrow> net_block N m \<subseteq> net_block N n"
  using network_le_broadcast [of m] by (simp add: contains block_addresses word_le_nat_alt)

lemma canonical_addr: "net_canonical N n \<longleftrightarrow> unat (net_addr N n) = net_index N n * 2 ^ net_width N n"
  unfolding net_canonical_def by (metis network unsigned_word_eqI)

lemma block_inj:
  assumes "net_canonical N n" "net_canonical N m" "net_block N n = net_block N m"
  shows "n = m"
proof (rule net_ext)
  have w: "net_width N n = net_width N m"
    using assms(3) block_sub_width unfolding net_block_def by (metis order_refl le_antisym)
  then show "net_prefix_len N n = net_prefix_len N m" by (simp add: len_width)
  have "net_index N n = net_index N m"
    using assms(3) block_mem [of "net_index N n" "net_width N n"] unfolding net_block_def w
    by (simp add: block_def)
  with assms w show "net_addr N n = net_addr N m"
    by (metis canonical_addr unsigned_word_eqI)
qed

lemma sub_le:
  assumes "net_canonical N n" "net_canonical N m" "net_block N m \<subseteq> net_block N n"
  shows "net_le N n m"
proof -
  have "net_network N n \<le> net_network N m"
    using assms(3) contains_block contains by blast
  moreover have "net_width N m \<le> net_width N n"
    using assms(3) block_sub_width unfolding net_block_def by blast
  ultimately show ?thesis
    using assms(1,2) by (auto simp: order net_canonical_def len_width)
qed

lemma le_addr: "net_le N n m \<Longrightarrow> unat (net_addr N n) \<le> unat (net_addr N m)"
  by (auto simp: order word_less_nat_alt)

lemma addr_mem: "net_canonical N n \<Longrightarrow> unat (net_addr N n) \<in> net_block N n"
  by (simp add: net_block_def canonical_addr block_mem)

lemma between_meets:
  assumes "net_canonical N n" "net_canonical N r" "net_canonical N m"
    and "net_le N n r" "net_le N r m" "net_block N m \<subseteq> net_block N n"
  shows "net_block N r \<inter> net_block N n \<noteq> {}"
proof -
  have "unat (net_addr N m) \<in> net_block N n" "unat (net_addr N n) \<in> net_block N n"
    using addr_mem assms by auto
  then have "unat (net_addr N r) \<in> net_block N n"
    using le_addr [OF assms(4)] le_addr [OF assms(5)] by (auto simp: block_addresses)
  then show ?thesis using addr_mem [OF assms(2)] by auto
qed

lemma last_above:
  assumes "net_canonical N m" "net_block N m \<subseteq> net_block N n"
  shows "net_le N m (net_from_addr N (net_broadcast N n))"
proof -
  have "net_addr N m \<le> net_broadcast N n"
    using addr_mem [OF assms(1)] assms(2) by (auto simp: block_addresses word_le_nat_alt)
  then show ?thesis
    using len_bound [of m] by (auto simp: order from_addr)
qed

lemma from_addr_canonical: "net_canonical N (net_from_addr N a)"
  by (simp add: canonical_addr net_index_def net_width_def from_addr)

lemma from_addr_block: "net_block N (net_from_addr N a) = {unat a}"
  by (auto simp: net_block_def block_def net_index_def net_width_def from_addr)

lemma trunc_canonical: "net_canonical N (net_trunc N n)"
proof -
  have w: "net_width N (net_trunc N n) = net_width N n" by (simp add: net_width_def trunc)
  then show ?thesis by (simp add: canonical_addr net_index_def trunc network)
qed

lemma trunc_block: "net_block N (net_trunc N n) = net_block N n"
proof -
  have w: "net_width N (net_trunc N n) = net_width N n" by (simp add: net_width_def trunc)
  have "net_index N (net_trunc N n) = net_index N n"
    by (simp add: net_index_def w trunc network)
  then show ?thesis by (simp add: net_block_def w)
qed

text \<open>The neighbour of a network, made by flipping the last bit of the prefix.\<close>

lemma sibling_block:
  assumes "net_canonical N n" "net_prefix_len N n \<noteq> 0"
  obtains s where "net_new N (net_addr N n XOR push_bit (net_width N n) 1) (net_prefix_len N n) = Some s"
    and "net_canonical N s" "net_width N s = net_width N n" "net_index N s = flip (net_index N n)"
proof -
  let ?a = "net_addr N n XOR push_bit (net_width N n) 1"
  have w: "net_width N n < LENGTH('w)"
    using assms(2) len_bound [of n] by (simp add: net_width_def)
  obtain s where s: "net_new N ?a (net_prefix_len N n) = Some s" "net_addr N s = ?a"
      "net_prefix_len N s = net_prefix_len N n"
    using new_valid [OF len_bound] by blast
  have ws: "net_width N s = net_width N n" by (simp add: net_width_def s)
  have u: "unat ?a = unat (net_addr N n) XOR 2 ^ net_width N n"
    by (simp only: unsigned_xor_eq unat_bit [OF w])
  have i: "net_index N s = flip (net_index N n)"
    by (simp only: net_index_def ws s(2) u xor_bit_index)
  have "unat ?a mod 2 ^ net_width N n = 0"
    using assms(1) by (simp only: u xor_bit_low canonical_addr mod_mult_self2_is_0)
  then have "unat ?a = unat ?a div 2 ^ net_width N n * 2 ^ net_width N n"
    by (metis add_0_right div_mult_mod_eq)
  then have "net_canonical N s" by (simp only: canonical_addr net_index_def ws s(2))
  from that [OF s(1) this ws i] show ?thesis .
qed

lemma bifurcate_blocks:
  assumes "net_canonical N n" "net_prefix_len N n < LENGTH('w)"
  obtains e d where "net_new N (net_addr N n) (Suc (net_prefix_len N n)) = Some e"
    and "net_new N (net_addr N n OR drop_bit (net_prefix_len N n) (push_bit (LENGTH('w) - 1) 1))
           (Suc (net_prefix_len N n)) = Some d"
    and "net_canonical N e" "net_canonical N d"
    and "net_width N n = Suc (net_width N e)" "net_width N d = net_width N e"
    and "net_index N e = 2 * net_index N n" "net_index N d = Suc (2 * net_index N n)"
proof -
  let ?l = "net_prefix_len N n" and ?w = "LENGTH('w) - Suc (net_prefix_len N n)"
  let ?a = "net_addr N n" and ?b = "net_addr N n OR drop_bit (net_prefix_len N n) (push_bit (LENGTH('w) - 1) 1)"
  have "Suc ?l \<le> LENGTH('w)" using assms(2) by simp
  then obtain e d where e: "net_new N ?a (Suc ?l) = Some e" "net_addr N e = ?a" "net_prefix_len N e = Suc ?l"
    and d: "net_new N ?b (Suc ?l) = Some d" "net_addr N d = ?b" "net_prefix_len N d = Suc ?l"
    using new_valid by metis
  have w: "net_width N e = ?w" "net_width N d = ?w" "net_width N n = Suc ?w"
    using assms(2) by (simp_all add: net_width_def e d)
  have a: "unat ?a = (2 * net_index N n) * 2 ^ ?w"
    using assms(1) by (simp add: canonical_addr w)
  then have ae: "unat ?a div 2 ^ ?w = 2 * net_index N n" "unat ?a mod 2 ^ ?w = 0" by simp_all
  have b: "unat ?b = unat ?a OR 2 ^ ?w"
    by (simp only: unsigned_or_eq unat_top_bit_shifted [OF assms(2)])
  have bd: "unat ?b div 2 ^ ?w = Suc (2 * net_index N n)" "unat ?b mod 2 ^ ?w = 0"
    by (simp_all only: b or_bit_index or_bit_low ae dvd_triv_left)
  have split: "x = x div 2 ^ ?w * 2 ^ ?w" if "x mod 2 ^ ?w = 0" for x :: nat
    using that by (metis add_0_right div_mult_mod_eq)
  have "net_canonical N e" "net_canonical N d"
    using split [OF ae(2)] split [OF bd(2)] by (simp_all only: canonical_addr net_index_def w e(2) d(2))
  then show ?thesis
    by (intro that [OF e(1) d(1)]) (simp_all only: w net_index_def e(2) d(2) ae bd)
qed

lemma supernet_block:
  assumes "net_supernet N n = Some s"
  shows "net_canonical N s" "net_width N s = Suc (net_width N n)" "net_index N s = net_index N n div 2"
proof -
  from supernet_Some [OF assms]
  have l: "net_prefix_len N n = Suc (net_prefix_len N s)" and c: "net_contains N s n"
    and "net_canonical N s" by auto
  then show "net_canonical N s" by simp
  show w: "net_width N s = Suc (net_width N n)"
    using l len_bound [of n] by (simp add: net_width_def)
  from c have "net_block N n \<subseteq> net_block N s" by (simp add: contains_block)
  then show "net_index N s = net_index N n div 2"
    using block_sub [of "net_width N n" "net_width N s"] unfolding net_block_def w by simp
qed

lemma supernet_siblings:
  assumes "net_width N m = net_width N n" "net_index N m = flip (net_index N n)" "net_prefix_len N n \<noteq> 0"
  obtains u where "net_supernet N n = Some u" "net_supernet N m = Some u"
    and "net_canonical N u" "net_block N u = net_block N n \<union> net_block N m"
proof -
  have "net_prefix_len N m \<noteq> 0" using assms by (simp add: len_width)
  then obtain u v where u: "net_supernet N n = Some u" and v: "net_supernet N m = Some v"
    using assms(3) supernet_None by (metis option.exhaust)
  note su = supernet_block [OF u] and sv = supernet_block [OF v]
  have "flip (net_index N n) div 2 = net_index N n div 2" using flip_sibling by blast
  then have "net_block N v = net_block N u"
    by (simp add: net_block_def su sv assms)
  then have "v = u" using block_inj su(1) sv(1) by blast
  moreover have "net_block N u = net_block N n \<union> net_block N m"
    using block_parent [of "net_index N n" "net_width N n"] by (simp add: net_block_def su assms)
  ultimately show ?thesis using that u v su(1) by blast
qed

lemma block_strict_parent:
  assumes "net_block N n \<subset> net_block N m"
  shows "block (net_index N n div 2) (Suc (net_width N n)) \<subseteq> net_block N m"
  using block_least_parent assms unfolding net_block_def by blast

lemma full_is_top: "net_prefix_len N n = 0 \<Longrightarrow> \<not> net_block N n \<subset> net_block N m"
proof
  assume z: "net_prefix_len N n = 0" and s: "net_block N n \<subset> net_block N m"
  have "Suc (net_width N n) \<le> net_width N m"
    using block_strict_parent [OF s] block_sub_width unfolding net_block_def by blast
  then show False using z width_bound [of m] by (simp add: net_width_def)
qed

lemma strict_width: "net_block N n \<subset> net_block N m \<Longrightarrow> net_width N n < net_width N m"
  using block_strict_parent block_sub_width unfolding net_block_def by (metis Suc_le_eq)

end

lemma doc_len_bound: "doc_len (n :: 'w::len net_doc) \<le> LENGTH('w)"
  using Rep_net_doc [of n] by (auto simp: doc_len_def)

lemma doc_simps [simp]:
  assumes "l \<le> LENGTH('w::len)"
  shows "doc_addr (Abs_net_doc (a :: 'w word, l)) = a" "doc_len (Abs_net_doc (a :: 'w word, l)) = l"
  using Abs_net_doc_inverse [of "(a, l)"] assms by (simp_all add: doc_addr_def doc_len_def)

lemma block_fits:
  assumes "w \<le> W" "a < 2 ^ W"
  shows "a div 2 ^ w * 2 ^ w + (2 ^ w - 1) < (2 ^ W :: nat)"
proof -
  have "a div 2 ^ w < 2 ^ (W - w)"
    using assms by (simp add: div_less_iff_less_mult flip: power_add)
  then have "Suc (a div 2 ^ w) * 2 ^ w \<le> 2 ^ (W - w) * 2 ^ w" by (intro mult_le_mono1) simp
  also have "\<dots> = 2 ^ W" using assms(1) by (simp flip: power_add)
  finally have "a div 2 ^ w * 2 ^ w + 2 ^ w \<le> 2 ^ W" by simp
  moreover have "0 < (2::nat) ^ w" by simp
  ultimately show ?thesis by linarith
qed

lemma unat_bound: "unat (a :: 'w::len word) < 2 ^ LENGTH('w)"
  by (rule unsigned_less)

lemma unat_small: "n < 2 ^ LENGTH('w::len) \<Longrightarrow> unat (word_of_nat n :: 'w word) = n"
  by (simp add: unat_of_nat)

lemma unat_doc_first:
  "unat (doc_first a l :: 'w::len word) = unat a div 2 ^ (LENGTH('w) - l) * 2 ^ (LENGTH('w) - l)"
  unfolding doc_first_def
  using block_fits [of "LENGTH('w) - l" "LENGTH('w)" "unat a"] unat_bound [of a]
  by (intro unat_small) linarith

lemma unat_doc_last:
  "unat (doc_last a l :: 'w::len word) = unat (doc_first a l) + (2 ^ (LENGTH('w) - l) - 1)"
  unfolding doc_last_def unat_doc_first
  by (intro unat_small block_fits diff_le_self unat_bound)

lemma doc_supernet:
  assumes "l \<noteq> 0" "l \<le> LENGTH('w)"
  shows "doc_first a (l - 1) \<le> doc_first (a :: 'w::len word) l"
    and "doc_last a l \<le> doc_last a (l - 1)"
    and "doc_first (doc_first a (l - 1)) (l - 1) = doc_first a (l - 1)"
    and "doc_last (doc_first a (l - 1)) (l - 1) = doc_last a (l - 1)"
proof -
  define w where "w = LENGTH('w) - l"
  define y where "y = unat a div 2 ^ w"
  have w: "LENGTH('w) - (l - 1) = Suc w" using assms by (simp add: w_def)
  have y: "unat a div 2 ^ Suc w = y div 2" unfolding y_def by (simp only: power_Suc2 div_mult2_eq)
  have f: "unat (doc_first a l) = y * 2 ^ w" "unat (doc_first a (l - 1)) = 2 * (y div 2) * 2 ^ w"
    by (simp_all only: unat_doc_first w y flip: w_def y_def) simp
  have "2 * (y div 2) \<le> y" "y \<le> Suc (2 * (y div 2))" by simp_all
  then have m: "2 * (y div 2) * 2 ^ w \<le> y * 2 ^ w" "y * 2 ^ w \<le> Suc (2 * (y div 2)) * 2 ^ w"
    by (simp_all only: mult_le_mono1)
  then show "doc_first a (l - 1) \<le> doc_first a l" by (simp only: word_le_nat_alt f)
  have "0 < (2::nat) ^ w" by simp
  then have "y * 2 ^ w + (2 ^ w - 1) \<le> 2 * (y div 2) * 2 ^ w + (2 ^ Suc w - 1)"
    using m(2) unfolding mult_Suc power_Suc by linarith
  then show "doc_last a l \<le> doc_last a (l - 1)"
    by (simp only: word_le_nat_alt unat_doc_last f w flip: w_def)
  have "unat (doc_first (doc_first a (l - 1)) (l - 1)) = unat (doc_first a (l - 1))"
    unfolding unat_doc_first by simp
  then show i: "doc_first (doc_first a (l - 1)) (l - 1) = doc_first a (l - 1)" by (rule unsigned_word_eqI)
  have "unat (doc_last (doc_first a (l - 1)) (l - 1)) = unat (doc_last a (l - 1))"
    by (simp only: unat_doc_last i)
  then show "doc_last (doc_first a (l - 1)) (l - 1) = doc_last a (l - 1)" by (rule unsigned_word_eqI)
qed

lemma ipnet_doc_selectors [simp]:
  fixes parse :: "string \<Rightarrow> 'w::len net_doc option"
  shows "net_new (ipnet_doc parse) a l = (if l \<le> LENGTH('w) then Some (Abs_net_doc (a, l)) else None)"
    "net_from_addr (ipnet_doc parse) a = Abs_net_doc (a, LENGTH('w))"
    "net_addr (ipnet_doc parse) = doc_addr"
    "net_prefix_len (ipnet_doc parse) = doc_len"
    "net_network (ipnet_doc parse) n = doc_first (doc_addr n) (doc_len n)"
    "net_broadcast (ipnet_doc parse) n = doc_last (doc_addr n) (doc_len n)"
    "net_trunc (ipnet_doc parse) n = Abs_net_doc (doc_first (doc_addr n) (doc_len n), doc_len n)"
    "net_supernet (ipnet_doc parse) n = (if doc_len n = 0 then None
        else Some (Abs_net_doc (doc_first (doc_addr n) (doc_len n - 1), doc_len n - 1)))"
    "net_contains (ipnet_doc parse) n m \<longleftrightarrow>
       doc_first (doc_addr n) (doc_len n) \<le> doc_first (doc_addr m) (doc_len m)
       \<and> doc_last (doc_addr m) (doc_len m) \<le> doc_last (doc_addr n) (doc_len n)"
    "net_le (ipnet_doc parse) n m \<longleftrightarrow> doc_addr n < doc_addr m \<or> doc_addr n = doc_addr m \<and> doc_len n \<le> doc_len m"
  by (simp_all add: ipnet_doc_def)

interpretation doc: ipnet "ipnet_doc parse" for parse :: "string \<Rightarrow> 'w::len net_doc option"
proof unfold_locales
  fix n m s :: "'w net_doc" and a :: "'w word" and l
  let ?N = "ipnet_doc parse"
  note b = doc_len_bound
  show "net_prefix_len ?N n \<le> LENGTH('w)" by (simp add: b)
  show "l \<le> LENGTH('w) \<Longrightarrow> \<exists>n. net_new ?N a l = Some n \<and> net_addr ?N n = a \<and> net_prefix_len ?N n = l" by simp
  show "l > LENGTH('w) \<Longrightarrow> net_new ?N a l = None" by simp
  show "net_addr ?N n = net_addr ?N m \<Longrightarrow> net_prefix_len ?N n = net_prefix_len ?N m \<Longrightarrow> n = m"
    by (simp add: doc_addr_def doc_len_def prod_eq_iff flip: Rep_net_doc_inject)
  show "net_addr ?N (net_from_addr ?N a) = a" "net_prefix_len ?N (net_from_addr ?N a) = LENGTH('w)" by simp_all
  show "unat (net_network ?N n) = net_index ?N n * 2 ^ net_width ?N n"
    by (simp add: unat_doc_first net_index_def net_width_def)
  show "unat (net_broadcast ?N n) = unat (net_network ?N n) + (2 ^ net_width ?N n - 1)"
    by (simp add: unat_doc_last net_width_def)
  show "net_addr ?N (net_trunc ?N n) = net_network ?N n" "net_prefix_len ?N (net_trunc ?N n) = net_prefix_len ?N n"
    by (simp_all add: b)
  show "net_supernet ?N n = None \<longleftrightarrow> net_prefix_len ?N n = 0" by simp
  show "net_contains ?N n m \<longleftrightarrow> net_network ?N n \<le> net_network ?N m \<and> net_broadcast ?N m \<le> net_broadcast ?N n" by simp
  show "net_le ?N n m \<longleftrightarrow> net_addr ?N n < net_addr ?N m
      \<or> net_addr ?N n = net_addr ?N m \<and> net_prefix_len ?N n \<le> net_prefix_len ?N m" by simp
  show "net_prefix_len ?N n = Suc (net_prefix_len ?N s) \<and> net_canonical ?N s \<and> net_contains ?N s n"
    if "net_supernet ?N n = Some s"
  proof -
    from that have z: "doc_len n \<noteq> 0" and s: "s = Abs_net_doc (doc_first (doc_addr n) (doc_len n - 1), doc_len n - 1)"
      by (auto split: if_splits)
    have "doc_len n - 1 \<le> LENGTH('w)" using b [of n] by simp
    then have "doc_addr s = doc_first (doc_addr n) (doc_len n - 1)" "doc_len s = doc_len n - 1"
      unfolding s by (rule doc_simps)+
    then show ?thesis
      using doc_supernet [OF z b, of "doc_addr n"] z by (simp add: net_canonical_def)
  qed
qed

locale prefix_space = btree_order le for le :: "'p \<Rightarrow> 'p \<Rightarrow> bool" +
  fixes contains :: "'p \<Rightarrow> 'p \<Rightarrow> bool"
    and sibling :: "'p \<Rightarrow> 'p option option"
    and bifurcate :: "'p \<Rightarrow> ('p \<times> 'p) option option"
    and last_sub :: "'p \<Rightarrow> 'p"
    and aggregate :: "'p \<Rightarrow> 'p \<Rightarrow> 'p option"
    and ok :: "'p \<Rightarrow> bool"
    and addrs :: "'p \<Rightarrow> 'x set"
    and width :: "'p \<Rightarrow> nat"
  assumes contains_addrs: "ok p \<Longrightarrow> ok q \<Longrightarrow> contains p q \<longleftrightarrow> addrs q \<subseteq> addrs p"
    and addrs_nonempty: "ok p \<Longrightarrow> addrs p \<noteq> {}"
    and addrs_inj: "ok p \<Longrightarrow> ok q \<Longrightarrow> addrs p = addrs q \<Longrightarrow> p = q"
    and laminar: "ok p \<Longrightarrow> ok q \<Longrightarrow> addrs p \<inter> addrs q = {} \<or> addrs p \<subseteq> addrs q \<or> addrs q \<subseteq> addrs p"
    and strict_width: "ok p \<Longrightarrow> ok q \<Longrightarrow> addrs p \<subset> addrs q \<Longrightarrow> width p < width q"
    and sub_le: "ok p \<Longrightarrow> ok q \<Longrightarrow> addrs q \<subseteq> addrs p \<Longrightarrow> le p q"
    and between_meets: "ok p \<Longrightarrow> ok q \<Longrightarrow> ok r \<Longrightarrow> le p r \<Longrightarrow> le r q \<Longrightarrow> addrs q \<subseteq> addrs p
      \<Longrightarrow> addrs r \<inter> addrs p \<noteq> {}"
    and last_above: "ok p \<Longrightarrow> ok q \<Longrightarrow> addrs q \<subseteq> addrs p \<Longrightarrow> le q (last_sub p)"
    and sibling_total: "ok p \<Longrightarrow> sibling p \<noteq> None"
    and sibling_none: "ok p \<Longrightarrow> ok q \<Longrightarrow> sibling p = Some None \<Longrightarrow> \<not> addrs p \<subset> addrs q"
    and sibling_some: "ok p \<Longrightarrow> sibling p = Some (Some s) \<Longrightarrow>
      ok s \<and> sibling s = Some (Some p) \<and> addrs p \<inter> addrs s = {} \<and> width s = width p"
    and sibling_parent: "ok p \<Longrightarrow> sibling p = Some (Some s) \<Longrightarrow>
      \<exists>u. aggregate p s = Some u \<and> ok u \<and> addrs u = addrs p \<union> addrs s"
    and aggregate_exact: "ok p \<Longrightarrow> ok q \<Longrightarrow> aggregate p q = Some u \<Longrightarrow> ok u \<and> addrs u = addrs p \<union> addrs q"
    and aggregate_nested: "ok p \<Longrightarrow> ok q \<Longrightarrow> addrs p \<subseteq> addrs q \<or> addrs q \<subseteq> addrs p \<Longrightarrow> aggregate p q \<noteq> None"
    and parent_least: "ok p \<Longrightarrow> ok q \<Longrightarrow> sibling p = Some (Some s) \<Longrightarrow> addrs p \<subset> addrs q
      \<Longrightarrow> addrs p \<union> addrs s \<subseteq> addrs q"
    and bifurcate_parts: "ok p \<Longrightarrow> ok q \<Longrightarrow> addrs q \<subset> addrs p \<Longrightarrow>
      \<exists>c1 c2. bifurcate p = Some (Some (c1, c2)) \<and> ok c1 \<and> ok c2 \<and>
        addrs c1 \<union> addrs c2 = addrs p \<and> sibling c1 = Some (Some c2)"
begin

lemma sub_cases:
  assumes "ok p" "ok q" "addrs p \<inter> addrs q \<noteq> {}"
  obtains "addrs p \<subset> addrs q" | "p = q" | "addrs q \<subset> addrs p"
  using laminar [OF assms(1,2)] assms addrs_inj by blast

text \<open>
  Prefixes that share no address and among which no two are neighbours cover a prefix
  only if one of them contains it.
\<close>

lemma cover_single:
  assumes fin: "finite P" and ok: "\<forall>q\<in>P. ok q" "ok p"
    and disj: "\<forall>q\<in>P. \<forall>r\<in>P. q \<noteq> r \<longrightarrow> addrs q \<inter> addrs r = {}"
    and sib: "\<forall>q\<in>P. \<forall>s\<in>P. sibling q \<noteq> Some (Some s)"
    and cover: "addrs p \<subseteq> \<Union> (addrs ` P)"
  shows "\<exists>q\<in>P. addrs p \<subseteq> addrs q"
proof (rule ccontr)
  assume none: "\<not> (\<exists>q\<in>P. addrs p \<subseteq> addrs q)"
  define Q where "Q = {q \<in> P. addrs q \<inter> addrs p \<noteq> {}}"
  have inside: "addrs q \<subset> addrs p" if "q \<in> Q" for q
    using that none laminar [of q p] ok unfolding Q_def by blast
  have "Q \<noteq> {}" using cover addrs_nonempty [OF ok(2)] unfolding Q_def by blast
  then obtain q where q: "q \<in> Q" and least: "\<And>r. r \<in> Q \<Longrightarrow> width q \<le> width r"
    using ex_has_least_nat [of "\<lambda>q. q \<in> Q" _ width] by (metis ex_in_conv)
  have qP: "q \<in> P" and qok: "ok q" using q ok unfolding Q_def by auto
  obtain s where s: "sibling q = Some (Some s)"
    using sibling_none [OF qok ok(2)] sibling_total [OF qok] inside [OF q] by (metis option.exhaust)
  from sibling_some [OF qok s] have sok: "ok s" and bk: "sibling s = Some (Some q)"
    and apart: "addrs q \<inter> addrs s = {}" and sw: "width s = width q" by simp_all
  have sp: "addrs s \<subseteq> addrs p" using parent_least [OF qok ok(2) s inside [OF q]] by blast
  obtain x where x: "x \<in> addrs s" using addrs_nonempty [OF sok] by blast
  with sp cover obtain r where r: "r \<in> P" "x \<in> addrs r" by blast
  have rok: "ok r" using ok r by blast
  have "addrs r \<inter> addrs s \<noteq> {}" using x r(2) by blast
  from this consider "addrs r \<subset> addrs s" | "r = s" | "addrs s \<subset> addrs r"
    using sub_cases [OF rok sok] by metis
  then show False
  proof cases
    case 1
    then have "width r < width s" by (rule strict_width [OF rok sok])
    then have "width r < width q" using sw by simp
    moreover have "r \<in> Q" using r sp x unfolding Q_def by blast
    ultimately show False using least by fastforce
  next
    case 2
    then show False using sib qP r(1) s by auto
  next
    case 3
    have "addrs s \<union> addrs q \<subseteq> addrs r" by (rule parent_least [OF sok rok bk 3])
    then have "addrs r \<inter> addrs q \<noteq> {}" using addrs_nonempty [OF qok] by blast
    then have "r = q" using disj qP r(1) by blast
    then show False using 3 apart x by blast
  qed
qed

text \<open>Only neighbours and nested prefixes can be written as one prefix.\<close>

lemma union_sibling:
  assumes "ok p" "ok q" "ok u" "addrs u = addrs p \<union> addrs q" "addrs p \<inter> addrs q = {}"
  shows "sibling p = Some (Some q)"
proof -
  have pu: "addrs p \<subset> addrs u" and qu: "addrs q \<subset> addrs u"
    using assms addrs_nonempty by blast+
  obtain s where s: "sibling p = Some (Some s)"
    using pu sibling_none [of p u] sibling_total [of p] assms(1,3) by (metis option.exhaust)
  note ss = sibling_some [OF assms(1) s]
  have "addrs s \<subseteq> addrs q"
    using parent_least [OF assms(1,3) s pu] ss assms(4) by blast
  moreover have "\<not> addrs s \<subset> addrs q"
  proof
    assume "addrs s \<subset> addrs q"
    then have "addrs s \<union> addrs p \<subseteq> addrs q" using parent_least ss assms(2) by blast
    then show False using assms(1,5) addrs_nonempty by blast
  qed
  ultimately have "s = q" using addrs_inj ss assms(2) by blast
  then show ?thesis using s by simp
qed

lemma aggregate_iff:
  assumes "ok p" "ok q"
  shows "aggregate p q = Some u \<longleftrightarrow> ok u \<and> addrs u = addrs p \<union> addrs q"
proof
  assume "aggregate p q = Some u"
  then show "ok u \<and> addrs u = addrs p \<union> addrs q" using aggregate_exact assms by blast
next
  assume u: "ok u \<and> addrs u = addrs p \<union> addrs q"
  have "aggregate p q \<noteq> None"
  proof (cases "addrs p \<inter> addrs q = {}")
    case True
    then have "sibling p = Some (Some q)" using union_sibling assms u by blast
    then show ?thesis using sibling_parent [OF assms(1)] by auto
  next
    case False
    then show ?thesis using laminar [OF assms] aggregate_nested [OF assms] by blast
  qed
  then obtain v where "aggregate p q = Some v" by blast
  then show "aggregate p q = Some u"
    using aggregate_exact [OF assms] u addrs_inj by blast
qed

end

context ipnet
begin

lemma addrs_block: "unat ` net_addrs N n = net_block N n"
proof
  show "unat ` net_addrs N n \<subseteq> net_block N n"
    by (auto simp: net_addrs_def block_addresses word_le_nat_alt)
  show "net_block N n \<subseteq> unat ` net_addrs N n"
  proof
    fix x assume x: "x \<in> net_block N n"
    then have "unat (word_of_nat x :: 'w word) = x" using block_bound by (intro unat_small) auto
    with x show "x \<in> unat ` net_addrs N n"
      by (intro image_eqI [of _ _ "word_of_nat x"]) (auto simp: net_addrs_def block_addresses word_le_nat_alt)
  qed
qed

lemma unat_inj: "inj_on unat (S :: 'w word set)"
  by (auto intro!: inj_onI unsigned_word_eqI)

lemma addrs_sub: "net_addrs N n \<subseteq> net_addrs N m \<longleftrightarrow> net_block N n \<subseteq> net_block N m"
  unfolding addrs_block [symmetric] by (simp add: inj_image_subset_iff [OF unat_inj])

lemma contains_addrs: "net_contains N n m \<longleftrightarrow> net_addrs N m \<subseteq> net_addrs N n"
  by (simp add: contains_block addrs_sub)

lemma addrs_eq: "net_addrs N n = net_addrs N m \<longleftrightarrow> net_block N n = net_block N m"
  using addrs_sub by blast

lemma addrs_psub: "net_addrs N n \<subset> net_addrs N m \<longleftrightarrow> net_block N n \<subset> net_block N m"
  using addrs_sub by blast

lemma addrs_disjoint: "net_addrs N n \<inter> net_addrs N m = {} \<longleftrightarrow> net_block N n \<inter> net_block N m = {}"
  unfolding addrs_block [symmetric] image_Int [OF unat_inj, symmetric] by simp

lemma addrs_union: "net_addrs N u = net_addrs N n \<union> net_addrs N m \<longleftrightarrow> net_block N u = net_block N n \<union> net_block N m"
  unfolding addrs_block [symmetric] image_Un [symmetric] by (simp add: inj_image_eq_iff [OF unat_inj])

lemmas addrs_blocks = addrs_sub addrs_eq addrs_psub addrs_disjoint addrs_union

lemma from_addr_addrs: "net_addrs N (net_from_addr N a) = {a}"
proof -
  have "unat ` net_addrs N (net_from_addr N a) = unat ` {a}" by (simp add: addrs_block from_addr_block)
  then show ?thesis by (simp only: inj_image_eq_iff [OF unat_inj])
qed

lemma laminar_addrs:
  "net_addrs N n \<inter> net_addrs N m = {} \<or> net_addrs N n \<subseteq> net_addrs N m \<or> net_addrs N m \<subseteq> net_addrs N n"
  unfolding addrs_blocks unfolding net_block_def by (rule block_laminar)

lemma addrs_ne: "net_addrs N n \<noteq> {}"
  using network_le_broadcast [of n] by (auto simp: net_addrs_def)

lemma sibling_addrs:
  assumes "net_canonical N n" "net_prefix_len N n \<noteq> 0"
    and "net_new N (net_addr N n XOR push_bit (net_width N n) 1) (net_prefix_len N n) = Some s"
  shows "net_canonical N s" "net_prefix_len N s = net_prefix_len N n" "net_width N s = net_width N n"
    "net_index N s = flip (net_index N n)"
    "net_addrs N n \<inter> net_addrs N s = {}"
    "net_canonical N m \<Longrightarrow> net_addrs N n \<subset> net_addrs N m \<Longrightarrow> net_addrs N s \<subseteq> net_addrs N m"
    "net_new N (net_addr N s XOR push_bit (net_width N s) 1) (net_prefix_len N s) = Some n"
proof -
  from sibling_block [OF assms(1,2)] assms(3)
  show c: "net_canonical N s" and w: "net_width N s = net_width N n" and i: "net_index N s = flip (net_index N n)"
    by (metis option.inject)+
  show l: "net_prefix_len N s = net_prefix_len N n" by (simp add: len_width w)
  have p: "block (net_index N n div 2) (Suc (net_width N n)) = net_block N n \<union> net_block N s"
    using block_parent [of "net_index N n" "net_width N n"] by (simp add: net_block_def w i)
  show "net_addrs N n \<inter> net_addrs N s = {}"
    unfolding addrs_blocks unfolding net_block_def w i by (rule block_flip_disjoint)
  show "net_canonical N m \<Longrightarrow> net_addrs N n \<subset> net_addrs N m \<Longrightarrow> net_addrs N s \<subseteq> net_addrs N m"
    unfolding addrs_blocks using block_strict_parent p by blast
  from sibling_block [OF c] assms(2) obtain t where
    t: "net_new N (net_addr N s XOR push_bit (net_width N s) 1) (net_prefix_len N s) = Some t"
      "net_canonical N t" "net_width N t = net_width N s" "net_index N t = flip (net_index N s)"
    by (metis l)
  then have "net_block N t = net_block N n" by (simp add: net_block_def w i)
  then have "t = n" using block_inj t(2) assms(1) by blast
  with t(1) show "net_new N (net_addr N s XOR push_bit (net_width N s) 1) (net_prefix_len N s) = Some n" by simp
qed

lemma parts_addrs:
  assumes "net_canonical N n" and l: "net_prefix_len N n < LENGTH('w)"
  obtains e d where "net_new N (net_addr N n) (Suc (net_prefix_len N n)) = Some e"
    and "net_new N (net_addr N n OR drop_bit (net_prefix_len N n) (push_bit (LENGTH('w) - 1) 1))
           (Suc (net_prefix_len N n)) = Some d"
    and "net_canonical N e" "net_canonical N d" "net_addrs N n = net_addrs N e \<union> net_addrs N d"
    and "net_prefix_len N e \<noteq> 0"
    and "net_new N (net_addr N e XOR push_bit (net_width N e) 1) (net_prefix_len N e) = Some d"
proof -
  obtain e d where new: "net_new N (net_addr N n) (Suc (net_prefix_len N n)) = Some e"
      "net_new N (net_addr N n OR drop_bit (net_prefix_len N n) (push_bit (LENGTH('w) - 1) 1))
           (Suc (net_prefix_len N n)) = Some d"
    and c: "net_canonical N e" "net_canonical N d"
    and w: "net_width N n = Suc (net_width N e)" "net_width N d = net_width N e"
    and i: "net_index N e = 2 * net_index N n" "net_index N d = Suc (2 * net_index N n)"
    using bifurcate_blocks [OF assms(1) l] by blast
  have f: "net_index N d = flip (net_index N e)" by (simp add: i flip_eq)
  have u: "net_addrs N n = net_addrs N e \<union> net_addrs N d"
    unfolding addrs_blocks using block_parent [of "net_index N e" "net_width N e"]
    by (simp add: net_block_def w f) (simp add: i)
  have z: "net_prefix_len N e \<noteq> 0"
    using w(1) width_bound [of n] by (simp add: len_width)
  obtain t where t: "net_new N (net_addr N e XOR push_bit (net_width N e) 1) (net_prefix_len N e) = Some t"
      "net_canonical N t" "net_width N t = net_width N e" "net_index N t = flip (net_index N e)"
    using sibling_block [OF c(1) z] by blast
  then have "net_block N t = net_block N d" by (simp add: net_block_def w f)
  then have "t = d" using block_inj t(2) c(2) by blast
  with t(1) have "net_new N (net_addr N e XOR push_bit (net_width N e) 1) (net_prefix_len N e) = Some d" by simp
  from that [OF new c u z this] show ?thesis .
qed

lemma strict_len: "net_addrs N m \<subset> net_addrs N n \<Longrightarrow> net_prefix_len N n < LENGTH('w)"
  using strict_width [of m n] unfolding addrs_blocks by (simp add: net_width_def)

lemma same_supernet_addrs:
  assumes "net_supernet N n = Some u" "net_supernet N m = Some u" "\<not> net_contains N n m"
  shows "net_canonical N u" "net_addrs N u = net_addrs N n \<union> net_addrs N m"
proof -
  note n = supernet_block [OF assms(1)] and m = supernet_block [OF assms(2)]
  show "net_canonical N u" by (rule n)
  have w: "net_width N m = net_width N n" using n(2) m(2) by simp
  have "net_index N m \<noteq> net_index N n" using assms(3) w by (auto simp: contains_block net_block_def)
  moreover have "net_index N m div 2 = net_index N n div 2" using n(3) m(3) by simp
  ultimately have "net_index N m = flip (net_index N n)" using flip_sibling by blast
  then have "net_block N n \<union> net_block N m = net_block N u"
    using block_parent [of "net_index N n" "net_width N n"] by (simp add: net_block_def w n)
  then show "net_addrs N u = net_addrs N n \<union> net_addrs N m" unfolding addrs_blocks by simp
qed

lemma supernet_addrs:
  assumes "net_canonical N n" "net_prefix_len N n \<noteq> 0"
    and "net_new N (net_addr N n XOR push_bit (net_width N n) 1) (net_prefix_len N n) = Some s"
  obtains u where "net_supernet N n = Some u" "net_supernet N s = Some u"
    and "net_canonical N u" "net_addrs N u = net_addrs N n \<union> net_addrs N s"
  using supernet_siblings [OF sibling_addrs(3,4) [OF assms] assms(2)] unfolding addrs_blocks by blast

end

locale ip_nets = v4: ipnet N4 + v6: ipnet N6
  for N4 :: "('n4, 32) ipnet_ops" and N6 :: "('n6, 128) ipnet_ops"
begin

lemma v4_sibling:
  "v4_get_sibling N4 p =
     (if net_prefix_len N4 (v4_net p) = 0 then Some None
      else map_option (\<lambda>s. Some (Ipv4Prefix s))
        (net_new N4 (net_addr N4 (v4_net p) XOR push_bit (net_width N4 (v4_net p)) 1) (net_prefix_len N4 (v4_net p))))"
  using v4.len_bound [of "v4_net p"] by (simp add: v4_get_sibling_def net_width_def Let_def)

lemma v6_sibling:
  "v6_get_sibling N6 p =
     (if net_prefix_len N6 (v6_net p) = 0 then Some None
      else map_option (\<lambda>s. Some (Ipv6Prefix s))
        (net_new N6 (net_addr N6 (v6_net p) XOR push_bit (net_width N6 (v6_net p)) 1) (net_prefix_len N6 (v6_net p))))"
  using v6.len_bound [of "v6_net p"] by (simp add: v6_get_sibling_def net_width_def Let_def)

lemma top_bit: "push_bit (LENGTH(32) - 1) 1 = (0x80000000 :: 32 word)"
  "push_bit (LENGTH(128) - 1) 1 = (0x80000000000000000000000000000000 :: 128 word)"
  by (simp_all add: push_bit_eq_mult)

lemma v4_parts:
  assumes "net_canonical N4 (v4_net p)" and l: "net_prefix_len N4 (v4_net p) < LENGTH(32)"
  obtains e d where "v4_bifurcate N4 p = Some (Some (e, d))"
    and "net_canonical N4 (v4_net e)" "net_canonical N4 (v4_net d)"
    and "net_addrs N4 (v4_net p) = net_addrs N4 (v4_net e) \<union> net_addrs N4 (v4_net d)"
    and "v4_get_sibling N4 e = Some (Some d)"
proof (rule v4.parts_addrs [OF assms])
  fix e d
  assume new: "net_new N4 (net_addr N4 (v4_net p)) (Suc (net_prefix_len N4 (v4_net p))) = Some e"
      "net_new N4 (net_addr N4 (v4_net p) OR drop_bit (net_prefix_len N4 (v4_net p)) (push_bit (LENGTH(32) - 1) 1))
           (Suc (net_prefix_len N4 (v4_net p))) = Some d"
    and r: "net_canonical N4 e" "net_canonical N4 d" "net_addrs N4 (v4_net p) = net_addrs N4 e \<union> net_addrs N4 d"
    and s: "net_prefix_len N4 e \<noteq> 0"
      "net_new N4 (net_addr N4 e XOR push_bit (net_width N4 e) 1) (net_prefix_len N4 e) = Some d"
  have "v4_bifurcate N4 p = Some (Some (Ipv4Prefix e, Ipv4Prefix d))"
    using l new [unfolded top_bit] by (simp add: v4_bifurcate_def Let_def)
  with r s show thesis by (intro that [of "Ipv4Prefix e" "Ipv4Prefix d"]) (simp_all add: v4_sibling)
qed

lemma v6_parts:
  assumes "net_canonical N6 (v6_net p)" and l: "net_prefix_len N6 (v6_net p) < LENGTH(128)"
  obtains e d where "v6_bifurcate N6 p = Some (Some (e, d))"
    and "net_canonical N6 (v6_net e)" "net_canonical N6 (v6_net d)"
    and "net_addrs N6 (v6_net p) = net_addrs N6 (v6_net e) \<union> net_addrs N6 (v6_net d)"
    and "v6_get_sibling N6 e = Some (Some d)"
proof (rule v6.parts_addrs [OF assms])
  fix e d
  assume new: "net_new N6 (net_addr N6 (v6_net p)) (Suc (net_prefix_len N6 (v6_net p))) = Some e"
      "net_new N6 (net_addr N6 (v6_net p) OR drop_bit (net_prefix_len N6 (v6_net p)) (push_bit (LENGTH(128) - 1) 1))
           (Suc (net_prefix_len N6 (v6_net p))) = Some d"
    and r: "net_canonical N6 e" "net_canonical N6 d" "net_addrs N6 (v6_net p) = net_addrs N6 e \<union> net_addrs N6 d"
    and s: "net_prefix_len N6 e \<noteq> 0"
      "net_new N6 (net_addr N6 e XOR push_bit (net_width N6 e) 1) (net_prefix_len N6 e) = Some d"
  have "v6_bifurcate N6 p = Some (Some (Ipv6Prefix e, Ipv6Prefix d))"
    using l new [unfolded top_bit] by (simp add: v6_bifurcate_def Let_def)
  with r s show thesis by (intro that [of "Ipv6Prefix e" "Ipv6Prefix d"]) (simp_all add: v6_sibling)
qed

lemma v4_siblingE:
  assumes "v4_get_sibling N4 p = Some (Some s)"
  obtains "net_prefix_len N4 (v4_net p) \<noteq> 0"
    and "net_new N4 (net_addr N4 (v4_net p) XOR push_bit (net_width N4 (v4_net p)) 1) (net_prefix_len N4 (v4_net p)) = Some (v4_net s)"
  using assms by (auto simp: v4_sibling split: if_splits)

lemma v6_siblingE:
  assumes "v6_get_sibling N6 p = Some (Some s)"
  obtains "net_prefix_len N6 (v6_net p) \<noteq> 0"
    and "net_new N6 (net_addr N6 (v6_net p) XOR push_bit (net_width N6 (v6_net p)) 1) (net_prefix_len N6 (v6_net p)) = Some (v6_net s)"
  using assms by (auto simp: v6_sibling split: if_splits)

lemma v4_aggregate_siblings:
  assumes "net_canonical N4 (v4_net p)" "v4_get_sibling N4 p = Some (Some s)"
  obtains u where "v4_try_aggregate N4 p s = Some u" "net_canonical N4 (v4_net u)"
    "net_addrs N4 (v4_net u) = net_addrs N4 (v4_net p) \<union> net_addrs N4 (v4_net s)"
proof (rule v4_siblingE [OF assms(2)])
  assume s: "net_prefix_len N4 (v4_net p) \<noteq> 0"
    "net_new N4 (net_addr N4 (v4_net p) XOR push_bit (net_width N4 (v4_net p)) 1) (net_prefix_len N4 (v4_net p)) = Some (v4_net s)"
  note d = v4.sibling_addrs(5) [OF assms(1) s]
  have "\<not> v4_contains N4 p s" "\<not> v4_contains N4 s p"
    using d v4.addrs_ne by (auto simp: v4_contains_def v4.contains_block simp flip: v4.addrs_sub)
  moreover obtain u where "net_supernet N4 (v4_net p) = Some u" "net_supernet N4 (v4_net s) = Some u"
     "net_canonical N4 u" "net_addrs N4 u = net_addrs N4 (v4_net p) \<union> net_addrs N4 (v4_net s)"
    using v4.supernet_addrs [OF assms(1) s] by blast
  ultimately show thesis
    by (intro that [of "Ipv4Prefix u"]) (simp_all add: v4_try_aggregate_def)
qed

lemma v6_aggregate_siblings:
  assumes "net_canonical N6 (v6_net p)" "v6_get_sibling N6 p = Some (Some s)"
  obtains u where "v6_try_aggregate N6 p s = Some u" "net_canonical N6 (v6_net u)"
    "net_addrs N6 (v6_net u) = net_addrs N6 (v6_net p) \<union> net_addrs N6 (v6_net s)"
proof (rule v6_siblingE [OF assms(2)])
  assume s: "net_prefix_len N6 (v6_net p) \<noteq> 0"
    "net_new N6 (net_addr N6 (v6_net p) XOR push_bit (net_width N6 (v6_net p)) 1) (net_prefix_len N6 (v6_net p)) = Some (v6_net s)"
  note d = v6.sibling_addrs(5) [OF assms(1) s]
  have "\<not> v6_contains N6 p s" "\<not> v6_contains N6 s p"
    using d v6.addrs_ne by (auto simp: v6_contains_def v6.contains_block simp flip: v6.addrs_sub)
  moreover obtain u where "net_supernet N6 (v6_net p) = Some u" "net_supernet N6 (v6_net s) = Some u"
     "net_canonical N6 u" "net_addrs N6 u = net_addrs N6 (v6_net p) \<union> net_addrs N6 (v6_net s)"
    using v6.supernet_addrs [OF assms(1) s] by blast
  ultimately show thesis
    by (intro that [of "Ipv6Prefix u"]) (simp_all add: v6_try_aggregate_def)
qed

end

context ip_nets
begin

lemma ip_order: "btree_order (ip_le (N4, N6))"
proof
  fix p q r :: "('n4, 'n6) ip_prefix"
  note o4 = v4.net_order and o6 = v6.net_order
  show "ip_le (N4, N6) p p"
    by (cases p) (simp_all add: btree_order.le_refl [OF o4] btree_order.le_refl [OF o6])
  show "ip_le (N4, N6) p q \<Longrightarrow> ip_le (N4, N6) q p \<Longrightarrow> p = q"
    by (cases p; cases q)
      (auto simp: ipv4_prefix.expand ipv6_prefix.expand dest: btree_order.le_antisym [OF o4] btree_order.le_antisym [OF o6])
  show "ip_le (N4, N6) p q \<Longrightarrow> ip_le (N4, N6) q r \<Longrightarrow> ip_le (N4, N6) p r"
    by (cases p; cases q; cases r) (auto dest: btree_order.le_trans [OF o4] btree_order.le_trans [OF o6])
  show "ip_le (N4, N6) p q \<or> ip_le (N4, N6) q p"
    by (cases p; cases q) (use btree_order.le_total [OF o4] btree_order.le_total [OF o6] in simp_all)
qed

lemma ip_contains_addrs: "ip_contains (N4, N6) p q \<longleftrightarrow> ip_addrs (N4, N6) q \<subseteq> ip_addrs (N4, N6) p"
proof (cases p; cases q)
  fix a b assume "p = V4 a" "q = V4 b"
  then show ?thesis by (simp add: v4_contains_def v4.contains_block v4.addrs_sub [symmetric] inj_image_subset_iff inj_def)
next
  fix a b assume "p = V6 a" "q = V6 b"
  then show ?thesis by (simp add: v6_contains_def v6.contains_block v6.addrs_sub [symmetric] inj_image_subset_iff inj_def)
qed (use v4.addrs_ne v6.addrs_ne in auto)

lemma inj_tags: "inj AddrV4" "inj AddrV6" by (simp_all add: inj_def)

lemma tag_sub:
  "AddrV4 ` A \<subseteq> AddrV4 ` B \<longleftrightarrow> A \<subseteq> B" "AddrV6 ` C \<subseteq> AddrV6 ` D \<longleftrightarrow> C \<subseteq> D"
  by (simp_all add: inj_image_subset_iff inj_tags)

lemma tag_eq:
  "AddrV4 ` A = AddrV4 ` B \<longleftrightarrow> A = B" "AddrV6 ` C = AddrV6 ` D \<longleftrightarrow> C = D"
  by (simp_all add: inj_image_eq_iff inj_tags)

lemma tag_psub:
  "AddrV4 ` A \<subset> AddrV4 ` B \<longleftrightarrow> A \<subset> B" "AddrV6 ` C \<subset> AddrV6 ` D \<longleftrightarrow> C \<subset> D"
  by (simp_all add: psubset_eq tag_sub tag_eq)

lemma tag_int: 
  "AddrV4 ` A \<inter> AddrV4 ` B = {} \<longleftrightarrow> A \<inter> B = {}" "AddrV6 ` C \<inter> AddrV6 ` D = {} \<longleftrightarrow> C \<inter> D = {}"
  by (auto simp flip: image_Int [OF inj_tags(1)] image_Int [OF inj_tags(2)])

lemma tag_cross:
  "AddrV4 ` A \<inter> AddrV6 ` C = {}" "AddrV6 ` C \<inter> AddrV4 ` A = {}"
  "AddrV4 ` A \<subseteq> AddrV6 ` C \<longleftrightarrow> A = {}" "AddrV6 ` C \<subseteq> AddrV4 ` A \<longleftrightarrow> C = {}"
  by auto

lemmas tags = tag_sub tag_eq tag_psub tag_int tag_cross image_Un [symmetric]

lemma cross_psub: "\<not> AddrV4 ` net_addrs N4 n \<subset> AddrV6 ` C" "\<not> AddrV6 ` net_addrs N6 m \<subset> AddrV4 ` A"
  using v4.addrs_ne v6.addrs_ne by (auto simp: tags psubset_eq)

lemma cross_sub: "\<not> AddrV4 ` net_addrs N4 n \<subseteq> AddrV6 ` C" "\<not> AddrV6 ` net_addrs N6 m \<subseteq> AddrV4 ` A"
  using v4.addrs_ne v6.addrs_ne by (auto simp: tags)

lemma cross_eq: "AddrV4 ` net_addrs N4 n \<noteq> AddrV6 ` C" "AddrV6 ` net_addrs N6 m \<noteq> AddrV4 ` A"
  using cross_sub(1) [of n C] cross_sub(2) [of m A] by (metis order_refl)+

lemma v4_eqI: "net_canonical N4 (v4_net a) \<Longrightarrow> net_canonical N4 (v4_net b) \<Longrightarrow>
    net_addrs N4 (v4_net a) = net_addrs N4 (v4_net b) \<Longrightarrow> a = b"
  by (rule ipv4_prefix.expand) (simp add: v4.addrs_eq v4.block_inj)

lemma v6_eqI: "net_canonical N6 (v6_net a) \<Longrightarrow> net_canonical N6 (v6_net b) \<Longrightarrow>
    net_addrs N6 (v6_net a) = net_addrs N6 (v6_net b) \<Longrightarrow> a = b"
  by (rule ipv6_prefix.expand) (simp add: v6.addrs_eq v6.block_inj)

lemma ip_sibling_total: "ip_get_sibling (N4, N6) p \<noteq> None"
proof (cases p)
  case (V4 a)
  show ?thesis using v4.new_valid [OF v4.len_bound] by (auto simp: V4 v4_sibling)
next
  case (V6 a)
  show ?thesis using v6.new_valid [OF v6.len_bound] by (auto simp: V6 v6_sibling)
qed

lemma v4_aggregate_exact:
  assumes "net_canonical N4 (v4_net p)" "net_canonical N4 (v4_net q)" "v4_try_aggregate N4 p q = Some u"
  shows "net_canonical N4 (v4_net u) \<and> net_addrs N4 (v4_net u) = net_addrs N4 (v4_net p) \<union> net_addrs N4 (v4_net q)"
proof -
  consider "v4_contains N4 p q" "u = p" | "v4_contains N4 q p" "u = q"
    | s where "\<not> v4_contains N4 p q" "net_supernet N4 (v4_net p) = Some s" "net_supernet N4 (v4_net q) = Some s"
      "u = Ipv4Prefix s"
    using assms(3) by (auto simp: v4_try_aggregate_def split: if_splits option.splits)
  then show ?thesis
  proof cases
    case (3 s)
    then show ?thesis using v4.same_supernet_addrs [of "v4_net p" s "v4_net q"] by (simp add: v4_contains_def)
  qed (use assms(1,2) in \<open>auto simp: v4_contains_def v4.contains_addrs\<close>)
qed

lemma v6_aggregate_exact:
  assumes "net_canonical N6 (v6_net p)" "net_canonical N6 (v6_net q)" "v6_try_aggregate N6 p q = Some u"
  shows "net_canonical N6 (v6_net u) \<and> net_addrs N6 (v6_net u) = net_addrs N6 (v6_net p) \<union> net_addrs N6 (v6_net q)"
proof -
  consider "v6_contains N6 p q" "u = p" | "v6_contains N6 q p" "u = q"
    | s where "\<not> v6_contains N6 p q" "net_supernet N6 (v6_net p) = Some s" "net_supernet N6 (v6_net q) = Some s"
      "u = Ipv6Prefix s"
    using assms(3) by (auto simp: v6_try_aggregate_def split: if_splits option.splits)
  then show ?thesis
  proof cases
    case (3 s)
    then show ?thesis using v6.same_supernet_addrs [of "v6_net p" s "v6_net q"] by (simp add: v6_contains_def)
  qed (use assms(1,2) in \<open>auto simp: v6_contains_def v6.contains_addrs\<close>)
qed

lemma ip_aggregate_exact:
  assumes "ip_canonical (N4, N6) p" "ip_canonical (N4, N6) q" "ip_try_aggregate (N4, N6) p q = Some u"
  shows "ip_canonical (N4, N6) u \<and> ip_addrs (N4, N6) u = ip_addrs (N4, N6) p \<union> ip_addrs (N4, N6) q"
  using assms by (cases p; cases q) (auto simp: image_Un dest: v4_aggregate_exact v6_aggregate_exact)

lemma ip_aggregate_nested:
  assumes "ip_addrs (N4, N6) p \<subseteq> ip_addrs (N4, N6) q \<or> ip_addrs (N4, N6) q \<subseteq> ip_addrs (N4, N6) p"
  shows "ip_try_aggregate (N4, N6) p q \<noteq> None"
  using assms
  by (cases p; cases q)
    (auto simp: tag_sub cross_sub v4_try_aggregate_def v6_try_aggregate_def v4_contains_def v6_contains_def
      v4.contains_block v6.contains_block v4.addrs_sub v6.addrs_sub)

lemma ip_sibling_some:
  assumes "ip_canonical (N4, N6) p" "ip_get_sibling (N4, N6) p = Some (Some s)"
  shows "ip_canonical (N4, N6) s \<and> ip_get_sibling (N4, N6) s = Some (Some p)
    \<and> ip_addrs (N4, N6) p \<inter> ip_addrs (N4, N6) s = {} \<and> ip_width (N4, N6) s = ip_width (N4, N6) p"
proof (cases p)
  case (V4 a)
  with assms obtain b where s: "s = V4 b" and b: "v4_get_sibling N4 a = Some (Some b)" and c: "net_canonical N4 (v4_net a)"
    by auto
  show ?thesis
  proof (rule v4_siblingE [OF b])
    assume e: "net_prefix_len N4 (v4_net a) \<noteq> 0" "net_new N4 (net_addr N4 (v4_net a) XOR push_bit (net_width N4 (v4_net a)) 1)
       (net_prefix_len N4 (v4_net a)) = Some (v4_net b)"
    from v4.sibling_addrs [OF c e] e(1) show ?thesis by (simp add: V4 s v4_sibling tags)
  qed
next
  case (V6 a)
  with assms obtain b where s: "s = V6 b" and b: "v6_get_sibling N6 a = Some (Some b)" and c: "net_canonical N6 (v6_net a)"
    by auto
  show ?thesis
  proof (rule v6_siblingE [OF b])
    assume e: "net_prefix_len N6 (v6_net a) \<noteq> 0" "net_new N6 (net_addr N6 (v6_net a) XOR push_bit (net_width N6 (v6_net a)) 1)
       (net_prefix_len N6 (v6_net a)) = Some (v6_net b)"
    from v6.sibling_addrs [OF c e] e(1) show ?thesis by (simp add: V6 s v6_sibling tags)
  qed
qed

lemma ip_sibling_parent:
  assumes "ip_canonical (N4, N6) p" "ip_get_sibling (N4, N6) p = Some (Some s)"
  shows "\<exists>u. ip_try_aggregate (N4, N6) p s = Some u \<and> ip_canonical (N4, N6) u
    \<and> ip_addrs (N4, N6) u = ip_addrs (N4, N6) p \<union> ip_addrs (N4, N6) s"
proof (cases p)
  case (V4 a)
  with assms obtain b where s: "s = V4 b" and b: "v4_get_sibling N4 a = Some (Some b)" and c: "net_canonical N4 (v4_net a)"
    by auto
  from v4_aggregate_siblings [OF c b] obtain u where "v4_try_aggregate N4 a b = Some u" "net_canonical N4 (v4_net u)"
    "net_addrs N4 (v4_net u) = net_addrs N4 (v4_net a) \<union> net_addrs N4 (v4_net b)" by blast
  then show ?thesis by (intro exI [of _ "V4 u"]) (simp add: V4 s image_Un)
next
  case (V6 a)
  with assms obtain b where s: "s = V6 b" and b: "v6_get_sibling N6 a = Some (Some b)" and c: "net_canonical N6 (v6_net a)"
    by auto
  from v6_aggregate_siblings [OF c b] obtain u where "v6_try_aggregate N6 a b = Some u" "net_canonical N6 (v6_net u)"
    "net_addrs N6 (v6_net u) = net_addrs N6 (v6_net a) \<union> net_addrs N6 (v6_net b)" by blast
  then show ?thesis by (intro exI [of _ "V6 u"]) (simp add: V6 s image_Un)
qed

lemma ip_parent_least:
  assumes "ip_canonical (N4, N6) p" "ip_canonical (N4, N6) q" "ip_get_sibling (N4, N6) p = Some (Some s)"
    and "ip_addrs (N4, N6) p \<subset> ip_addrs (N4, N6) q"
  shows "ip_addrs (N4, N6) p \<union> ip_addrs (N4, N6) s \<subseteq> ip_addrs (N4, N6) q"
proof (cases p)
  case (V4 a)
  with assms obtain b where s: "s = V4 b" and b: "v4_get_sibling N4 a = Some (Some b)" and c: "net_canonical N4 (v4_net a)"
    by auto
  from assms(4) obtain d where q: "q = V4 d" by (cases q) (simp_all add: V4 cross_psub)
  show ?thesis
  proof (rule v4_siblingE [OF b])
    assume e: "net_prefix_len N4 (v4_net a) \<noteq> 0" "net_new N4 (net_addr N4 (v4_net a) XOR push_bit (net_width N4 (v4_net a)) 1)
       (net_prefix_len N4 (v4_net a)) = Some (v4_net b)"
    from v4.sibling_addrs(6) [OF c e, of "v4_net d"] assms(2,4) show ?thesis by (auto simp: V4 q s tags)
  qed
next
  case (V6 a)
  with assms obtain b where s: "s = V6 b" and b: "v6_get_sibling N6 a = Some (Some b)" and c: "net_canonical N6 (v6_net a)"
    by auto
  from assms(4) obtain d where q: "q = V6 d" by (cases q) (simp_all add: V6 cross_psub)
  show ?thesis
  proof (rule v6_siblingE [OF b])
    assume e: "net_prefix_len N6 (v6_net a) \<noteq> 0" "net_new N6 (net_addr N6 (v6_net a) XOR push_bit (net_width N6 (v6_net a)) 1)
       (net_prefix_len N6 (v6_net a)) = Some (v6_net b)"
    from v6.sibling_addrs(6) [OF c e, of "v6_net d"] assms(2,4) show ?thesis by (auto simp: V6 q s tags)
  qed
qed

lemma ip_bifurcate_parts:
  assumes "ip_canonical (N4, N6) p" "ip_addrs (N4, N6) q \<subset> ip_addrs (N4, N6) p"
  shows "\<exists>c1 c2. ip_bifurcate (N4, N6) p = Some (Some (c1, c2)) \<and> ip_canonical (N4, N6) c1 \<and> ip_canonical (N4, N6) c2
    \<and> ip_addrs (N4, N6) c1 \<union> ip_addrs (N4, N6) c2 = ip_addrs (N4, N6) p \<and> ip_get_sibling (N4, N6) c1 = Some (Some c2)"
proof (cases p)
  case (V4 a)
  with assms obtain b where "q = V4 b" by (cases q) (simp_all add: cross_psub)
  with V4 assms have c: "net_canonical N4 (v4_net a)" and l: "net_addrs N4 (v4_net b) \<subset> net_addrs N4 (v4_net a)"
    by (simp_all add: tags)
  show ?thesis
    by (rule v4_parts [OF c v4.strict_len [OF l]]) (auto simp: V4 image_Un intro!: exI)
next
  case (V6 a)
  with assms obtain b where "q = V6 b" by (cases q) (simp_all add: cross_psub)
  with V6 assms have c: "net_canonical N6 (v6_net a)" and l: "net_addrs N6 (v6_net b) \<subset> net_addrs N6 (v6_net a)"
    by (simp_all add: tags)
  show ?thesis
    by (rule v6_parts [OF c v6.strict_len [OF l]]) (auto simp: V6 image_Un intro!: exI)
qed

end

sublocale ip_nets \<subseteq> space: prefix_space "ip_le (N4, N6)" "ip_contains (N4, N6)" "ip_get_sibling (N4, N6)"
  "ip_bifurcate (N4, N6)" "ip_get_last_subprefix (N4, N6)" "ip_try_aggregate (N4, N6)"
  "ip_canonical (N4, N6)" "ip_addrs (N4, N6)" "ip_width (N4, N6)"
proof (rule prefix_space.intro, rule ip_order, unfold_locales)
  fix p q r s :: "('n4, 'n6) ip_prefix"
  let ?N = "(N4, N6)"
  show "ip_contains ?N p q \<longleftrightarrow> ip_addrs ?N q \<subseteq> ip_addrs ?N p"
    by (rule ip_contains_addrs)
  show "ip_addrs ?N p \<noteq> {}"
    by (cases p) (simp_all add: v4.addrs_ne v6.addrs_ne)
  show "ip_canonical ?N p \<Longrightarrow> ip_canonical ?N q \<Longrightarrow> ip_addrs ?N p = ip_addrs ?N q \<Longrightarrow> p = q"
    by (cases p; cases q)
      (simp_all add: tag_eq cross_eq v4_eqI v6_eqI)
  show "ip_addrs ?N p \<inter> ip_addrs ?N q = {} \<or> ip_addrs ?N p \<subseteq> ip_addrs ?N q \<or> ip_addrs ?N q \<subseteq> ip_addrs ?N p"
    by (cases p; cases q) (use v4.laminar_addrs v6.laminar_addrs in \<open>simp_all add: tags\<close>)
  show "ip_addrs ?N p \<subset> ip_addrs ?N q \<Longrightarrow> ip_width ?N p < ip_width ?N q"
    by (cases p; cases q)
      (simp_all add: tags cross_psub v4.addrs_psub v6.addrs_psub v4.strict_width v6.strict_width)
  show "ip_canonical ?N p \<Longrightarrow> ip_canonical ?N q \<Longrightarrow> ip_addrs ?N q \<subseteq> ip_addrs ?N p \<Longrightarrow> ip_le ?N p q"
    by (cases p; cases q)
      (simp_all add: tag_sub cross_sub v4.addrs_sub v6.addrs_sub v4.sub_le v6.sub_le)
  show "ip_canonical ?N p \<Longrightarrow> ip_canonical ?N q \<Longrightarrow> ip_canonical ?N r \<Longrightarrow> ip_le ?N p r \<Longrightarrow> ip_le ?N r q
      \<Longrightarrow> ip_addrs ?N q \<subseteq> ip_addrs ?N p \<Longrightarrow> ip_addrs ?N r \<inter> ip_addrs ?N p \<noteq> {}"
    by (cases p; cases q; cases r)
      (auto simp: tag_sub tag_int cross_sub v4.addrs_sub v6.addrs_sub v4.addrs_disjoint v6.addrs_disjoint
        dest: v4.between_meets v6.between_meets)
  show "ip_canonical ?N q \<Longrightarrow> ip_addrs ?N q \<subseteq> ip_addrs ?N p \<Longrightarrow> ip_le ?N q (ip_get_last_subprefix ?N p)"
    by (cases p; cases q)
      (simp_all add: tag_sub cross_sub v4.addrs_sub v6.addrs_sub v4.last_above v6.last_above
        v4_get_last_subprefix_def v6_get_last_subprefix_def addr_to_v4_prefix_def addr_to_v6_prefix_def)
  show "ip_get_sibling ?N p \<noteq> None"
    by (rule ip_sibling_total)
  show "\<not> ip_addrs ?N p \<subset> ip_addrs ?N q" if "ip_get_sibling ?N p = Some None"
    using that
    by (cases p; cases q)
      (auto simp: tags cross_psub v4_sibling v6_sibling v4.addrs_psub v6.addrs_psub
        dest: v4.full_is_top v6.full_is_top split: if_splits)
  show "ip_canonical ?N p \<Longrightarrow> ip_get_sibling ?N p = Some (Some s) \<Longrightarrow>
      ip_canonical ?N s \<and> ip_get_sibling ?N s = Some (Some p) \<and> ip_addrs ?N p \<inter> ip_addrs ?N s = {} \<and>
      ip_width ?N s = ip_width ?N p"
    by (rule ip_sibling_some)
  show "ip_canonical ?N p \<Longrightarrow> ip_get_sibling ?N p = Some (Some s) \<Longrightarrow>
      \<exists>u. ip_try_aggregate ?N p s = Some u \<and> ip_canonical ?N u \<and> ip_addrs ?N u = ip_addrs ?N p \<union> ip_addrs ?N s"
    by (rule ip_sibling_parent)
  show "ip_canonical ?N p \<Longrightarrow> ip_canonical ?N q \<Longrightarrow> ip_try_aggregate ?N p q = Some s \<Longrightarrow>
      ip_canonical ?N s \<and> ip_addrs ?N s = ip_addrs ?N p \<union> ip_addrs ?N q"
    by (rule ip_aggregate_exact)
  show "ip_addrs ?N p \<subseteq> ip_addrs ?N q \<or> ip_addrs ?N q \<subseteq> ip_addrs ?N p \<Longrightarrow> ip_try_aggregate ?N p q \<noteq> None"
    by (rule ip_aggregate_nested)
  show "ip_canonical ?N p \<Longrightarrow> ip_canonical ?N q \<Longrightarrow> ip_get_sibling ?N p = Some (Some s) \<Longrightarrow>
      ip_addrs ?N p \<subset> ip_addrs ?N q \<Longrightarrow> ip_addrs ?N p \<union> ip_addrs ?N s \<subseteq> ip_addrs ?N q"
    by (rule ip_parent_least)
  show "ip_canonical ?N p \<Longrightarrow> ip_addrs ?N q \<subset> ip_addrs ?N p \<Longrightarrow>
      \<exists>c1 c2. ip_bifurcate ?N p = Some (Some (c1, c2)) \<and> ip_canonical ?N c1 \<and> ip_canonical ?N c2 \<and>
        ip_addrs ?N c1 \<union> ip_addrs ?N c2 = ip_addrs ?N p \<and> ip_get_sibling ?N c1 = Some (Some c2)"
    by (rule ip_bifurcate_parts)
qed

context ip_nets
begin

lemmas nets_aggregate_iff = space.aggregate_iff

lemma nets_conversions:
  "ip_try_from_net (N4, N6) n = Ok p \<longleftrightarrow> ip_into_net p = n \<and> ip_canonical (N4, N6) p"
  "ip_canonical (N4, N6) (net_to_prefix (N4, N6) n)"
  "ip_canonical (N4, N6) (addr_to_prefix (N4, N6) a)"
  "ip_addrs (N4, N6) (addr_to_prefix (N4, N6) a) = {a}"
proof -
  show "ip_try_from_net (N4, N6) n = Ok p \<longleftrightarrow> ip_into_net p = n \<and> ip_canonical (N4, N6) p"
    by (cases n; cases p) (auto simp: v4_try_from_net_def v6_try_from_net_def net_canonical_def)
  show "ip_canonical (N4, N6) (net_to_prefix (N4, N6) n)"
    by (cases n) (simp_all add: net_to_v4_prefix_def net_to_v6_prefix_def v4.trunc_canonical v6.trunc_canonical)
  show "ip_canonical (N4, N6) (addr_to_prefix (N4, N6) a)"
    by (cases a) (simp_all add: addr_to_v4_prefix_def addr_to_v6_prefix_def v4.from_addr_canonical v6.from_addr_canonical)
  show "ip_addrs (N4, N6) (addr_to_prefix (N4, N6) a) = {a}"
    by (cases a) (simp_all add: addr_to_v4_prefix_def addr_to_v6_prefix_def v4.from_addr_addrs v6.from_addr_addrs)
qed

lemma nets_bifurcate:
  assumes "ip_canonical (N4, N6) p"
  shows "if ip_prefix_length (N4, N6) p < interface_prefix_len (prefix_family p)
    then \<exists>c1 c2. ip_bifurcate (N4, N6) p = Some (Some (c1, c2)) \<and>
      ip_canonical (N4, N6) c1 \<and> ip_canonical (N4, N6) c2 \<and>
      ip_addrs (N4, N6) c1 \<union> ip_addrs (N4, N6) c2 = ip_addrs (N4, N6) p \<and>
      ip_get_sibling (N4, N6) c1 = Some (Some c2)
    else ip_bifurcate (N4, N6) p = Some None"
proof (cases p)
  case (V4 a)
  show ?thesis
  proof (cases "net_prefix_len N4 (v4_net a) < LENGTH(32)")
    case True
    from V4 assms have "net_canonical N4 (v4_net a)" by simp
    from this True show ?thesis by (rule v4_parts) (use True in \<open>auto simp: V4 image_Un intro!: exI\<close>)
  qed (simp add: V4 v4_bifurcate_def)
next
  case (V6 a)
  show ?thesis
  proof (cases "net_prefix_len N6 (v6_net a) < LENGTH(128)")
    case True
    from V6 assms have "net_canonical N6 (v6_net a)" by simp
    from this True show ?thesis by (rule v6_parts) (use True in \<open>auto simp: V6 image_Un intro!: exI\<close>)
  qed (simp add: V6 v6_bifurcate_def)
qed

end

text \<open>
  The conversions into prefixes never leave an address bit set behind the prefix:
  \<open>try_from\<close> accepts exactly the networks whose address is their network address and
  returns them unchanged, truncating gives a canonical prefix, and an address becomes
  the canonical prefix for that address alone.\<close>
theorem prefix_conversions:
  assumes "ipnet N4" "ipnet N6"
  shows "(ip_try_from_net (N4, N6) n = Ok p \<longleftrightarrow> ip_into_net p = n \<and> ip_canonical (N4, N6) p) \<and>
    ip_canonical (N4, N6) (net_to_prefix (N4, N6) n) \<and>
    ip_canonical (N4, N6) (addr_to_prefix (N4, N6) a) \<and>
    ip_addrs (N4, N6) (addr_to_prefix (N4, N6) a) = {a}"
  by (intro conjI ip_nets.nets_conversions ip_nets.intro assms)

theorem prefix_conversions_witness:
  "ip_addrs (ipnet_doc Map.empty, ipnet_doc Map.empty)
     (addr_to_prefix (ipnet_doc Map.empty, ipnet_doc Map.empty) (AddrV4 0x0A000001)) = {AddrV4 0x0A000001}"
  using prefix_conversions [OF doc.ipnet_axioms doc.ipnet_axioms] by blast

text \<open>
  Splitting a canonical prefix never panics.  Unless it is a single address, it gives
  two canonical prefixes, neighbours of each other, that share no address and together
  cover exactly the addresses of the prefix; a single address is not split.\<close>
theorem prefix_bifurcate:
  assumes "ipnet N4" "ipnet N6" "ip_canonical (N4, N6) p"
  shows "if ip_prefix_length (N4, N6) p < interface_prefix_len (prefix_family p)
    then \<exists>c1 c2. ip_bifurcate (N4, N6) p = Some (Some (c1, c2)) \<and>
      ip_canonical (N4, N6) c1 \<and> ip_canonical (N4, N6) c2 \<and>
      ip_addrs (N4, N6) c1 \<union> ip_addrs (N4, N6) c2 = ip_addrs (N4, N6) p \<and>
      ip_get_sibling (N4, N6) c1 = Some (Some c2) \<and> ip_addrs (N4, N6) c1 \<inter> ip_addrs (N4, N6) c2 = {}
    else ip_bifurcate (N4, N6) p = Some None"
proof -
  from assms(1,2) have nets: "ip_nets N4 N6" by (rule ip_nets.intro)
  note b = ip_nets.nets_bifurcate [OF nets assms(3)]
  show ?thesis
  proof (cases "ip_prefix_length (N4, N6) p < interface_prefix_len (prefix_family p)")
    case True
    with b obtain c1 c2 where c: "ip_bifurcate (N4, N6) p = Some (Some (c1, c2))"
      "ip_canonical (N4, N6) c1" "ip_canonical (N4, N6) c2"
      "ip_addrs (N4, N6) c1 \<union> ip_addrs (N4, N6) c2 = ip_addrs (N4, N6) p"
      "ip_get_sibling (N4, N6) c1 = Some (Some c2)"
      unfolding if_P [OF True] by blast
    from ip_nets.ip_sibling_some [OF nets c(2,5)] have "ip_addrs (N4, N6) c1 \<inter> ip_addrs (N4, N6) c2 = {}"
      by (elim conjE)
    with c show ?thesis unfolding if_P [OF True] by (intro exI conjI)
  next
    case False
    with b show ?thesis by (simp only: if_False)
  qed
qed

theorem prefix_bifurcate_witness:
  "\<exists>c1 c2. ip_bifurcate (ipnet_doc Map.empty, ipnet_doc Map.empty)
     (V4 (Ipv4Prefix (Abs_net_doc (0, 8)))) = Some (Some (c1, c2))"
  using prefix_bifurcate [OF doc.ipnet_axioms doc.ipnet_axioms, of Map.empty Map.empty "V4 (Ipv4Prefix (Abs_net_doc (0, 8)))"]
  by (auto simp: net_canonical_def doc_first_def)

text \<open>
  Aggregating two canonical prefixes succeeds exactly when some canonical prefix covers
  their addresses and no others, and it returns that prefix.\<close>
theorem prefix_aggregate:
  assumes "ipnet N4" "ipnet N6" "ip_canonical (N4, N6) p" "ip_canonical (N4, N6) q"
  shows "ip_try_aggregate (N4, N6) p q = Some u \<longleftrightarrow>
    ip_canonical (N4, N6) u \<and> ip_addrs (N4, N6) u = ip_addrs (N4, N6) p \<union> ip_addrs (N4, N6) q"
  by (rule ip_nets.nets_aggregate_iff [OF ip_nets.intro [OF assms(1,2)] assms(3,4)])

theorem prefix_aggregate_witness:
  "ip_try_aggregate (ipnet_doc Map.empty, ipnet_doc Map.empty)
     (V4 (Ipv4Prefix (Abs_net_doc (0, 8)))) (V4 (Ipv4Prefix (Abs_net_doc (0, 8)))) =
   Some (V4 (Ipv4Prefix (Abs_net_doc (0, 8))))"
  using prefix_aggregate [OF doc.ipnet_axioms doc.ipnet_axioms, of Map.empty Map.empty "V4 (Ipv4Prefix (Abs_net_doc (0, 8)))"
      "V4 (Ipv4Prefix (Abs_net_doc (0, 8)))" "V4 (Ipv4Prefix (Abs_net_doc (0, 8)))"]
  by (simp add: net_canonical_def doc_first_def)

end
