(* ===== verification/Ip_Set.thy ===== *)
theory Ip_Set
  imports Ip_Prefix
begin

text \<open>
  Sets of IP addresses: \<^verbatim>\<open>network/src/ip/ipset.rs\<close>.  The set is the \<^verbatim>\<open>BTreeSet\<close> of its
  prefixes, a list in strictly ascending order.  The loops of \<^verbatim>\<open>add\<close> end because each
  round takes a prefix out of the set; the loop of \<^verbatim>\<open>remove\<close> is a partial function, and
  that it returns is part of what is proved.  A panic (an \<^verbatim>\<open>unwrap\<close>, the bounds check of
  \<^verbatim>\<open>BTreeSet::range\<close>, \<^verbatim>\<open>unreachable!\<close>) is the value \<open>None\<close>.
\<close>

type_synonym ('n4, 'n6) ip_set = "('n4, 'n6) ip_prefix list"

definition get_containing_prefix ::
  "('n4, 'n6) nets \<Rightarrow> ('n4, 'n6) ip_set \<Rightarrow> ('n4, 'n6) ip_prefix \<Rightarrow> ('n4, 'n6) ip_prefix option" where
  "get_containing_prefix N S prefix =
     (case last_opt (bset_range_to (ip_le N) prefix S) of
        None \<Rightarrow> None
      | Some included \<Rightarrow> if ip_contains N included prefix then Some included else None)"

definition contains_prefix :: "('n4, 'n6) nets \<Rightarrow> ('n4, 'n6) ip_set \<Rightarrow> ('n4, 'n6) ip_prefix \<Rightarrow> bool" where
  "contains_prefix N S prefix \<longleftrightarrow> get_containing_prefix N S prefix \<noteq> None"

definition set_contains ::
  "('n4, 'n6) nets \<Rightarrow> ('v \<Rightarrow> ('n4, 'n6) ip_prefix) \<Rightarrow> ('n4, 'n6) ip_set \<Rightarrow> 'v \<Rightarrow> bool" where
  "set_contains N to_prefix S v = contains_prefix N S (to_prefix v)"

definition find_subprefix ::
  "('n4, 'n6) nets \<Rightarrow> ('n4, 'n6) ip_prefix \<Rightarrow> ('n4, 'n6) ip_set \<Rightarrow> ('n4, 'n6) ip_prefix option" where
  "find_subprefix N prefix S =
     find (ip_contains N prefix) (bset_range (ip_le N) prefix (ip_get_last_subprefix N prefix) S)"

lemma find_subprefix_in: "find_subprefix N prefix S = Some p \<Longrightarrow> p \<in> set S \<and> ip_contains N prefix p"
  by (auto simp: find_subprefix_def bset_range_def dest: find_SomeD)

function remove_subprefixes ::
  "('n4, 'n6) nets \<Rightarrow> ('n4, 'n6) ip_prefix \<Rightarrow> ('n4, 'n6) ip_set \<Rightarrow> ('n4, 'n6) ip_set option" where
  "remove_subprefixes N prefix S =
     (if \<not> ip_le N prefix (ip_get_last_subprefix N prefix) then None
      else
        (case find_subprefix N prefix S of
           None \<Rightarrow> Some S
         | Some subprefix \<Rightarrow> remove_subprefixes N prefix (bset_remove subprefix S)))"
  by auto
termination
  by (relation "measure (\<lambda>(_, _, S). length S)")
    (auto dest: find_subprefix_in intro: length_bset_remove)

function aggregate_up ::
  "('n4, 'n6) nets \<Rightarrow> ('n4, 'n6) ip_prefix \<Rightarrow> ('n4, 'n6) ip_set
    \<Rightarrow> (('n4, 'n6) ip_prefix \<times> ('n4, 'n6) ip_set) option" where
  "aggregate_up N prefix S =
     (case ip_get_sibling N prefix of
        None \<Rightarrow> None
      | Some None \<Rightarrow> Some (prefix, S)
      | Some (Some sibling) \<Rightarrow>
          if sibling \<in> set S then
            (case ip_try_aggregate N prefix sibling of
               None \<Rightarrow> None
             | Some aggregated \<Rightarrow> aggregate_up N aggregated (bset_remove sibling S))
          else Some (prefix, S))"
  by auto
termination
  by (relation "measure (\<lambda>(_, _, S). length S)") (auto intro: length_bset_remove)

definition set_add ::
  "('n4, 'n6) nets \<Rightarrow> ('n4, 'n6) ip_set \<Rightarrow> ('n4, 'n6) ip_prefix \<Rightarrow> ('n4, 'n6) ip_set option" where
  "set_add N S prefix =
     (if contains_prefix N S prefix then Some S
      else
        (case remove_subprefixes N prefix S of
           None \<Rightarrow> None
         | Some S1 \<Rightarrow>
             (case aggregate_up N prefix S1 of
                None \<Rightarrow> None
              | Some (p, S2) \<Rightarrow> Some (bset_insert (ip_le N) p S2))))"

partial_function (option) fragment ::
  "('n4, 'n6) nets \<Rightarrow> ('n4, 'n6) ip_prefix \<Rightarrow> ('n4, 'n6) ip_prefix \<Rightarrow> ('n4, 'n6) ip_set \<Rightarrow> ('n4, 'n6) ip_set option" where
  "fragment N prefix container S =
     (if container = prefix then Some S
      else
        (case ip_bifurcate N container of
           None \<Rightarrow> None
         | Some None \<Rightarrow> None
         | Some (Some (c1, c2)) \<Rightarrow>
             if ip_contains N c1 prefix then fragment N prefix c1 (bset_insert (ip_le N) c2 S)
             else if ip_contains N c2 prefix then fragment N prefix c2 (bset_insert (ip_le N) c1 S)
             else None))"

definition set_remove ::
  "('n4, 'n6) nets \<Rightarrow> ('n4, 'n6) ip_set \<Rightarrow> ('n4, 'n6) ip_prefix \<Rightarrow> ('n4, 'n6) ip_set option" where
  "set_remove N S prefix =
     (case get_containing_prefix N S prefix of
        None \<Rightarrow> Some S
      | Some container \<Rightarrow> fragment N prefix container (bset_remove container S))"

definition get_prefixes :: "('n4, 'n6) ip_set \<Rightarrow> ('n4, 'n6) ip_prefix list" where
  "get_prefixes S = S"

definition get_ipv4_prefixes :: "('n4, 'n6) ip_set \<Rightarrow> 'n4 ipv4_prefix list" where
  "get_ipv4_prefixes S = List.map_filter (\<lambda>p. case p of V4 q \<Rightarrow> Some q | V6 _ \<Rightarrow> None) S"

definition get_ipv6_prefixes :: "('n4, 'n6) ip_set \<Rightarrow> 'n6 ipv6_prefix list" where
  "get_ipv6_prefixes S = List.map_filter (\<lambda>p. case p of V6 q \<Rightarrow> Some q | V4 _ \<Rightarrow> None) S"

definition new_empty :: "('n4, 'n6) ip_set" where
  "new_empty = []"

definition set_from_prefix :: "('n4, 'n6) ip_prefix \<Rightarrow> ('n4, 'n6) ip_set" where
  "set_from_prefix p = [p]"

fun add_all :: "('n4, 'n6) nets \<Rightarrow> ('n4, 'n6) ip_set \<Rightarrow> ('n4, 'n6) ip_prefix list \<Rightarrow> ('n4, 'n6) ip_set option" where
  "add_all N S [] = Some S"
| "add_all N S (p # ps) = (case set_add N S p of None \<Rightarrow> None | Some S' \<Rightarrow> add_all N S' ps)"

definition set_from_iter ::
  "('n4, 'n6) nets \<Rightarrow> ('v \<Rightarrow> ('n4, 'n6) ip_prefix) \<Rightarrow> 'v list \<Rightarrow> ('n4, 'n6) ip_set option" where
  "set_from_iter N to_prefix vs = add_all N new_empty (map to_prefix vs)"

definition aggregate_prefixes ::
  "('n4, 'n6) nets \<Rightarrow> ('v \<Rightarrow> ('n4, 'n6) ip_prefix) \<Rightarrow> 'v list \<Rightarrow> ('n4, 'n6) ip_prefix list option" where
  "aggregate_prefixes N to_prefix vs = map_option get_prefixes (set_from_iter N to_prefix vs)"

subsection \<open>What the set stands for\<close>

definition set_addrs :: "('n4, 'n6) nets \<Rightarrow> ('n4, 'n6) ip_set \<Rightarrow> ip_addr set" where
  "set_addrs N S = \<Union> (ip_addrs N ` set S)"

definition set_ok :: "('n4, 'n6) nets \<Rightarrow> ('n4, 'n6) ip_set \<Rightarrow> bool" where
  "set_ok N S \<longleftrightarrow>
     bset_ok (ip_le N) S \<and>
     (\<forall>p\<in>set S. ip_canonical N p) \<and>
     (\<forall>p\<in>set S. \<forall>q\<in>set S. p \<noteq> q \<longrightarrow> ip_addrs N p \<inter> ip_addrs N q = {}) \<and>
     (\<forall>p\<in>set S. \<forall>q\<in>set S. ip_get_sibling N p \<noteq> Some (Some q))"

definition apart :: "('n4, 'n6) nets \<Rightarrow> ('n4, 'n6) ip_prefix \<Rightarrow> ('n4, 'n6) ip_set \<Rightarrow> bool" where
  "apart N p S \<longleftrightarrow> ip_addrs N p \<inter> set_addrs N S = {}"

lemma set_okD:
  assumes "set_ok N S"
  shows "bset_ok (ip_le N) S" "p \<in> set S \<Longrightarrow> ip_canonical N p"
    "p \<in> set S \<Longrightarrow> q \<in> set S \<Longrightarrow> ip_addrs N p \<inter> ip_addrs N q \<noteq> {} \<Longrightarrow> p = q"
    "p \<in> set S \<Longrightarrow> q \<in> set S \<Longrightarrow> ip_get_sibling N p \<noteq> Some (Some q)"
  using assms unfolding set_ok_def by blast+

lemma set_ok_filter: "set_ok N S \<Longrightarrow> set_ok N (filter P S)"
  by (auto simp: set_ok_def bset_ok_filter)

lemma set_ok_remove: "set_ok N S \<Longrightarrow> set_ok N (bset_remove x S)"
  unfolding bset_remove_def by (rule set_ok_filter)

lemma set_ok_Nil [simp]: "set_ok N []"
  by (simp add: set_ok_def)

context ip_nets
begin

abbreviation nets :: "('n4, 'n6) nets" where
  "nets \<equiv> (N4, N6)"

lemma containing_iff:
  assumes S: "set_ok nets S" and p: "ip_canonical nets p"
  shows "get_containing_prefix nets S p = Some q \<longleftrightarrow> q \<in> set S \<and> ip_addrs nets p \<subseteq> ip_addrs nets q"
proof
  assume "get_containing_prefix nets S p = Some q"
  then have l: "last_opt (bset_range_to (ip_le nets) p S) = Some q" and c: "ip_contains nets q p"
    by (auto simp: get_containing_prefix_def split: option.splits if_splits)
  show "q \<in> set S \<and> ip_addrs nets p \<subseteq> ip_addrs nets q"
    using space.range_to_last(1) [OF set_okD(1) [OF S] l] c by (simp add: ip_contains_addrs)
next
  assume q: "q \<in> set S \<and> ip_addrs nets p \<subseteq> ip_addrs nets q"
  then have cq: "ip_canonical nets q" using S by (simp add: set_okD(2))
  have le: "ip_le nets q p" using space.sub_le [OF cq p] q by blast
  obtain m where m: "last_opt (bset_range_to (ip_le nets) p S) = Some m"
    using space.range_to_none [of p S q] le q by fastforce
  note ml = space.range_to_last [OF set_okD(1) [OF S] m]
  have "ip_addrs nets m \<inter> ip_addrs nets q \<noteq> {}"
    using space.between_meets [OF cq p, of m] ml q le S by (simp add: set_okD(2))
  then have "m = q" using set_okD(3) [OF S ml(1)] q by blast
  then show "get_containing_prefix nets S p = Some q"
    using m q by (simp add: get_containing_prefix_def ip_contains_addrs)
qed

lemma contains_prefix_iff:
  assumes S: "set_ok nets S" and p: "ip_canonical nets p"
  shows "contains_prefix nets S p \<longleftrightarrow> ip_addrs nets p \<subseteq> set_addrs nets S"
proof -
  have "contains_prefix nets S p \<longleftrightarrow> (\<exists>q\<in>set S. ip_addrs nets p \<subseteq> ip_addrs nets q)"
    unfolding contains_prefix_def using containing_iff [OF assms] by (metis not_None_eq)
  also have "\<dots> \<longleftrightarrow> ip_addrs nets p \<subseteq> set_addrs nets S"
    using space.cover_single [of "set S" p] S p by (auto simp: set_ok_def set_addrs_def)
  finally show ?thesis .
qed

lemma set_ok_unique:
  assumes S: "set_ok nets S" and T: "set_ok nets T" and eq: "set_addrs nets S = set_addrs nets T"
  shows "S = T"
proof (rule space.ok_unique)
  have sub: "set S \<subseteq> set T" if S: "set_ok nets S" and T: "set_ok nets T" and eq: "set_addrs nets S = set_addrs nets T" for S T
  proof
    fix p assume p: "p \<in> set S"
    then have cp: "ip_canonical nets p" using S by (simp add: set_okD(2))
    have "ip_addrs nets p \<subseteq> set_addrs nets T" using p eq by (auto simp: set_addrs_def)
    then obtain q where q: "q \<in> set T" "ip_addrs nets p \<subseteq> ip_addrs nets q"
      using contains_prefix_iff [OF T cp] containing_iff [OF T cp] unfolding contains_prefix_def by blast
    have cq: "ip_canonical nets q" using q T by (simp add: set_okD(2))
    have "ip_addrs nets q \<subseteq> set_addrs nets S" using q eq by (auto simp: set_addrs_def)
    then obtain r where r: "r \<in> set S" "ip_addrs nets q \<subseteq> ip_addrs nets r"
      using contains_prefix_iff [OF S cq] containing_iff [OF S cq] unfolding contains_prefix_def by blast
    have "r = p" using set_okD(3) [OF S r(1) p] q r space.addrs_nonempty [OF cp] by blast
    then have "p = q" using space.addrs_inj [OF cp cq] q r by blast
    then show "p \<in> set T" using q by simp
  qed
  show "set S = set T" using sub [OF S T eq] sub [OF T S] eq by blast
qed (use S T in \<open>simp_all add: set_okD(1)\<close>)

end

lemma set_addrs_simps [simp]:
  "set_addrs N [] = {}"
  "set_addrs N (p # S) = ip_addrs N p \<union> set_addrs N S"
  by (simp_all add: set_addrs_def)

lemma set_addrs_insert [simp]: "set_addrs N (bset_insert le p S) = ip_addrs N p \<union> set_addrs N S"
  by (simp add: set_addrs_def)

lemma set_addrs_remove: "p \<in> set S \<Longrightarrow> ip_addrs N p \<union> set_addrs N (bset_remove p S) = set_addrs N S"
  by (auto simp: set_addrs_def)

lemma apart_iff: "apart N p S \<longleftrightarrow> (\<forall>q\<in>set S. ip_addrs N p \<inter> ip_addrs N q = {})"
  by (auto simp: apart_def set_addrs_def)

declare remove_subprefixes.simps [simp del] aggregate_up.simps [simp del]

context ip_nets
begin

lemma apart_notin: "ip_canonical nets p \<Longrightarrow> apart nets p S \<Longrightarrow> p \<notin> set S"
  using space.addrs_nonempty unfolding apart_iff by blast

lemma last_subprefix_le: "ip_canonical nets p \<Longrightarrow> ip_le nets p (ip_get_last_subprefix nets p)"
  by (rule space.last_above) simp_all

lemma find_subprefix_None:
  assumes "\<forall>q\<in>set S. ip_canonical nets q" "ip_canonical nets p" "find_subprefix nets p S = None" "q \<in> set S"
  shows "\<not> ip_addrs nets q \<subseteq> ip_addrs nets p"
proof
  assume s: "ip_addrs nets q \<subseteq> ip_addrs nets p"
  have cq: "ip_canonical nets q" using assms(1,4) by blast
  have "ip_le nets p q" "ip_le nets q (ip_get_last_subprefix nets p)"
    using space.sub_le [OF assms(2) cq s] space.last_above [OF assms(2) cq s] by auto
  moreover have "ip_contains nets p q" using s by (simp add: ip_contains_addrs)
  ultimately show False
    using assms(3,4) by (auto simp: find_subprefix_def find_None_iff bset_range_def)
qed

lemma remove_subprefixes_filter:
  assumes "\<forall>q\<in>set S. ip_canonical nets q" "ip_canonical nets p"
  shows "remove_subprefixes nets p S = Some (filter (\<lambda>q. \<not> ip_addrs nets q \<subseteq> ip_addrs nets p) S)"
  using assms(1)
proof (induction "length S" arbitrary: S rule: less_induct)
  case less
  note last_subprefix_le [OF assms(2)]
  show ?case
  proof (cases "find_subprefix nets p S")
    case None
    have "filter (\<lambda>q. \<not> ip_addrs nets q \<subseteq> ip_addrs nets p) S = S"
      using find_subprefix_None [OF less.prems assms(2) None] by (simp add: filter_id_conv)
    then show ?thesis
      using None \<open>ip_le nets p (ip_get_last_subprefix nets p)\<close> by (simp add: remove_subprefixes.simps [of nets p S])
  next
    case (Some q)
    then have q: "q \<in> set S" "ip_addrs nets q \<subseteq> ip_addrs nets p"
      using find_subprefix_in ip_contains_addrs by blast+
    have "remove_subprefixes nets p (bset_remove q S) =
        Some (filter (\<lambda>r. \<not> ip_addrs nets r \<subseteq> ip_addrs nets p) (bset_remove q S))"
      using less.prems by (intro less.hyps length_bset_remove q) auto
    moreover have "filter (\<lambda>r. \<not> ip_addrs nets r \<subseteq> ip_addrs nets p) (bset_remove q S) =
        filter (\<lambda>r. \<not> ip_addrs nets r \<subseteq> ip_addrs nets p) S"
      unfolding bset_remove_def filter_filter using q(2) by (metis (mono_tags, lifting))
    ultimately show ?thesis
      using Some \<open>ip_le nets p (ip_get_last_subprefix nets p)\<close> by (simp add: remove_subprefixes.simps [of nets p S])
  qed
qed

text \<open>Walking up by joining neighbours keeps the addresses and ends with no neighbour in the set.\<close>

lemma aggregate_up_spec:
  assumes "set_ok nets S" "ip_canonical nets p" "apart nets p S"
  shows "\<exists>p' S'. aggregate_up nets p S = Some (p', S') \<and> set_ok nets S' \<and> ip_canonical nets p' \<and>
    apart nets p' S' \<and> ip_addrs nets p' \<union> set_addrs nets S' = ip_addrs nets p \<union> set_addrs nets S \<and>
    (\<forall>q\<in>set S'. ip_get_sibling nets p' \<noteq> Some (Some q))"
  using assms
proof (induction "length S" arbitrary: p S rule: less_induct)
  case less
  obtain o' where o': "ip_get_sibling nets p = Some o'" using ip_sibling_total by blast
  show ?case
  proof (cases "\<exists>s\<in>set S. o' = Some s")
    case False
    then have "aggregate_up nets p S = Some (p, S)"
      using o' by (auto simp: aggregate_up.simps [of nets p S] split: option.split)
    then show ?thesis using less.prems o' False by auto
  next
    case True
    then obtain s where s: "s \<in> set S" and sib: "ip_get_sibling nets p = Some (Some s)" using o' by blast
    obtain u where u: "ip_try_aggregate nets p s = Some u" "ip_canonical nets u"
        "ip_addrs nets u = ip_addrs nets p \<union> ip_addrs nets s"
      using ip_sibling_parent [OF less.prems(2) sib] by blast
    have up: "aggregate_up nets p S = aggregate_up nets u (bset_remove s S)"
      using sib s u(1) by (simp add: aggregate_up.simps [of nets p S])
    have ok: "set_ok nets (bset_remove s S)" using less.prems(1) by (rule set_ok_remove)
    have ap: "apart nets u (bset_remove s S)"
      unfolding apart_iff u(3)
    proof
      fix q assume "q \<in> set (bset_remove s S)"
      then have q: "q \<in> set S" "q \<noteq> s" by auto
      then have "ip_addrs nets s \<inter> ip_addrs nets q = {}" using set_okD(3) [OF less.prems(1) s q(1)] by blast
      moreover have "ip_addrs nets p \<inter> ip_addrs nets q = {}" using less.prems(3) q(1) unfolding apart_iff by blast
      ultimately show "(ip_addrs nets p \<union> ip_addrs nets s) \<inter> ip_addrs nets q = {}" by blast
    qed
    have cov: "ip_addrs nets u \<union> set_addrs nets (bset_remove s S) = ip_addrs nets p \<union> set_addrs nets S"
      using set_addrs_remove [OF s] u(3) by blast
    from less.hyps [OF length_bset_remove [OF s] ok u(2) ap] show ?thesis
      unfolding up cov .
  qed
qed

lemma set_ok_insert:
  assumes S: "set_ok nets S" and p: "ip_canonical nets p" and ap: "apart nets p S"
    and nosib: "\<forall>q\<in>set S. ip_get_sibling nets p \<noteq> Some (Some q)"
  shows "set_ok nets (bset_insert (ip_le nets) p S)"
proof -
  have rev: "ip_get_sibling nets q \<noteq> Some (Some p)" if "q \<in> set S" for q
    using ip_sibling_some [OF set_okD(2) [OF S that]] nosib that by blast
  have irr: "ip_get_sibling nets p \<noteq> Some (Some p)"
    using ip_sibling_some [OF p] space.addrs_nonempty [OF p] by blast
  show ?thesis
    unfolding set_ok_def using S p ap nosib rev irr space.ok_insert [OF set_okD(1) [OF S]]
    by (auto simp: set_ok_def apart_iff Int_commute)
qed

lemma set_add_spec:
  assumes S: "set_ok nets S" and p: "ip_canonical nets p"
  shows "\<exists>S'. set_add nets S p = Some S' \<and> set_ok nets S' \<and> set_addrs nets S' = set_addrs nets S \<union> ip_addrs nets p"
proof (cases "contains_prefix nets S p")
  case True
  then show ?thesis using S contains_prefix_iff [OF S p] by (auto simp: set_add_def)
next
  case False
  let ?S = "filter (\<lambda>q. \<not> ip_addrs nets q \<subseteq> ip_addrs nets p) S"
  have r: "remove_subprefixes nets p S = Some ?S"
    using S p by (intro remove_subprefixes_filter) (auto simp: set_ok_def)
  have ok: "set_ok nets ?S" using S by (rule set_ok_filter)
  have ap: "apart nets p ?S"
    unfolding apart_iff
  proof
    fix q assume "q \<in> set ?S"
    then have q: "q \<in> set S" "\<not> ip_addrs nets q \<subseteq> ip_addrs nets p" by auto
    then have "ip_canonical nets q" using S by (simp add: set_okD(2))
    moreover have "\<not> ip_addrs nets p \<subseteq> ip_addrs nets q"
      using False containing_iff [OF S p] q(1) unfolding contains_prefix_def by blast
    ultimately show "ip_addrs nets p \<inter> ip_addrs nets q = {}" using space.laminar [OF p] q(2) by blast
  qed
  have cov: "ip_addrs nets p \<union> set_addrs nets ?S = ip_addrs nets p \<union> set_addrs nets S"
    by (auto simp: set_addrs_def)
  obtain p' S' where u: "aggregate_up nets p ?S = Some (p', S')" "set_ok nets S'" "ip_canonical nets p'" "apart nets p' S'"
      "ip_addrs nets p' \<union> set_addrs nets S' = ip_addrs nets p \<union> set_addrs nets S"
      "\<forall>q\<in>set S'. ip_get_sibling nets p' \<noteq> Some (Some q)"
    using aggregate_up_spec [OF ok p ap] unfolding cov by blast
  have "set_add nets S p = Some (bset_insert (ip_le nets) p' S')"
    using False r u(1) by (simp add: set_add_def)
  then show ?thesis
    using set_ok_insert [OF u(2,3,4,6)] u(5) by auto
qed

lemma add_all_spec:
  assumes "set_ok nets S" "\<forall>p\<in>set ps. ip_canonical nets p"
  shows "\<exists>S'. add_all nets S ps = Some S' \<and> set_ok nets S' \<and>
    set_addrs nets S' = set_addrs nets S \<union> \<Union> (ip_addrs nets ` set ps)"
  using assms
proof (induction ps arbitrary: S)
  case Nil
  then show ?case by simp
next
  case (Cons p ps)
  from set_add_spec [OF Cons.prems(1), of p] Cons.prems(2)
  obtain S1 where S1: "set_add nets S p = Some S1" "set_ok nets S1" "set_addrs nets S1 = set_addrs nets S \<union> ip_addrs nets p"
    by auto
  from Cons.IH [OF S1(2)] Cons.prems(2) show ?case by (auto simp: S1)
qed

end

context ip_nets
begin

lemma part_contains:
  assumes "ip_canonical nets c1" "ip_canonical nets c2" "ip_canonical nets p"
    and sib: "ip_get_sibling nets c1 = Some (Some c2)"
    and sub: "ip_addrs nets p \<subset> ip_addrs nets c1 \<union> ip_addrs nets c2"
  shows "ip_addrs nets p \<subseteq> ip_addrs nets c1 \<or> ip_addrs nets p \<subseteq> ip_addrs nets c2"
proof (rule ccontr)
  assume no: "\<not> (ip_addrs nets p \<subseteq> ip_addrs nets c1 \<or> ip_addrs nets p \<subseteq> ip_addrs nets c2)"
  have bk: "ip_get_sibling nets c2 = Some (Some c1)" using ip_sibling_some [OF assms(1) sib] by blast
  have "ip_addrs nets p \<inter> ip_addrs nets c1 \<noteq> {}" using no sub by blast
  then have "ip_addrs nets c1 \<subset> ip_addrs nets p" using space.laminar [OF assms(3,1)] no by blast
  then have "ip_addrs nets c1 \<union> ip_addrs nets c2 \<subseteq> ip_addrs nets p"
    using ip_parent_least [OF assms(1,3) sib] by blast
  then show False using sub by blast
qed

text \<open>
  Splitting a container down to the prefix puts back exactly the rest of its addresses,
  and it ends because every part is narrower than the container.
\<close>

lemma fragment_spec:
  assumes "set_ok nets S" "ip_canonical nets c" "ip_canonical nets p" "apart nets c S"
    and "ip_addrs nets p \<subseteq> ip_addrs nets c"
  shows "\<exists>S'. fragment nets p c S = Some S' \<and> set_ok nets S' \<and>
    set_addrs nets S' = set_addrs nets S \<union> (ip_addrs nets c - ip_addrs nets p)"
  using assms
proof (induction "ip_width nets c" arbitrary: c S rule: less_induct)
  case less
  note S = less.prems(1) and c = less.prems(2) and p = less.prems(3) and ap = less.prems(4)
  show ?case
  proof (cases "c = p")
    case True
    then show ?thesis using S by (simp add: fragment.simps [of nets p p S])
  next
    case False
    then have lt: "ip_addrs nets p \<subset> ip_addrs nets c"
      using less.prems(5) space.addrs_inj [OF c p] by blast
    obtain c1 c2 where b: "ip_bifurcate nets c = Some (Some (c1, c2))" "ip_canonical nets c1" "ip_canonical nets c2"
        "ip_addrs nets c1 \<union> ip_addrs nets c2 = ip_addrs nets c" "ip_get_sibling nets c1 = Some (Some c2)"
      using ip_bifurcate_parts [OF c lt] by blast
    from ip_sibling_some [OF b(2,5)] have bk: "ip_get_sibling nets c2 = Some (Some c1)"
      and dis: "ip_addrs nets c1 \<inter> ip_addrs nets c2 = {}" by blast+
    have step: "\<exists>S'. fragment nets p d (bset_insert (ip_le nets) e S) = Some S' \<and> set_ok nets S' \<and>
        set_addrs nets S' = set_addrs nets S \<union> (ip_addrs nets c - ip_addrs nets p)"
      if d: "ip_canonical nets d" "ip_canonical nets e" "ip_addrs nets d \<union> ip_addrs nets e = ip_addrs nets c"
        "ip_addrs nets d \<inter> ip_addrs nets e = {}" "ip_get_sibling nets e = Some (Some d)"
        "ip_addrs nets p \<subseteq> ip_addrs nets d" for d e
    proof -
      have "ip_addrs nets d \<subset> ip_addrs nets c" using d space.addrs_nonempty [OF d(2)] by blast
      then have w: "ip_width nets d < ip_width nets c" using space.strict_width d(1) c by blast
      have ae: "apart nets e S" and ad: "apart nets d S" using ap d(3) unfolding apart_def by blast+
      have "d \<notin> set S" using apart_notin [OF d(1) ad] .
      then have ok: "set_ok nets (bset_insert (ip_le nets) e S)"
        using d(5) by (intro set_ok_insert [OF S d(2) ae]) auto
      have ade: "apart nets d (bset_insert (ip_le nets) e S)" using ad d(4) unfolding apart_def by auto
      have "set_addrs nets (bset_insert (ip_le nets) e S) \<union> (ip_addrs nets d - ip_addrs nets p) =
          set_addrs nets S \<union> (ip_addrs nets c - ip_addrs nets p)"
        using d(3,4,6) by auto
      then show ?thesis using less.hyps [OF w ok d(1) p ade d(6)] by simp
    qed
    have dis': "ip_addrs nets c2 \<inter> ip_addrs nets c1 = {}" and u': "ip_addrs nets c2 \<union> ip_addrs nets c1 = ip_addrs nets c"
      using dis b(4) by blast+
    show ?thesis
    proof (cases "ip_contains nets c1 p")
      case True
      then have "fragment nets p c S = fragment nets p c1 (bset_insert (ip_le nets) c2 S)"
        using False b(1) by (simp add: fragment.simps [of nets p c S])
      then show ?thesis using step [OF b(2,3,4) dis bk] True by (simp add: ip_contains_addrs)
    next
      case no: False
      then have c2: "ip_contains nets c2 p"
        using part_contains [OF b(2,3) p b(5)] lt b(4) by (simp add: ip_contains_addrs)
      then have "fragment nets p c S = fragment nets p c2 (bset_insert (ip_le nets) c1 S)"
        using False no b(1) by (simp add: fragment.simps [of nets p c S])
      then show ?thesis using step [OF b(3,2) u' dis' b(5)] c2 by (simp add: ip_contains_addrs)
    qed
  qed
qed

lemma set_remove_spec:
  assumes S: "set_ok nets S" and p: "ip_canonical nets p"
  shows "\<exists>S'. set_remove nets S p = Some S' \<and> set_ok nets S' \<and>
    set_addrs nets S' =
      (if ip_addrs nets p \<subseteq> set_addrs nets S then set_addrs nets S - ip_addrs nets p else set_addrs nets S)"
proof (cases "get_containing_prefix nets S p")
  case None
  then have "\<not> ip_addrs nets p \<subseteq> set_addrs nets S"
    using contains_prefix_iff [OF S p] by (simp add: contains_prefix_def)
  then show ?thesis using None S by (simp add: set_remove_def)
next
  case (Some c)
  then have c: "c \<in> set S" "ip_addrs nets p \<subseteq> ip_addrs nets c" using containing_iff [OF S p] by blast+
  have cc: "ip_canonical nets c" using S c by (simp add: set_okD(2))
  have ap: "apart nets c (bset_remove c S)"
    unfolding apart_iff using set_okD(3) [OF S c(1)] by auto
  have cov: "set_addrs nets (bset_remove c S) \<union> (ip_addrs nets c - ip_addrs nets p) = set_addrs nets S - ip_addrs nets p"
    using set_addrs_remove [OF c(1), of nets] ap c(2) unfolding apart_def by blast
  have "ip_addrs nets p \<subseteq> set_addrs nets S" using c by (auto simp: set_addrs_def)
  then show ?thesis
    using fragment_spec [OF set_ok_remove [OF S] cc p ap c(2)] unfolding cov
    by (simp add: set_remove_def Some)
qed

end

text \<open>
  C16. Membership is exact: for a set in its normal form (prefixes ascending, canonical,
  sharing no address, no two neighbours), a canonical prefix is reported as contained
  exactly when all its addresses belong to the set, even though only the last stored
  prefix not above it is looked at.\<close>
theorem ip_set_contains:
  assumes "ipnet N4" "ipnet N6" "set_ok (N4, N6) S" "ip_canonical (N4, N6) p"
  shows "contains_prefix (N4, N6) S p \<longleftrightarrow> ip_addrs (N4, N6) p \<subseteq> set_addrs (N4, N6) S"
  by (rule ip_nets.contains_prefix_iff [OF ip_nets.intro [OF assms(1,2)] assms(3,4)])

theorem ip_set_contains_witness:
  "contains_prefix (ipnet_doc Map.empty, ipnet_doc Map.empty) [] (V4 (Ipv4Prefix (Abs_net_doc (0, 8)))) \<longleftrightarrow>
     ip_addrs (ipnet_doc Map.empty, ipnet_doc Map.empty) (V4 (Ipv4Prefix (Abs_net_doc (0, 8)))) \<subseteq>
     set_addrs (ipnet_doc Map.empty, ipnet_doc Map.empty) []"
  by (rule ip_set_contains [OF doc.ipnet_axioms doc.ipnet_axioms]) (simp_all add: net_canonical_def doc_first_def)

text \<open>
  C6. Adding a canonical prefix to a set in normal form never panics, gives a set in
  normal form, and adds exactly the addresses of the prefix.\<close>
theorem ip_set_add:
  assumes "ipnet N4" "ipnet N6" "set_ok (N4, N6) S" "ip_canonical (N4, N6) p"
  shows "\<exists>S'. set_add (N4, N6) S p = Some S' \<and> set_ok (N4, N6) S' \<and>
    set_addrs (N4, N6) S' = set_addrs (N4, N6) S \<union> ip_addrs (N4, N6) p"
  by (rule ip_nets.set_add_spec [OF ip_nets.intro [OF assms(1,2)] assms(3,4)])

theorem ip_set_add_witness:
  "\<exists>S'. set_add (ipnet_doc Map.empty, ipnet_doc Map.empty) [] (V4 (Ipv4Prefix (Abs_net_doc (0, 8)))) = Some S' \<and>
     set_addrs (ipnet_doc Map.empty, ipnet_doc Map.empty) S' =
     ip_addrs (ipnet_doc Map.empty, ipnet_doc Map.empty) (V4 (Ipv4Prefix (Abs_net_doc (0, 8))))"
proof -
  have "\<exists>S'. set_add (ipnet_doc Map.empty, ipnet_doc Map.empty) [] (V4 (Ipv4Prefix (Abs_net_doc (0, 8)))) = Some S' \<and>
     set_ok (ipnet_doc Map.empty, ipnet_doc Map.empty) S' \<and>
     set_addrs (ipnet_doc Map.empty, ipnet_doc Map.empty) S' =
     set_addrs (ipnet_doc Map.empty, ipnet_doc Map.empty) [] \<union>
     ip_addrs (ipnet_doc Map.empty, ipnet_doc Map.empty) (V4 (Ipv4Prefix (Abs_net_doc (0, 8))))"
    by (rule ip_set_add [OF doc.ipnet_axioms doc.ipnet_axioms]) (simp_all add: net_canonical_def doc_first_def)
  then show ?thesis by auto
qed

text \<open>
  C7. Removing a canonical prefix from a set in normal form always returns a set in normal
  form.  When all addresses of the prefix belong to the set, exactly these are removed;
  otherwise the set keeps all its addresses, also those that belong to the prefix.\<close>
theorem ip_set_remove:
  assumes "ipnet N4" "ipnet N6" "set_ok (N4, N6) S" "ip_canonical (N4, N6) p"
  shows "\<exists>S'. set_remove (N4, N6) S p = Some S' \<and> set_ok (N4, N6) S' \<and>
    set_addrs (N4, N6) S' =
      (if ip_addrs (N4, N6) p \<subseteq> set_addrs (N4, N6) S then set_addrs (N4, N6) S - ip_addrs (N4, N6) p
       else set_addrs (N4, N6) S)"
  by (rule ip_nets.set_remove_spec [OF ip_nets.intro [OF assms(1,2)] assms(3,4)])

theorem ip_set_remove_witness:
  "\<exists>S'. set_remove (ipnet_doc Map.empty, ipnet_doc Map.empty) [] (V4 (Ipv4Prefix (Abs_net_doc (0, 8)))) = Some S'"
  using ip_set_remove [OF doc.ipnet_axioms doc.ipnet_axioms, of Map.empty Map.empty "[]" "V4 (Ipv4Prefix (Abs_net_doc (0, 8)))"]
  by (auto simp: net_canonical_def doc_first_def)

text \<open>
  C20. Aggregating canonical prefixes always returns; the result is in normal form and covers
  exactly their addresses, and two inputs give the same list exactly when they cover the
  same addresses: the aggregation is a canonical form.\<close>
theorem aggregate_prefixes_canonical:
  assumes "ipnet N4" "ipnet N6" "\<forall>v\<in>set vs. ip_canonical (N4, N6) (f v)" "\<forall>v\<in>set ws. ip_canonical (N4, N6) (f v)"
  shows "\<exists>S T. aggregate_prefixes (N4, N6) f vs = Some S \<and> aggregate_prefixes (N4, N6) f ws = Some T \<and>
    set_ok (N4, N6) S \<and> set_addrs (N4, N6) S = (\<Union>v\<in>set vs. ip_addrs (N4, N6) (f v)) \<and>
    (S = T \<longleftrightarrow> (\<Union>v\<in>set vs. ip_addrs (N4, N6) (f v)) = (\<Union>w\<in>set ws. ip_addrs (N4, N6) (f w)))"
proof -
  from assms(1,2) have nets: "ip_nets N4 N6" by (rule ip_nets.intro)
  have spec: "\<exists>S. aggregate_prefixes (N4, N6) f us = Some S \<and> set_ok (N4, N6) S \<and>
      set_addrs (N4, N6) S = (\<Union>v\<in>set us. ip_addrs (N4, N6) (f v))"
    if "\<forall>v\<in>set us. ip_canonical (N4, N6) (f v)" for us
    using ip_nets.add_all_spec [OF nets set_ok_Nil, of "map f us"] that
    by (auto simp: aggregate_prefixes_def set_from_iter_def new_empty_def get_prefixes_def image_image)
  obtain S T where ST: "aggregate_prefixes (N4, N6) f vs = Some S" "set_ok (N4, N6) S"
      "set_addrs (N4, N6) S = (\<Union>v\<in>set vs. ip_addrs (N4, N6) (f v))"
      "aggregate_prefixes (N4, N6) f ws = Some T" "set_ok (N4, N6) T"
      "set_addrs (N4, N6) T = (\<Union>w\<in>set ws. ip_addrs (N4, N6) (f w))"
    using spec [OF assms(3)] spec [OF assms(4)] by blast
  have "S = T \<longleftrightarrow> set_addrs (N4, N6) S = set_addrs (N4, N6) T"
    using ip_nets.set_ok_unique [OF nets ST(2,5)] by blast
  with ST show ?thesis by auto
qed

theorem aggregate_prefixes_canonical_witness:
  "\<exists>S. aggregate_prefixes (ipnet_doc Map.empty, ipnet_doc Map.empty)
     (addr_to_prefix (ipnet_doc Map.empty, ipnet_doc Map.empty)) [AddrV4 1, AddrV4 0] = Some S \<and>
   aggregate_prefixes (ipnet_doc Map.empty, ipnet_doc Map.empty)
     (addr_to_prefix (ipnet_doc Map.empty, ipnet_doc Map.empty)) [AddrV4 0, AddrV4 1, AddrV4 0] = Some S"
proof -
  have c: "ip_canonical (ipnet_doc Map.empty, ipnet_doc Map.empty)
      (addr_to_prefix (ipnet_doc Map.empty, ipnet_doc Map.empty) a)" for a
    by (rule ip_nets.nets_conversions(3) [OF ip_nets.intro [OF doc.ipnet_axioms doc.ipnet_axioms]])
  show ?thesis
    using aggregate_prefixes_canonical [OF doc.ipnet_axioms doc.ipnet_axioms, of "[AddrV4 1, AddrV4 0]" Map.empty Map.empty
        "addr_to_prefix (ipnet_doc Map.empty, ipnet_doc Map.empty)" "[AddrV4 0, AddrV4 1, AddrV4 0]"] c
    by auto
qed

end
