(* ===== verification/Ip_Network.thy ===== *)
theory Ip_Network
  imports Ip_Prefix
begin

section \<open>Networks of the crate ipnetwork\<close>

text \<open>
  The type \<^verbatim>\<open>IpNetwork\<close> of the crate \<^verbatim>\<open>ipnetwork\<close>, which the allocator of addresses works on: its
  operations are the record \<open>ip_network_ops\<close>, an argument of every definition that calls them.  The
  locale \<open>ip_network\<close> states what the crate documents about them, with the geometry that follows:
  networks are blocks of addresses that are nested or disjoint, and a network is tiled by the networks
  of a greater length.  \<open>ip_network_doc\<close> is one implementation of that documentation.
\<close>

subsection \<open>The interface of the network crate\<close>

type_synonym u128 = "128 word"

datatype network_size = SizeV4 u32 | SizeV6 u128

record 'n ip_network_ops =
  nw_new :: "ip_addr \<Rightarrow> nat \<Rightarrow> 'n option"
  nw_ip :: "'n \<Rightarrow> ip_addr"
  nw_prefix :: "'n \<Rightarrow> nat"
  nw_network :: "'n \<Rightarrow> ip_addr"
  nw_broadcast :: "'n \<Rightarrow> ip_addr"
  nw_contains :: "'n \<Rightarrow> ip_addr \<Rightarrow> bool"
  nw_nth :: "'n \<Rightarrow> nat \<Rightarrow> ip_addr option"
  nw_size :: "'n \<Rightarrow> network_size"
  nw_le :: "'n \<Rightarrow> 'n \<Rightarrow> bool"

definition nw_family :: "'n ip_network_ops \<Rightarrow> 'n \<Rightarrow> ip_address_family" where
  "nw_family N n = addr_family (nw_ip N n)"

text \<open>\<^verbatim>\<open>iter().take(k)\<close>.\<close>

definition nw_take :: "'n ip_network_ops \<Rightarrow> 'n \<Rightarrow> nat \<Rightarrow> ip_addr list" where
  "nw_take N n k = List.map_filter (nw_nth N n) [0..<k]"

subsection \<open>What the crate documents\<close>

text \<open>An address as a number, and the number as an address of a family.\<close>

fun addr_val :: "ip_addr \<Rightarrow> nat" where
  "addr_val (AddrV4 a) = unat a"
| "addr_val (AddrV6 a) = unat a"

fun addr_of :: "ip_address_family \<Rightarrow> nat \<Rightarrow> ip_addr" where
  "addr_of Ipv4 v = AddrV4 (word_of_nat v)"
| "addr_of Ipv6 v = AddrV6 (word_of_nat v)"

abbreviation addr_bits :: "ip_addr \<Rightarrow> nat" where
  "addr_bits a \<equiv> interface_prefix_len (addr_family a)"

definition nw_width :: "'n ip_network_ops \<Rightarrow> 'n \<Rightarrow> nat" where
  "nw_width N n = interface_prefix_len (nw_family N n) - nw_prefix N n"

definition nw_index :: "'n ip_network_ops \<Rightarrow> 'n \<Rightarrow> nat" where
  "nw_index N n = addr_val (nw_ip N n) div 2 ^ nw_width N n"

text \<open>The addresses of a network.\<close>

definition nw_addrs :: "'n ip_network_ops \<Rightarrow> 'n \<Rightarrow> ip_addr set" where
  "nw_addrs N n = {a. nw_contains N n a}"

text \<open>The \<open>k\<close>th network of a length in a segment.\<close>

definition nth_subnet :: "'n ip_network_ops \<Rightarrow> 'n \<Rightarrow> nat \<Rightarrow> nat \<Rightarrow> 'n" where
  "nth_subnet N segment len k =
     the (nw_new N (addr_of (nw_family N segment) (addr_val (nw_network N segment) + k * 2 ^ (interface_prefix_len (nw_family N segment) - len))) len)"

definition is_host :: "'n ip_network_ops \<Rightarrow> ip_addr \<Rightarrow> 'n \<Rightarrow> bool" where
  "is_host N a n \<longleftrightarrow> nw_network N n = a \<and> nw_prefix N n = addr_bits a \<and> nw_family N n = addr_family a \<and> nw_addrs N n = {a}"

text \<open>An implementation of the documentation: an address with a length, which is cut off at the width of the family.\<close>

definition doc_prefix :: "ip_addr \<times> nat \<Rightarrow> nat" where
  "doc_prefix n = min (snd n) (addr_bits (fst n))"

definition doc_host_bits :: "ip_addr \<times> nat \<Rightarrow> nat" where
  "doc_host_bits n = addr_bits (fst n) - doc_prefix n"

definition doc_start :: "ip_addr \<times> nat \<Rightarrow> nat" where
  "doc_start n = addr_val (fst n) div 2 ^ doc_host_bits n * 2 ^ doc_host_bits n"

definition ip_network_doc :: "(ip_addr \<times> nat) ip_network_ops" where
  "ip_network_doc =
     \<lparr>nw_new = \<lambda>a l. if l \<le> addr_bits a then Some (a, l) else None,
      nw_ip = fst,
      nw_prefix = doc_prefix,
      nw_network = \<lambda>n. addr_of (addr_family (fst n)) (doc_start n),
      nw_broadcast = \<lambda>n. addr_of (addr_family (fst n)) (doc_start n + (2 ^ doc_host_bits n - 1)),
      nw_contains = \<lambda>n a. addr_family a = addr_family (fst n) \<and> doc_start n \<le> addr_val a \<and> addr_val a \<le> doc_start n + (2 ^ doc_host_bits n - 1),
      nw_nth = \<lambda>n i. if i < 2 ^ doc_host_bits n then Some (addr_of (addr_family (fst n)) (doc_start n + i)) else None,
      nw_size = \<lambda>n. (case addr_family (fst n) of Ipv4 \<Rightarrow> SizeV4 (word_of_nat (2 ^ doc_host_bits n)) | Ipv6 \<Rightarrow> SizeV6 (word_of_nat (2 ^ doc_host_bits n))),
      nw_le = \<lambda>n m. addr_val (fst n) < addr_val (fst m) \<or> addr_val (fst n) = addr_val (fst m) \<and> snd n \<le> snd m\<rparr>"

lemma addr_val_bound: "addr_val a < 2 ^ addr_bits a"
proof (cases a)
  case (AddrV4 x)
  then show ?thesis using unsigned_less [of x] by simp
next
  case (AddrV6 x)
  then show ?thesis using unsigned_less [of x] by simp
qed

lemma addr_eqI: "addr_family a = addr_family b \<Longrightarrow> addr_val a = addr_val b \<Longrightarrow> a = b"
  by (cases a; cases b) (auto simp: word_unat_eq_iff)

lemma addr_of_simps [simp]:
  "addr_family (addr_of f v) = f"
  "v < 2 ^ interface_prefix_len f \<Longrightarrow> addr_val (addr_of f v) = v"
  by (cases f; simp add: unat_of_nat)+

lemma addr_of_val [simp]: "addr_of (addr_family a) (addr_val a) = a"
  by (cases a) simp_all

lemma mem_block: "v \<in> block i w \<longleftrightarrow> i * 2 ^ w \<le> v \<and> v < i * 2 ^ w + 2 ^ w"
  by (simp add: block_def div_pow_eq_iff)

lemma interface_prefix_len_le: "interface_prefix_len f \<le> 128"
  by (cases f) simp_all

lemma interface_pow_le: "(2 :: nat) ^ interface_prefix_len f \<le> 2 ^ 128"
  by (cases f) simp_all

lemma unat_u128: "v < 2 ^ 128 \<Longrightarrow> unat (word_of_nat v :: u128) = v"
  by (simp add: unat_of_nat)

locale ip_network =
  fixes N :: "'n ip_network_ops"
  assumes prefix_bound: "nw_prefix N n \<le> addr_bits (nw_ip N n)"
    and new_valid: "l \<le> addr_bits a \<Longrightarrow> \<exists>n. nw_new N a l = Some n \<and> nw_ip N n = a \<and> nw_prefix N n = l"
    and new_invalid: "addr_bits a < l \<Longrightarrow> nw_new N a l = None"
    and network: "addr_family (nw_network N n) = nw_family N n" "addr_val (nw_network N n) = nw_index N n * 2 ^ nw_width N n"
    and broadcast: "addr_family (nw_broadcast N n) = nw_family N n" "addr_val (nw_broadcast N n) = nw_index N n * 2 ^ nw_width N n + (2 ^ nw_width N n - 1)"
    and contains: "nw_contains N n a \<longleftrightarrow> addr_family a = nw_family N n \<and> addr_val (nw_network N n) \<le> addr_val a \<and> addr_val a \<le> addr_val (nw_broadcast N n)"
    and iter: "nw_nth N n i = (if i < 2 ^ nw_width N n then Some (addr_of (nw_family N n) (addr_val (nw_network N n) + i)) else None)"
    and size_v4: "nw_family N n = Ipv4 \<Longrightarrow> \<exists>x. nw_size N n = SizeV4 x \<and> (0 < nw_prefix N n \<longrightarrow> unat x = 2 ^ nw_width N n)"
    and size_v6: "nw_family N n = Ipv6 \<Longrightarrow> \<exists>x. nw_size N n = SizeV6 x \<and> (0 < nw_prefix N n \<longrightarrow> unat x = 2 ^ nw_width N n)"

begin

lemma width_bound: "nw_width N n + nw_prefix N n = interface_prefix_len (nw_family N n)"
  using prefix_bound [of n] by (simp add: nw_width_def nw_family_def)

lemma mem_addrs: "a \<in> nw_addrs N n \<longleftrightarrow> addr_family a = nw_family N n \<and> addr_val a \<in> block (nw_index N n) (nw_width N n)"
  by (simp add: nw_addrs_def contains network(2) broadcast(2) block_interval)

lemma network_mem: "nw_network N n \<in> nw_addrs N n"
  by (simp add: mem_addrs network block_mem)

lemma broadcast_mem: "nw_broadcast N n \<in> nw_addrs N n"
  using le_add1 [of "nw_index N n * 2 ^ nw_width N n" "2 ^ nw_width N n - 1"] by (simp only: nw_addrs_def mem_Collect_eq contains network broadcast) simp

lemma block_bound: "nw_index N n * 2 ^ nw_width N n + 2 ^ nw_width N n \<le> 2 ^ interface_prefix_len (nw_family N n)"
proof -
  let ?w = "nw_width N n" and ?B = "interface_prefix_len (nw_family N n)"
  have "addr_val (nw_ip N n) < 2 ^ ?B" using addr_val_bound [of "nw_ip N n"] by (simp add: nw_family_def)
  also have "(2 :: nat) ^ ?B = 2 ^ ?w * 2 ^ nw_prefix N n" unfolding width_bound [symmetric] by (simp add: power_add)
  finally have "nw_index N n < 2 ^ nw_prefix N n" by (simp add: nw_index_def less_mult_imp_div_less mult.commute)
  then have "(nw_index N n + 1) * 2 ^ ?w \<le> 2 ^ nw_prefix N n * 2 ^ ?w" by (intro mult_le_mono1) simp
  then show ?thesis unfolding width_bound [symmetric] by (simp add: power_add algebra_simps)
qed

lemma laminar: "nw_addrs N n \<inter> nw_addrs N m = {} \<or> nw_addrs N n \<subseteq> nw_addrs N m \<or> nw_addrs N m \<subseteq> nw_addrs N n"
  using block_laminar [of "nw_index N n" "nw_width N n" "nw_index N m" "nw_width N m"] by (auto simp: mem_addrs)

lemma card_addrs: "card (nw_addrs N n) = 2 ^ nw_width N n" "finite (nw_addrs N n)"
proof -
  let ?f = "addr_of (nw_family N n)" and ?b = "block (nw_index N n) (nw_width N n)"
  have small: "v < 2 ^ interface_prefix_len (nw_family N n)" if "v \<in> ?b" for v
    using that block_bound [of n] by (simp add: mem_block)
  have img: "nw_addrs N n = ?f ` ?b"
  proof
    show "nw_addrs N n \<subseteq> ?f ` ?b" by (metis (no_types, lifting) addr_of_val imageI mem_addrs subsetI)
    show "?f ` ?b \<subseteq> nw_addrs N n" using small by (auto simp: mem_addrs)
  qed
  have "inj_on ?f ?b" by (rule inj_on_inverseI [where g = addr_val]) (simp add: small)
  then show "card (nw_addrs N n) = 2 ^ nw_width N n" "finite (nw_addrs N n)" by (simp_all add: img card_image block_card)
qed

text \<open>A network inside another is not shorter; a longer one that holds the first address of a shorter one starts there.\<close>

lemma subset_prefix: "nw_addrs N n \<subseteq> nw_addrs N m \<Longrightarrow> nw_prefix N m \<le> nw_prefix N n \<and> nw_family N n = nw_family N m"
proof -
  assume s: "nw_addrs N n \<subseteq> nw_addrs N m"
  have f: "nw_family N n = nw_family N m" using subsetD [OF s network_mem] by (simp add: mem_addrs network)
  have "(2 :: nat) ^ nw_width N n \<le> 2 ^ nw_width N m" using card_mono [OF card_addrs(2) s] by (simp add: card_addrs)
  then have "nw_width N n \<le> nw_width N m" by simp
  then show ?thesis using width_bound [of n] width_bound [of m] f by simp
qed

lemma shared_base:
  assumes "nw_contains N v (nw_network N u)" "nw_prefix N u \<le> nw_prefix N v"
  shows "nw_addrs N v \<subseteq> nw_addrs N u" "nw_network N v = nw_network N u" "nw_prefix N u = nw_prefix N v \<Longrightarrow> nw_addrs N v = nw_addrs N u"
proof -
  have m: "nw_network N u \<in> nw_addrs N v" using assms(1) by (simp add: nw_addrs_def)
  have same: "nw_addrs N u = nw_addrs N v" if s: "nw_addrs N u \<subseteq> nw_addrs N v"
  proof (rule card_subset_eq [OF card_addrs(2) s])
    have "nw_width N u = nw_width N v" using subset_prefix [OF s] assms(2) width_bound [of u] width_bound [of v] by simp
    then show "card (nw_addrs N u) = card (nw_addrs N v)" by (simp add: card_addrs)
  qed
  show sub: "nw_addrs N v \<subseteq> nw_addrs N u" using laminar [of u v] m network_mem [of u] same by blast
  then have "nw_network N v \<in> nw_addrs N u" using network_mem by blast
  then have "addr_val (nw_network N u) \<le> addr_val (nw_network N v)" "addr_val (nw_network N v) \<le> addr_val (nw_network N u)"
    using m by (auto simp: nw_addrs_def contains)
  then show "nw_network N v = nw_network N u" using sub subset_prefix [OF sub] by (intro addr_eqI) (auto simp: network)
  show "nw_addrs N v = nw_addrs N u" if "nw_prefix N u = nw_prefix N v"
  proof (rule card_subset_eq [OF card_addrs(2) sub])
    have "nw_width N u = nw_width N v" using subset_prefix [OF sub] that width_bound [of u] width_bound [of v] by simp
    then show "card (nw_addrs N v) = card (nw_addrs N u)" by (simp add: card_addrs)
  qed
qed

text \<open>The networks of a length inside a segment, in order.\<close>

lemma subnet_bound:
  assumes "nw_prefix N seg \<le> l" "l \<le> interface_prefix_len (nw_family N seg)" "k < 2 ^ (l - nw_prefix N seg)"
  shows "addr_val (nw_network N seg) + k * 2 ^ (interface_prefix_len (nw_family N seg) - l) + 2 ^ (interface_prefix_len (nw_family N seg) - l)
    \<le> nw_index N seg * 2 ^ nw_width N seg + 2 ^ nw_width N seg"
proof -
  let ?B = "interface_prefix_len (nw_family N seg)"
  have "(k + 1) * 2 ^ (?B - l) \<le> 2 ^ (l - nw_prefix N seg) * 2 ^ (?B - l)" using assms(3) by (intro mult_le_mono1) simp
  also have "\<dots> = (2 :: nat) ^ nw_width N seg" using assms(1,2) by (simp add: nw_width_def flip: power_add)
  finally show ?thesis by (simp add: network(2) algebra_simps)
qed

lemma nth_subnet:
  assumes "nw_prefix N seg \<le> l" "l \<le> interface_prefix_len (nw_family N seg)" "k < 2 ^ (l - nw_prefix N seg)"
  defines "v \<equiv> addr_val (nw_network N seg) + k * 2 ^ (interface_prefix_len (nw_family N seg) - l)"
  shows "nw_new N (addr_of (nw_family N seg) v) l = Some (nth_subnet N seg l k)"
    and "nw_prefix N (nth_subnet N seg l k) = l" "nw_family N (nth_subnet N seg l k) = nw_family N seg"
    and "addr_val (nw_network N (nth_subnet N seg l k)) = v" "nw_addrs N (nth_subnet N seg l k) \<subseteq> nw_addrs N seg"
proof -
  let ?B = "interface_prefix_len (nw_family N seg)" and ?n = "nth_subnet N seg l k"
  note b = subnet_bound [OF assms(1-3)]
  have "v < v + 2 ^ (?B - l)" by simp
  then have small: "v < 2 ^ ?B" using b block_bound [of seg] unfolding v_def by linarith
  obtain n where n: "nw_new N (addr_of (nw_family N seg) v) l = Some n" "nw_ip N n = addr_of (nw_family N seg) v" "nw_prefix N n = l"
    using new_valid [of l "addr_of (nw_family N seg) v"] assms(2) by auto
  have "?n = n" using n(1) by (simp add: nth_subnet_def v_def)
  then show new: "nw_new N (addr_of (nw_family N seg) v) l = Some ?n" and len: "nw_prefix N ?n = l" and fam: "nw_family N ?n = nw_family N seg"
    using n by (simp_all add: nw_family_def)
  have w: "nw_width N ?n = ?B - l" by (simp add: nw_width_def len fam)
  have "(2 :: nat) ^ nw_width N seg = 2 ^ (l - nw_prefix N seg) * 2 ^ (?B - l)" using assms(1,2) by (simp add: nw_width_def flip: power_add)
  then have v: "v = (nw_index N seg * 2 ^ (l - nw_prefix N seg) + k) * 2 ^ (?B - l)" by (simp add: v_def network(2) algebra_simps)
  have "nw_index N ?n = v div 2 ^ (?B - l)" unfolding nw_index_def w using n(2) small \<open>?n = n\<close> by simp
  then have i: "nw_index N ?n * 2 ^ (?B - l) = v" unfolding v by simp
  then show "addr_val (nw_network N ?n) = v" by (simp add: network(2) w)
  have "addr_val (nw_network N seg) \<le> v" by (simp add: v_def)
  then show "nw_addrs N ?n \<subseteq> nw_addrs N seg"
    using b by (auto simp: mem_addrs mem_block fam w i network(2) v_def)
qed

lemma nth_subnet_cover:
  assumes "nw_addrs N n \<subseteq> nw_addrs N seg"
  obtains k where "k < 2 ^ (nw_prefix N n - nw_prefix N seg)" "nw_addrs N n = nw_addrs N (nth_subnet N seg (nw_prefix N n) k)"
proof -
  let ?l = "nw_prefix N n" and ?p = "nw_prefix N seg"
  let ?B = "interface_prefix_len (nw_family N seg)"
  have pl: "?p \<le> ?l" and f: "nw_family N n = nw_family N seg" using subset_prefix [OF assms] by auto
  have l: "?l \<le> ?B" using width_bound [of n] f by simp
  have w: "nw_width N n = ?B - ?l" "nw_width N seg = (?l - ?p) + (?B - ?l)" using f pl l by (simp_all add: nw_width_def)
  have m: "addr_val (nw_network N n) \<in> block (nw_index N seg) (nw_width N seg)" using subsetD [OF assms network_mem] by (simp add: mem_addrs)
  define k where "k = nw_index N n - nw_index N seg * 2 ^ (?l - ?p)"
  have "nw_index N seg * 2 ^ (?l - ?p) * 2 ^ (?B - ?l) \<le> nw_index N n * 2 ^ (?B - ?l)"
      "nw_index N n * 2 ^ (?B - ?l) < (nw_index N seg * 2 ^ (?l - ?p) + 2 ^ (?l - ?p)) * 2 ^ (?B - ?l)"
    using m by (simp_all add: mem_block network(2) w power_add algebra_simps)
  then have i: "nw_index N seg * 2 ^ (?l - ?p) \<le> nw_index N n" "nw_index N n < nw_index N seg * 2 ^ (?l - ?p) + 2 ^ (?l - ?p)" by simp_all
  then have k: "k < 2 ^ (?l - ?p)" "nw_index N n = nw_index N seg * 2 ^ (?l - ?p) + k" by (simp_all add: k_def)
  note s = nth_subnet [OF pl l k(1)]
  have "addr_val (nw_network N (nth_subnet N seg ?l k)) = addr_val (nw_network N n)"
    unfolding s(4) using k(2) by (simp add: network(2) w power_add algebra_simps)
  moreover have "nw_width N (nth_subnet N seg ?l k) = nw_width N n" using s(2,3) f by (simp add: nw_width_def)
  ultimately have "nw_index N (nth_subnet N seg ?l k) = nw_index N n" by (simp add: network(2))
  then have "nw_addrs N n = nw_addrs N (nth_subnet N seg ?l k)" using s(3) f \<open>nw_width N (nth_subnet N seg ?l k) = nw_width N n\<close>
    by (intro set_eqI) (simp add: mem_addrs)
  then show thesis using that k(1) by blast
qed

lemma subnet_total:
  assumes "nw_prefix N seg \<le> l" "l \<le> interface_prefix_len (nw_family N seg)"
  shows "addr_val (nw_network N seg) + 2 ^ (l - nw_prefix N seg) * 2 ^ (interface_prefix_len (nw_family N seg) - l) = Suc (addr_val (nw_broadcast N seg))"
    "addr_val (nw_broadcast N seg) < 2 ^ interface_prefix_len (nw_family N seg)"
proof -
  have "2 ^ (l - nw_prefix N seg) * 2 ^ (interface_prefix_len (nw_family N seg) - l) = (2 :: nat) ^ nw_width N seg"
    using assms by (simp add: nw_width_def flip: power_add)
  moreover have "0 < (2 :: nat) ^ nw_width N seg" by simp
  ultimately show "addr_val (nw_network N seg) + 2 ^ (l - nw_prefix N seg) * 2 ^ (interface_prefix_len (nw_family N seg) - l) = Suc (addr_val (nw_broadcast N seg))"
    unfolding network(2) broadcast(2) by linarith
  show "addr_val (nw_broadcast N seg) < 2 ^ interface_prefix_len (nw_family N seg)" using addr_val_bound [of "nw_broadcast N seg"] by (simp add: broadcast(1))
qed

lemma network_bits: "interface_prefix_len (addr_family (nw_network N n)) = interface_prefix_len (nw_family N n)"
  by (simp add: network(1))

lemma same_addrs_network:
  assumes "nw_addrs N n = nw_addrs N m"
  shows "nw_network N n = nw_network N m"
proof (rule addr_eqI)
  have m: "nw_network N n \<in> nw_addrs N m" "nw_network N m \<in> nw_addrs N n" using network_mem [of n] network_mem [of m] assms by auto
  show "addr_family (nw_network N n) = addr_family (nw_network N m)" using m(1) by (simp add: mem_addrs network)
  show "addr_val (nw_network N n) = addr_val (nw_network N m)" using m by (auto simp: nw_addrs_def contains)
qed
end

subsection \<open>The implementation satisfies the documentation\<close>

lemma doc_bound: "doc_start n + 2 ^ doc_host_bits n \<le> 2 ^ addr_bits (fst n)"
proof -
  let ?h = "doc_host_bits n"
  have le: "?h \<le> addr_bits (fst n)" by (simp add: doc_host_bits_def)
  have "addr_val (fst n) < 2 ^ (addr_bits (fst n) - ?h) * 2 ^ ?h" using addr_val_bound [of "fst n"] le by (simp flip: power_add)
  then have "addr_val (fst n) div 2 ^ ?h < 2 ^ (addr_bits (fst n) - ?h)" by (simp add: less_mult_imp_div_less)
  then have "(addr_val (fst n) div 2 ^ ?h + 1) * 2 ^ ?h \<le> 2 ^ (addr_bits (fst n) - ?h) * 2 ^ ?h" by (intro mult_le_mono1) simp
  then show ?thesis using le by (simp add: doc_start_def algebra_simps flip: power_add)
qed

lemma doc_selectors [simp]:
  "nw_ip ip_network_doc = fst" "nw_prefix ip_network_doc = doc_prefix" "nw_family ip_network_doc n = addr_family (fst n)"
  "nw_width ip_network_doc n = doc_host_bits n" "nw_index ip_network_doc n * 2 ^ doc_host_bits n = doc_start n"
  by (simp_all add: ip_network_doc_def nw_family_def nw_width_def nw_index_def doc_host_bits_def doc_start_def)

interpretation doc_nw: ip_network ip_network_doc
proof
  fix n :: "ip_addr \<times> nat" and l :: nat and a :: ip_addr and i :: nat
  have pos: "0 < (2 :: nat) ^ doc_host_bits n" by simp
  have small: "doc_start n < 2 ^ addr_bits (fst n)" "doc_start n + (2 ^ doc_host_bits n - 1) < 2 ^ addr_bits (fst n)" using doc_bound [of n] pos by linarith+
  have pow: "(2 :: nat) ^ doc_host_bits n < 2 ^ addr_bits (fst n)" if "0 < doc_prefix n"
    using that by (intro power_strict_increasing) (auto simp: doc_host_bits_def doc_prefix_def)
  show "nw_prefix ip_network_doc n \<le> addr_bits (nw_ip ip_network_doc n)" by (simp add: doc_prefix_def)
  show "l \<le> addr_bits a \<Longrightarrow> \<exists>n. nw_new ip_network_doc a l = Some n \<and> nw_ip ip_network_doc n = a \<and> nw_prefix ip_network_doc n = l"
    by (auto simp: ip_network_doc_def doc_prefix_def)
  show "addr_bits a < l \<Longrightarrow> nw_new ip_network_doc a l = None" by (simp add: ip_network_doc_def)
  show net: "addr_family (nw_network ip_network_doc n) = nw_family ip_network_doc n"
      "addr_val (nw_network ip_network_doc n) = nw_index ip_network_doc n * 2 ^ nw_width ip_network_doc n"
    using small(1) by (simp_all add: ip_network_doc_def [THEN arg_cong, of nw_network])
  show bc: "addr_family (nw_broadcast ip_network_doc n) = nw_family ip_network_doc n"
      "addr_val (nw_broadcast ip_network_doc n) = nw_index ip_network_doc n * 2 ^ nw_width ip_network_doc n + (2 ^ nw_width ip_network_doc n - 1)"
    using small(2) by (simp_all add: ip_network_doc_def [THEN arg_cong, of nw_broadcast])
  show "nw_contains ip_network_doc n a \<longleftrightarrow> addr_family a = nw_family ip_network_doc n \<and> addr_val (nw_network ip_network_doc n) \<le> addr_val a \<and>
      addr_val a \<le> addr_val (nw_broadcast ip_network_doc n)"
    unfolding net bc by (simp add: ip_network_doc_def [THEN arg_cong, of nw_contains])
  show "nw_nth ip_network_doc n i = (if i < 2 ^ nw_width ip_network_doc n
      then Some (addr_of (nw_family ip_network_doc n) (addr_val (nw_network ip_network_doc n) + i)) else None)"
    unfolding net by (simp add: ip_network_doc_def [THEN arg_cong, of nw_nth])
  show "nw_family ip_network_doc n = Ipv4 \<Longrightarrow> \<exists>x. nw_size ip_network_doc n = SizeV4 x \<and> (0 < nw_prefix ip_network_doc n \<longrightarrow> unat x = 2 ^ nw_width ip_network_doc n)"
    using pow by (simp add: ip_network_doc_def [THEN arg_cong, of nw_size] unat_of_nat del: of_nat_power)
  show "nw_family ip_network_doc n = Ipv6 \<Longrightarrow> \<exists>x. nw_size ip_network_doc n = SizeV6 x \<and> (0 < nw_prefix ip_network_doc n \<longrightarrow> unat x = 2 ^ nw_width ip_network_doc n)"
    using pow by (simp add: ip_network_doc_def [THEN arg_cong, of nw_size] unat_of_nat del: of_nat_power)
qed

text \<open>Evaluation.\<close>

lemma doc_ops:
  "nw_new ip_network_doc a l = (if l \<le> addr_bits a then Some (a, l) else None)"
  "nw_network ip_network_doc n = addr_of (addr_family (fst n)) (doc_start n)"
  "nw_broadcast ip_network_doc n = addr_of (addr_family (fst n)) (doc_start n + (2 ^ doc_host_bits n - 1))"
  "nw_contains ip_network_doc n a \<longleftrightarrow> addr_family a = addr_family (fst n) \<and> doc_start n \<le> addr_val a \<and> addr_val a \<le> doc_start n + (2 ^ doc_host_bits n - 1)"
  "nw_nth ip_network_doc n i = (if i < 2 ^ doc_host_bits n then Some (addr_of (addr_family (fst n)) (doc_start n + i)) else None)"
  "nw_size ip_network_doc n = (case addr_family (fst n) of Ipv4 \<Rightarrow> SizeV4 (word_of_nat (2 ^ doc_host_bits n)) | Ipv6 \<Rightarrow> SizeV6 (word_of_nat (2 ^ doc_host_bits n)))"
  "nw_le ip_network_doc n m \<longleftrightarrow> addr_val (fst n) < addr_val (fst m) \<or> addr_val (fst n) = addr_val (fst m) \<and> snd n \<le> snd m"
  by (simp_all add: ip_network_doc_def)

lemmas doc_eval = doc_ops doc_prefix_def doc_host_bits_def doc_start_def nw_take_def upt_rec List.map_filter_simps

end
