(* ===== verification/Ip_Allocator.thy ===== *)
theory Ip_Allocator
  imports Ip_Network
begin

unbundle bit_operations_syntax

section \<open>The IP allocator\<close>

text \<open>
  \<^verbatim>\<open>api-db/src/ip_allocator.rs\<close>: the next free network of a requested length in the prefixes of a
  network segment, and the number of free addresses, with \<^verbatim>\<open>AddressSelectionStrategy\<close> of
  \<^verbatim>\<open>api-model/src/address_selection_strategy.rs\<close>.  The release build checks for overflow, so an
  arithmetic overflow is a panic, as in a debug build.
\<close>

subsection \<open>Types\<close>

text \<open>The outcome of code that may panic or loop forever.\<close>

datatype 'a run = Returns 'a | Panics | Diverges

datatype address_selection_strategy = NextAvailableIp | Automatic | NextAvailablePrefix nat | StaticAddress ip_addr

datatype dhcp_error = MissingCircuitId string | MissingCircuitIdForMachine string | PrefixExhausted ip_addr

datatype 'n alloc_error =
    InvalidNetwork
  | PrefixTooShort nat nat
  | FailedAllocated 'n "'n alloc_error"
  | FailedNext 'n "'n alloc_error"
  | StaticNotAllocated
  | Dhcp dhcp_error
  | UnknownPrefix string
  | FailedGetAllocated "'n alloc_error"
  | FullSpaceCount

record 'n alloc_prefix =
  ap_id :: string
  ap_prefix :: 'n
  ap_gateway :: "ip_addr option"
  ap_num_reserved :: int

record network_details =
  base_ip :: u128
  broadcast_ip :: u128
  network_size :: u128

record 'n ip_allocator =
  al_prefixes :: "'n alloc_prefix list"
  al_used_ips :: "'n list"
  al_strategy :: address_selection_strategy

datatype address_count = Count u128 | FullIpv6Space

subsection \<open>Counting addresses\<close>

fun count_add :: "address_count \<Rightarrow> address_count \<Rightarrow> address_count" where
  "count_add (Count left) (Count right) = (if unat left + unat right < 2 ^ 128 then Count (left + right) else FullIpv6Space)"
| "count_add _ _ = FullIpv6Space"

fun free_after :: "address_count \<Rightarrow> address_count \<Rightarrow> ('n alloc_error, u128) result" where
  "free_after (Count total_ips) (Count allocated) = Ok (if total_ips \<le> allocated then 0 else total_ips - allocated)"
| "free_after (Count _) FullIpv6Space = Ok 0"
| "free_after FullIpv6Space FullIpv6Space = Ok 0"
| "free_after FullIpv6Space (Count allocated) = (if allocated = 0 then Err FullSpaceCount else Ok (- 1 - (allocated - 1)))"

definition get_network_size :: "'n ip_network_ops \<Rightarrow> 'n \<Rightarrow> address_count" where
  "get_network_size N n =
     (case nw_size N n of
        SizeV4 total_ips \<Rightarrow> if nw_prefix N n = 0 then Count (push_bit 32 1) else Count (ucast total_ips)
      | SizeV6 total_ips \<Rightarrow> if nw_prefix N n = 0 then FullIpv6Space else Count total_ips)"

subsection \<open>What is allocated\<close>

definition host_network :: "'n ip_network_ops \<Rightarrow> ip_addr \<Rightarrow> ('n alloc_error, 'n) result" where
  "host_network N a = (case nw_new N a (interface_prefix_len (addr_family a)) of None \<Rightarrow> Err InvalidNetwork | Some n \<Rightarrow> Ok n)"

fun host_networks :: "'n ip_network_ops \<Rightarrow> ip_addr list \<Rightarrow> ('n alloc_error, 'n list) result" where
  "host_networks N [] = Ok []"
| "host_networks N (a # as) = and_then (host_network N a) (\<lambda>n. and_then (host_networks N as) (\<lambda>ns. Ok (n # ns)))"

text \<open>\<^verbatim>\<open>num_reserved as usize\<close> of an \<^verbatim>\<open>i32\<close>.\<close>

definition as_usize :: "int \<Rightarrow> nat" where
  "as_usize r = unat (word_of_int r :: 64 word)"

definition should_reserve_network_broadcast :: "'n ip_network_ops \<Rightarrow> 'n \<Rightarrow> bool" where
  "should_reserve_network_broadcast N n = (case nw_family N n of Ipv4 \<Rightarrow> nw_prefix N n < 31 | Ipv6 \<Rightarrow> nw_prefix N n < 127)"

definition build_allocated_networks :: "'n ip_network_ops \<Rightarrow> 'n alloc_prefix \<Rightarrow> 'n list \<Rightarrow> ('n alloc_error, 'n list) result" where
  "build_allocated_networks N p used_ips =
     and_then (host_networks N (case ap_gateway p of Some g \<Rightarrow> if nw_contains N (ap_prefix p) g then [g] else [] | None \<Rightarrow> []))
       (\<lambda>gateway. and_then (host_networks N (nw_take N (ap_prefix p) (as_usize (ap_num_reserved p))))
         (\<lambda>reserved. and_then
           (host_networks N (if should_reserve_network_broadcast N (ap_prefix p)
              then [nw_network N (ap_prefix p), nw_broadcast N (ap_prefix p)] else []))
           (\<lambda>ends. Ok (gateway @ reserved @ ends @
              filter (\<lambda>allocated. nw_contains N (ap_prefix p) (nw_network N allocated)) used_ips))))"

text \<open>The networks are taken longest prefix first; one is dropped when a network already taken contains its first address.\<close>

definition collapse_step :: "'n ip_network_ops \<Rightarrow> 'n \<Rightarrow> 'n list \<Rightarrow> 'n list" where
  "collapse_step N this_network btree_set =
     (if list_ex (\<lambda>existing. nw_contains N existing (nw_network N this_network)) btree_set then btree_set
      else bset_insert (nw_le N) this_network btree_set)"

definition collapse_allocated_networks :: "'n ip_network_ops \<Rightarrow> 'n list \<Rightarrow> 'n list" where
  "collapse_allocated_networks N input_networks =
     fold (collapse_step N) (sort_key (\<lambda>n. - int (nw_prefix N n)) input_networks) []"

definition get_allocated :: "'n ip_network_ops \<Rightarrow> 'n ip_allocator \<Rightarrow> 'n alloc_prefix \<Rightarrow> ('n alloc_error, 'n list) result" where
  "get_allocated N al p = and_then (build_allocated_networks N p (al_used_ips al)) (\<lambda>ns. Ok (collapse_allocated_networks N ns))"

definition num_free :: "'n ip_network_ops \<Rightarrow> 'n ip_allocator \<Rightarrow> string \<Rightarrow> ('n alloc_error, u128) result" where
  "num_free N al prefix_id =
     (case List.find (\<lambda>p. ap_id p = prefix_id) (al_prefixes al) of
        None \<Rightarrow> Err (UnknownPrefix prefix_id)
      | Some p \<Rightarrow>
          (case get_allocated N al p of
             Inl e \<Rightarrow> Err (FailedGetAllocated e)
           | Inr allocated \<Rightarrow>
               free_after (get_network_size N (ap_prefix p)) (fold (\<lambda>n c. count_add c (get_network_size N n)) allocated (Count 0))))"

subsection \<open>The next free network\<close>

text \<open>
  The size of an IPv4 network is computed as an \<^verbatim>\<open>i32\<close> and then widened with its sign.  A length above
  the width of the family underflows.
\<close>

definition get_network_details :: "'n ip_network_ops \<Rightarrow> 'n \<Rightarrow> nat \<Rightarrow> network_details option" where
  "get_network_details N segment prefix_length =
     (case (nw_network N segment, nw_broadcast N segment) of
        (AddrV4 base, AddrV4 bc) \<Rightarrow>
          if prefix_length \<le> 32
          then Some \<lparr>base_ip = ucast base, broadcast_ip = ucast bc, network_size = scast (push_bit (32 - prefix_length) (1 :: 32 word))\<rparr>
          else None
      | (AddrV6 base, AddrV6 bc) \<Rightarrow>
          if prefix_length \<le> 128 then Some \<lparr>base_ip = base, broadcast_ip = bc, network_size = push_bit (128 - prefix_length) 1\<rparr> else None
      | _ \<Rightarrow> None)"

definition build_candidate_subnet :: "'n ip_network_ops \<Rightarrow> 'n \<Rightarrow> u128 \<Rightarrow> nat \<Rightarrow> ('n alloc_error, 'n) result" where
  "build_candidate_subnet N network current_ip prefix_length =
     (case nw_new N (case nw_family N network of Ipv4 \<Rightarrow> AddrV4 (ucast current_ip) | Ipv6 \<Rightarrow> AddrV6 current_ip) prefix_length of
        None \<Rightarrow> Err InvalidNetwork
      | Some n \<Rightarrow> Ok n)"

definition is_allocated :: "'n ip_network_ops \<Rightarrow> 'n list \<Rightarrow> 'n \<Rightarrow> bool" where
  "is_allocated N allocated_networks candidate =
     list_ex (\<lambda>a. nw_contains N a (nw_network N candidate) \<or> nw_contains N candidate (nw_network N a)) allocated_networks"

text \<open>The search loop; a step of zero would loop forever.\<close>

function next_from :: "'n ip_network_ops \<Rightarrow> 'n \<Rightarrow> nat \<Rightarrow> 'n list \<Rightarrow> u128 \<Rightarrow> u128 \<Rightarrow> u128 \<Rightarrow> ('n alloc_error, 'n option) result run" where
  "next_from N segment prefix_length allocated bc step current_ip =
     (if current_ip \<le> bc
      then case build_candidate_subnet N segment current_ip prefix_length of
             Inl e \<Rightarrow> Returns (Err e)
           | Inr candidate \<Rightarrow>
               if \<not> is_allocated N allocated candidate then Returns (Ok (Some candidate))
               else if step = 0 then Diverges
               else if unat current_ip + unat step < 2 ^ 128 then next_from N segment prefix_length allocated bc step (current_ip + step)
               else Panics
      else Returns (Ok None))"
  by pat_completeness auto
termination
proof (relation "measure (\<lambda>(_, _, _, _, _, _, current_ip). 2 ^ 128 - unat current_ip)", goal_cases)
  case (2 N segment prefix_length allocated bc step current_ip candidate)
  have "unat (current_ip + step) = unat current_ip + unat step" using 2 by (simp add: unat_word_ariths)
  moreover have "0 < unat step" using 2 by (simp add: unat_gt_0)
  moreover have "unat current_ip < 2 ^ 128" using unsigned_less [of current_ip] by simp
  ultimately show ?case by simp
qed simp

declare next_from.simps [simp del]

definition next_available_prefix :: "'n ip_network_ops \<Rightarrow> 'n \<Rightarrow> nat \<Rightarrow> 'n list \<Rightarrow> ('n alloc_error, 'n option) result run" where
  "next_available_prefix N segment prefix_length allocated =
     (if prefix_length \<le> nw_prefix N segment then Returns (Err (PrefixTooShort prefix_length (nw_prefix N segment)))
      else case get_network_details N segment prefix_length of
             None \<Rightarrow> Panics
           | Some d \<Rightarrow> next_from N segment prefix_length allocated (broadcast_ip d) (network_size d) (base_ip d))"

definition requested_length :: "'n ip_network_ops \<Rightarrow> address_selection_strategy \<Rightarrow> 'n \<Rightarrow> ('n alloc_error, nat) result" where
  "requested_length N strategy segment =
     (case strategy of
        NextAvailablePrefix len \<Rightarrow> Ok len
      | StaticAddress _ \<Rightarrow> Err StaticNotAllocated
      | _ \<Rightarrow> Ok (if nw_family N segment = Ipv4 then 32 else 128))"

text \<open>\<^verbatim>\<open>Iterator::next\<close>: one item per prefix.\<close>

definition alloc_item :: "'n ip_network_ops \<Rightarrow> 'n ip_allocator \<Rightarrow> 'n alloc_prefix \<Rightarrow> ('n alloc_error, 'n) result run" where
  "alloc_item N al p =
     (case get_allocated N al p of
        Inl e \<Rightarrow> Returns (Err (FailedAllocated (ap_prefix p) e))
      | Inr allocated \<Rightarrow>
          (case requested_length N (al_strategy al) (ap_prefix p) of
             Inl e \<Rightarrow> Returns (Err e)
           | Inr len \<Rightarrow>
               (case next_available_prefix N (ap_prefix p) len allocated of
                  Returns (Inl e) \<Rightarrow> Returns (Err (FailedNext (ap_prefix p) e))
                | Returns (Inr None) \<Rightarrow> Returns (Err (Dhcp (PrefixExhausted (nw_ip N (ap_prefix p)))))
                | Returns (Inr (Some network)) \<Rightarrow> Returns (Ok network)
                | Panics \<Rightarrow> Panics
                | Diverges \<Rightarrow> Diverges)))"

definition alloc_next :: "'n ip_network_ops \<Rightarrow> 'n ip_allocator \<Rightarrow> ((string \<times> ('n alloc_error, 'n) result) option \<times> 'n ip_allocator) run" where
  "alloc_next N al =
     (case al_prefixes al of
        [] \<Rightarrow> Returns (None, al)
      | p # ps \<Rightarrow>
          (let al' = al\<lparr>al_prefixes := ps\<rparr>
           in case alloc_item N al' p of
                Returns item \<Rightarrow> Returns (Some (ap_id p, item), al')
              | Panics \<Rightarrow> Panics
              | Diverges \<Rightarrow> Diverges))"

text \<open>The addresses the allocator keeps back.\<close>

definition reserved_addrs :: "'n ip_network_ops \<Rightarrow> 'n alloc_prefix \<Rightarrow> ip_addr set" where
  "reserved_addrs N p =
     {g. ap_gateway p = Some g \<and> g \<in> nw_addrs N (ap_prefix p)} \<union>
     set (nw_take N (ap_prefix p) (as_usize (ap_num_reserved p))) \<union>
     (if should_reserve_network_broadcast N (ap_prefix p) then {nw_network N (ap_prefix p), nw_broadcast N (ap_prefix p)} else {})"

abbreviation longest_first :: "'n ip_network_ops \<Rightarrow> 'n list \<Rightarrow> bool" where
  "longest_first N \<equiv> sorted_wrt (\<lambda>x y. nw_prefix N y \<le> nw_prefix N x)"

text \<open>
  Used networks that fit a prefix: inside it or outside, no two that start at the same address with
  different lengths, none of more than one address that starts at a reserved one.
\<close>

definition used_fit :: "'n ip_network_ops \<Rightarrow> 'n alloc_prefix \<Rightarrow> 'n list \<Rightarrow> bool" where
  "used_fit N p us \<longleftrightarrow>
     (\<forall>u \<in> set us. nw_addrs N u \<subseteq> nw_addrs N (ap_prefix p) \<or> nw_addrs N u \<inter> nw_addrs N (ap_prefix p) = {}) \<and>
     (\<forall>u \<in> set us. \<forall>v \<in> set us. nw_network N u = nw_network N v \<longrightarrow> nw_prefix N u = nw_prefix N v) \<and>
     (\<forall>u \<in> set us. nw_network N u \<in> reserved_addrs N p \<longrightarrow> nw_prefix N u = interface_prefix_len (nw_family N u))"

text \<open>What has been handed out from a prefix, by any allocations and releases.\<close>

inductive handed_out :: "'n ip_network_ops \<Rightarrow> 'n alloc_prefix \<Rightarrow> 'n list \<Rightarrow> bool" for N p where
  nothing: "handed_out N p []"
| allocate: "handed_out N p us \<Longrightarrow> alloc_item N \<lparr>al_prefixes = ps, al_used_ips = us, al_strategy = st\<rparr> p = Returns (Ok n) \<Longrightarrow> handed_out N p (n # us)"
| free: "handed_out N p us \<Longrightarrow> handed_out N p (remove1 u us)"

definition disjoint_used :: "'n ip_network_ops \<Rightarrow> 'n alloc_prefix \<Rightarrow> 'n list \<Rightarrow> bool" where
  "disjoint_used N p us \<longleftrightarrow> (\<forall>u \<in> set us. nw_addrs N u \<subseteq> nw_addrs N (ap_prefix p) - reserved_addrs N p) \<and>
     pairwise (\<lambda>u v. nw_addrs N u \<inter> nw_addrs N v = {}) (set us) \<and> distinct us"

lemma used_fitD:
  assumes "used_fit N p us" "u \<in> set us"
  shows "nw_addrs N u \<subseteq> nw_addrs N (ap_prefix p) \<or> nw_addrs N u \<inter> nw_addrs N (ap_prefix p) = {}"
    and "v \<in> set us \<Longrightarrow> nw_network N u = nw_network N v \<Longrightarrow> nw_prefix N u = nw_prefix N v"
    and "nw_network N u \<in> reserved_addrs N p \<Longrightarrow> nw_prefix N u = interface_prefix_len (nw_family N u)"
  using assms unfolding used_fit_def by blast+

text \<open>A network inside the prefix that meets nothing reserved and nothing used.\<close>

definition is_free :: "'n ip_network_ops \<Rightarrow> 'n alloc_prefix \<Rightarrow> 'n list \<Rightarrow> 'n \<Rightarrow> bool" where
  "is_free N p us m \<longleftrightarrow> nw_addrs N m \<subseteq> nw_addrs N (ap_prefix p) \<and> nw_addrs N m \<inter> reserved_addrs N p = {} \<and>
     (\<forall>u \<in> set us. nw_addrs N m \<inter> nw_addrs N u = {})"

lemma ucast_of_nat_small: "v < 2 ^ 128 \<Longrightarrow> ucast (word_of_nat v :: u128) = (word_of_nat v :: u32)"
  by (simp add: unsigned_of_nat take_bit_nat_eq_self)

lemma by_nat: "unat (x :: u128) = v \<Longrightarrow> x = word_of_nat v"
  by auto

lemma ucast_by_nat: "unat (x :: u32) = v \<Longrightarrow> ucast x = (word_of_nat v :: u128)"
  by auto

definition count_of :: "nat \<Rightarrow> address_count" where
  "count_of n = (if n < 2 ^ 128 then Count (word_of_nat n) else FullIpv6Space)"

lemma hosts_set:
  assumes "list_all2 R as hs"
  shows "h \<in> set hs \<Longrightarrow> \<exists>a \<in> set as. R a h" "a \<in> set as \<Longrightarrow> \<exists>h \<in> set hs. R a h"
  using assms by (induction rule: list_all2_induct) auto

text \<open>Leaving an element out of a list leaves it out of the sorted list.\<close>

lemma insort_key_drop:
  assumes "sorted (map f (as @ u # bs))"
  shows "\<exists>as' bs'. insort_key f h (as @ u # bs) = as' @ u # bs' \<and> insort_key f h (as @ bs) = as' @ bs'"
  using assms
proof (induction as)
  case Nil
  show ?case
  proof (cases "f h \<le> f u")
    case True
    then have "insort_key f h bs = h # bs" using Nil by (cases bs) auto
    then show ?thesis using True by (intro exI [of _ "[h]"] exI [of _ bs]) simp
  next
    case False
    then show ?thesis by (intro exI [of _ "[]"] exI [of _ "insort_key f h bs"]) simp
  qed
next
  case (Cons a as)
  then obtain as' bs' where ab: "insort_key f h (as @ u # bs) = as' @ u # bs'" "insort_key f h (as @ bs) = as' @ bs'" by auto
  show ?case
  proof (cases "f h \<le> f a")
    case True
    then show ?thesis by (intro exI [of _ "h # a # as"] exI [of _ bs]) simp
  next
    case False
    then show ?thesis using ab by (intro exI [of _ "a # as'"] exI [of _ bs']) simp
  qed
qed

lemma sort_key_drop:
  obtains as bs where "sort_key f (xs @ u # ys) = as @ u # bs" "sort_key f (xs @ ys) = as @ bs"
proof -
  have "\<exists>as bs. sort_key f (xs @ u # ys) = as @ u # bs \<and> sort_key f (xs @ ys) = as @ bs"
  proof (induction xs)
    case Nil
    have "\<exists>as bs. insort_key f u zs = as @ u # bs \<and> zs = as @ bs" for zs by (induction zs) (auto intro: exI [of _ "[]"], metis append_Cons)
    then show ?case by simp
  next
    case (Cons x xs)
    then obtain as bs where ab: "sort_key f (xs @ u # ys) = as @ u # bs" "sort_key f (xs @ ys) = as @ bs" by blast
    have "sorted (map f (as @ u # bs))" unfolding ab(1) [symmetric] by (rule sorted_sort_key)
    then show ?case using insort_key_drop [of f as u bs x] by (simp add: ab)
  qed
  then show thesis using that by blast
qed

lemma count_of_0: "count_of 0 = Count 0"
  by (simp add: count_of_def)

lemma count_add_of [simp]: "count_add (count_of m) (count_of n) = count_of (m + n)"
  by (auto simp: count_of_def unat_u128)

lemma free_after_of:
  assumes "a \<le> t" "t \<le> 2 ^ 128" "t < 2 ^ 128 \<or> 0 < a"
  shows "free_after (count_of t) (count_of a) = Ok (word_of_nat (t - a))"
proof (cases "a = 2 ^ 128 \<or> t < 2 ^ 128")
  case True
  then show ?thesis using assms by (auto simp: count_of_def unat_u128 word_le_nat_alt of_nat_diff)
next
  case False
  then have t: "t = 2 ^ 128" "a < 2 ^ 128" using assms by auto
  then have "(word_of_nat a :: u128) \<noteq> 0" using assms unat_u128 [of a] by auto
  moreover have "(word_of_nat (2 ^ 128 - a) :: u128) = - word_of_nat a"
  proof -
    have "(word_of_nat (2 ^ 128 - a) :: u128) = word_of_nat (2 ^ 128) - word_of_nat a" using t(2) by (intro of_nat_diff) simp
    also have "(word_of_nat (2 ^ 128) :: u128) = 0" by simp
    finally show ?thesis by simp
  qed
  ultimately show ?thesis using t by (simp add: count_of_def)
qed

lemma distinct_bset_insert: "distinct xs \<Longrightarrow> x \<notin> set xs \<Longrightarrow> distinct (bset_insert le x xs)"
  by (induction xs) auto

lemma scast_push_bit:
  assumes "k < 31"
  shows "scast (push_bit k (1 :: 32 word)) = (word_of_nat (2 ^ k) :: u128)"
proof -
  have w: "push_bit k (1 :: 32 word) = word_of_int (2 ^ k)" by (simp add: push_bit_eq_mult)
  have "(2 :: int) ^ k < 2 ^ 31" using assms by (intro power_strict_increasing) simp_all
  then have "sint (push_bit k (1 :: 32 word)) = 2 ^ k" unfolding w sint_sbintrunc'
    by (intro signed_take_bit_int_eq_self) (simp_all add: order_trans [OF _ zero_le_power])
  then show ?thesis by (simp add: scast_eq)
qed

lemma next_from_search:
  fixes base cnt step :: nat
  assumes top: "base + cnt * step \<le> 2 ^ 128" "0 < step" "0 < cnt" "step < 2 ^ 128"
    and cand: "\<And>k. k < cnt \<Longrightarrow> build_candidate_subnet N seg (word_of_nat (base + k * step)) l = Ok (c k)"
    and k: "k \<le> cnt" "base + k * step < 2 ^ 128"
  shows "next_from N seg l ns (word_of_nat (base + cnt * step - 1)) (word_of_nat step) (word_of_nat (base + k * step)) =
    (case List.find (\<lambda>k. \<not> is_allocated N ns (c k)) [k..<cnt] of
       Some j \<Rightarrow> Returns (Ok (Some (c j)))
     | None \<Rightarrow> if base + cnt * step = 2 ^ 128 then Panics else Returns (Ok None))"
  using k
proof (induction "cnt - k" arbitrary: k)
  case 0
  have bc: "unat (word_of_nat (base + cnt * step - 1) :: u128) = base + cnt * step - 1" using 0 by (intro unat_u128) simp
  have "k = cnt" using 0 by simp
  moreover have "unat (word_of_nat (base + cnt * step) :: u128) = base + cnt * step" using 0 \<open>k = cnt\<close> by (intro unat_u128) simp
  moreover have "base + cnt * step - 1 < base + cnt * step" using top by simp
  ultimately show ?case using 0 bc by (subst next_from.simps) (simp add: word_le_nat_alt del: of_nat_add of_nat_mult)
next
  case (Suc n)
  then have kc: "k < cnt" by simp
  have next_le: "base + Suc k * step \<le> base + cnt * step" using kc by (intro add_left_mono mult_le_mono1) simp
  have "0 < cnt * step" using top by simp
  then have bc_small: "base + cnt * step - 1 < 2 ^ 128" using top(1) by linarith
  have sub: "[k..<cnt] = k # [Suc k..<cnt]" using kc by (rule upt_conv_Cons)
  have le: "(word_of_nat (base + k * step) :: u128) \<le> word_of_nat (base + cnt * step - 1)"
  proof -
    have "unat (word_of_nat (base + cnt * step - 1) :: u128) = base + cnt * step - 1" using bc_small by (rule unat_u128)
    moreover have "unat (word_of_nat (base + k * step) :: u128) = base + k * step" using Suc(4) by (intro unat_u128) simp
    ultimately show ?thesis using next_le top by (simp add: word_le_nat_alt del: of_nat_add of_nat_mult)
  qed
  show ?case
  proof (cases "is_allocated N ns (c k)")
    case False
    then show ?thesis using le cand [OF kc] by (subst next_from.simps) (simp add: sub del: of_nat_add of_nat_mult)
  next
    case True
    have st: "unat (word_of_nat step :: u128) = step" using top(4) by (intro unat_u128) simp
    have cu: "unat (word_of_nat (base + k * step) :: u128) = base + k * step" using Suc(4) by (intro unat_u128) simp
    have nz: "(word_of_nat step :: u128) \<noteq> 0" using st top(2) by (metis unat_0 less_numeral_extra(3))
    have add: "word_of_nat (base + k * step) + word_of_nat step = (word_of_nat (base + Suc k * step) :: u128)"
      by (simp only: flip: of_nat_add) (simp add: ac_simps)
    have eq: "base + k * step + step = base + Suc k * step" by simp
    have step: "next_from N seg l ns (word_of_nat (base + cnt * step - 1)) (word_of_nat step) (word_of_nat (base + k * step)) =
      (if base + Suc k * step < 2 ^ 128
       then next_from N seg l ns (word_of_nat (base + cnt * step - 1)) (word_of_nat step) (word_of_nat (base + Suc k * step)) else Panics)"
      using le cand [OF kc] True nz
      by (subst next_from.simps) (simp add: st cu add eq del: of_nat_add of_nat_mult mult_Suc)
    show ?thesis
    proof (cases "base + Suc k * step < 2 ^ 128")
      case lt: True
      then show ?thesis using Suc(1) [of "Suc k"] Suc(2) kc True step by (simp add: sub)
    next
      case False
      then have "base + Suc k * step = base + cnt * step" and full: "base + cnt * step = 2 ^ 128" using next_le top(1) by linarith+
      then have "Suc k * step = cnt * step" by (simp only: add_left_cancel)
      then have "Suc k = cnt" using top(2) by (simp only: mult_cancel2) simp
      then show ?thesis using step False full True sub by simp
    qed
  qed
qed

context ip_network
begin

lemma is_allocated_iff: "is_allocated N ns c \<longleftrightarrow> (\<exists>n \<in> set ns. nw_addrs N n \<inter> nw_addrs N c \<noteq> {})"
proof -
  have "nw_contains N n (nw_network N c) \<or> nw_contains N c (nw_network N n) \<longleftrightarrow> nw_addrs N n \<inter> nw_addrs N c \<noteq> {}" for n
    using laminar [of n c] network_mem [of n] network_mem [of c] unfolding nw_addrs_def by blast
  then show ?thesis by (simp add: is_allocated_def list_ex_iff)
qed

text \<open>The search.\<close>

lemma candidate:
  assumes "nw_prefix N seg \<le> l" "l \<le> interface_prefix_len (nw_family N seg)" "k < 2 ^ (l - nw_prefix N seg)"
  shows "build_candidate_subnet N seg (word_of_nat (addr_val (nw_network N seg) + k * 2 ^ (interface_prefix_len (nw_family N seg) - l))) l =
    Ok (nth_subnet N seg l k)"
proof -
  define v where "v = addr_val (nw_network N seg) + k * 2 ^ (interface_prefix_len (nw_family N seg) - l)"
  have "v < 2 ^ 128" using subnet_bound [OF assms] block_bound [of seg] interface_pow_le [of "nw_family N seg"] unfolding v_def
    by (smt (verit) add_gr_0 zero_less_power zero_less_numeral less_add_same_cancel1 order_less_le_trans)
  then show ?thesis using nth_subnet(1) [OF assms, folded v_def] unfolding v_def [symmetric]
    by (cases "nw_family N seg") (simp_all add: build_candidate_subnet_def ucast_of_nat_small)
qed

lemma details:
  assumes "nw_prefix N seg < l" "l \<le> interface_prefix_len (nw_family N seg)" "\<not> (nw_family N seg = Ipv4 \<and> l = 1)"
  shows "get_network_details N seg l =
    Some \<lparr>base_ip = word_of_nat (addr_val (nw_network N seg)), broadcast_ip = word_of_nat (addr_val (nw_broadcast N seg)),
      network_size = word_of_nat (2 ^ (interface_prefix_len (nw_family N seg) - l))\<rparr>"
proof (cases "nw_network N seg")
  case (AddrV4 a)
  then obtain b where b: "nw_broadcast N seg = AddrV4 b" "nw_family N seg = Ipv4" using network(1) [of seg] broadcast(1) [of seg] by (cases "nw_broadcast N seg") auto
  then have "32 - l < 31" using assms by auto
  then have "scast (push_bit (32 - l) (1 :: 32 word)) = (word_of_nat (2 ^ (32 - l)) :: u128)" by (rule scast_push_bit)
  then show ?thesis using AddrV4 b assms by (simp add: get_network_details_def)
next
  case (AddrV6 a)
  then obtain b where "nw_broadcast N seg = AddrV6 b" "nw_family N seg = Ipv6" using network(1) [of seg] broadcast(1) [of seg] by (cases "nw_broadcast N seg") auto
  then show ?thesis using AddrV6 assms by (simp add: get_network_details_def push_bit_eq_mult)
qed

lemma next_available_spec:
  assumes "nw_prefix N seg < l" "l \<le> interface_prefix_len (nw_family N seg)" "\<not> (nw_family N seg = Ipv4 \<and> l = 1)"
  shows "next_available_prefix N seg l ns =
    (case List.find (\<lambda>k. \<not> is_allocated N ns (nth_subnet N seg l k)) [0..<2 ^ (l - nw_prefix N seg)] of
       Some j \<Rightarrow> Returns (Ok (Some (nth_subnet N seg l j)))
     | None \<Rightarrow> if addr_val (nw_broadcast N seg) = 2 ^ 128 - 1 then Panics else Returns (Ok None))"
proof -
  let ?base = "addr_val (nw_network N seg)" and ?s = "2 ^ (interface_prefix_len (nw_family N seg) - l)" and ?cnt = "2 ^ (l - nw_prefix N seg)"
  have l: "nw_prefix N seg \<le> l" using assms(1) by simp
  have t: "?base + ?cnt * ?s = Suc (addr_val (nw_broadcast N seg))" "Suc (addr_val (nw_broadcast N seg)) \<le> 2 ^ 128"
    using subnet_total [OF l assms(2)] interface_pow_le [of "nw_family N seg"] by linarith+
  have base: "?base < 2 ^ 128" using addr_val_bound [of "nw_network N seg"] interface_pow_le by (rule order_less_le_trans)
  have "interface_prefix_len (nw_family N seg) - l < 128" using assms(1) interface_prefix_len_le [of "nw_family N seg"] by linarith
  then have step: "?s < (2 :: nat) ^ 128" by (intro power_strict_increasing) simp_all
  have "next_from N seg l ns (word_of_nat (?base + ?cnt * ?s - 1)) (word_of_nat ?s) (word_of_nat (?base + 0 * ?s)) =
    (case List.find (\<lambda>k. \<not> is_allocated N ns (nth_subnet N seg l k)) [0..<?cnt] of
       Some j \<Rightarrow> Returns (Ok (Some (nth_subnet N seg l j)))
     | None \<Rightarrow> if ?base + ?cnt * ?s = 2 ^ 128 then Panics else Returns (Ok None))"
    using t base step by (intro next_from_search candidate [OF l assms(2)]) simp_all
  moreover have "Suc (addr_val (nw_broadcast N seg)) = 2 ^ 128 \<longleftrightarrow> addr_val (nw_broadcast N seg) = 2 ^ 128 - 1" by auto
  ultimately show ?thesis using details [OF assms] assms(1) unfolding t(1) by (simp add: next_available_prefix_def)
qed

text \<open>Collapsing: every network is represented by one that is at least as long and holds its first address.\<close>

lemma collapse_step_set: "set S \<subseteq> set (collapse_step N x S)" "set (collapse_step N x S) \<subseteq> insert x (set S)"
    "\<exists>r \<in> set (collapse_step N x S). nw_contains N r (nw_network N x)"
  using network_mem [of x] by (auto simp: collapse_step_def list_ex_iff nw_addrs_def)

lemma collapse_fold:
  assumes "longest_first N xs" "\<forall>s \<in> set S. \<forall>x \<in> set xs. nw_prefix N x \<le> nw_prefix N s"
  shows "set S \<subseteq> set (fold (collapse_step N) xs S) \<and> set (fold (collapse_step N) xs S) \<subseteq> set S \<union> set xs \<and>
    (\<forall>x \<in> set xs. \<exists>r \<in> set (fold (collapse_step N) xs S). nw_contains N r (nw_network N x) \<and> nw_prefix N x \<le> nw_prefix N r)"
  using assms
proof (induction xs arbitrary: S)
  case (Cons y ys)
  let ?S = "collapse_step N y S" and ?T = "fold (collapse_step N) ys (collapse_step N y S)"
  note st = collapse_step_set [where S = S and x = y]
  have "\<forall>s \<in> set ?S. \<forall>x \<in> set ys. nw_prefix N x \<le> nw_prefix N s" using Cons.prems st(2) by auto
  then have IH: "set ?S \<subseteq> set ?T" "set ?T \<subseteq> set ?S \<union> set ys"
      "\<forall>x \<in> set ys. \<exists>r \<in> set ?T. nw_contains N r (nw_network N x) \<and> nw_prefix N x \<le> nw_prefix N r"
    using Cons.IH [of ?S] Cons.prems(1) by auto
  obtain r where r: "r \<in> set ?S" "nw_contains N r (nw_network N y)" using st(3) by blast
  then have "nw_prefix N y \<le> nw_prefix N r" using st(2) Cons.prems(2) by auto
  then have "\<exists>r \<in> set ?T. nw_contains N r (nw_network N y) \<and> nw_prefix N y \<le> nw_prefix N r" using r IH(1) by blast
  then show ?case using IH st(1,2) by auto
qed simp

lemma collapse_spec:
  shows "set (collapse_allocated_networks N ns) \<subseteq> set ns"
    and "n \<in> set ns \<Longrightarrow> \<exists>r \<in> set (collapse_allocated_networks N ns). nw_contains N r (nw_network N n) \<and> nw_prefix N n \<le> nw_prefix N r"
proof -
  let ?xs = "sort_key (\<lambda>n. - int (nw_prefix N n)) ns"
  have "sorted (map (\<lambda>n. - int (nw_prefix N n)) ?xs)" by (rule sorted_sort_key)
  then have "sorted_wrt (\<lambda>x y. nw_prefix N y \<le> nw_prefix N x) ?xs" by (simp add: sorted_map)
  from collapse_fold [OF this, of "[]"]
  show "set (collapse_allocated_networks N ns) \<subseteq> set ns"
    and "n \<in> set ns \<Longrightarrow> \<exists>r \<in> set (collapse_allocated_networks N ns). nw_contains N r (nw_network N n) \<and> nw_prefix N n \<le> nw_prefix N r"
    unfolding collapse_allocated_networks_def by simp_all
qed

lemma collapse_keeps:
  assumes "n \<in> set ns" "\<And>v. v \<in> set ns \<Longrightarrow> nw_network N v = nw_network N n \<Longrightarrow> nw_prefix N v \<le> nw_prefix N n"
  shows "\<exists>r \<in> set (collapse_allocated_networks N ns). nw_addrs N r = nw_addrs N n"
proof -
  obtain r where r: "r \<in> set (collapse_allocated_networks N ns)" "nw_contains N r (nw_network N n)" "nw_prefix N n \<le> nw_prefix N r"
    using collapse_spec(2) [OF assms(1)] by blast
  then have "nw_prefix N r \<le> nw_prefix N n" using shared_base(2) [OF r(2,3)] collapse_spec(1) assms(2) by blast
  then show ?thesis using shared_base(3) [OF r(2,3)] r(1,3) by auto
qed

text \<open>A network that starts where a longer one starts is lost.\<close>

lemma collapse_loses:
  assumes "u \<in> set ns" "v \<in> set ns" "nw_network N u = nw_network N v" "nw_prefix N u < nw_prefix N v"
  shows "u \<notin> set (collapse_allocated_networks N ns)"
proof -
  let ?xs = "sort_key (\<lambda>n. - int (nw_prefix N n)) ns"
  have keep: "u \<notin> set (fold (collapse_step N) xs S)" if "r \<in> set S" "nw_contains N r (nw_network N u)" "u \<notin> set S" for r xs S
    using that
  proof (induction xs arbitrary: S)
    case (Cons x xs)
    then have "u \<notin> set (collapse_step N x S)" "r \<in> set (collapse_step N x S)" using collapse_step_set(1) [where S = S and x = x] by (auto simp: collapse_step_def list_ex_iff)
    then show ?case using Cons by simp
  qed simp
  have "u \<notin> set (fold (collapse_step N) xs S)" if "longest_first N xs" "v \<in> set xs" "u \<notin> set S" for xs S
    using that
  proof (induction xs arbitrary: S)
    case (Cons x xs)
    show ?case
    proof (cases "x = v")
      case True
      obtain r where "r \<in> set (collapse_step N v S)" "nw_contains N r (nw_network N u)" using collapse_step_set(3) [where S = S and x = v] assms(3) by auto
      moreover have "u \<notin> set (collapse_step N v S)" using collapse_step_set(2) [where S = S and x = v] Cons.prems(3) assms(4) by auto
      ultimately show ?thesis using keep True by simp
    next
      case False
      then have "u \<noteq> x" using Cons.prems(1,2) assms(4) by auto
      then have "u \<notin> set (collapse_step N x S)" using collapse_step_set(2) [where S = S and x = x] Cons.prems(3) by auto
      then show ?thesis using Cons False by simp
    qed
  qed simp
  moreover have "longest_first N ?xs" using sorted_sort_key [of "\<lambda>n. - int (nw_prefix N n)" ns] by (simp add: sorted_map)
  ultimately show ?thesis using assms(2) by (simp add: collapse_allocated_networks_def)
qed

text \<open>What is built.\<close>

lemma host_network_Ok: "\<exists>n. host_network N a = Ok n \<and> is_host N a n"
proof -
  obtain n where n: "nw_new N a (addr_bits a) = Some n" "nw_ip N n = a" "nw_prefix N n = addr_bits a" using new_valid by blast
  have f: "nw_family N n = addr_family a" and w: "nw_width N n = 0" using n by (simp_all add: nw_family_def nw_width_def)
  have "nw_index N n = addr_val a" by (simp add: nw_index_def w n(2))
  then have net: "nw_network N n = a" by (intro addr_eqI) (simp_all add: network f w)
  have "card (nw_addrs N n) = 1" by (simp add: card_addrs w)
  then have "nw_addrs N n = {a}" using network_mem [of n] net by (auto simp: card_1_singleton_iff)
  then show ?thesis using n f net by (simp add: host_network_def is_host_def)
qed

lemma host_networks_Ok: "\<exists>ns. host_networks N as = Ok ns \<and> list_all2 (is_host N) as ns"
proof (induction as)
  case (Cons a as)
  then show ?case using host_network_Ok [of a] by auto
qed simp

lemma build_Ok:
  obtains ns hosts as where "build_allocated_networks N p us = Ok ns"
    "ns = hosts @ filter (\<lambda>u. nw_contains N (ap_prefix p) (nw_network N u)) us" "list_all2 (is_host N) as hosts" "set as = reserved_addrs N p"
proof -
  let ?g = "case ap_gateway p of Some g \<Rightarrow> if nw_contains N (ap_prefix p) g then [g] else [] | None \<Rightarrow> []"
  let ?r = "nw_take N (ap_prefix p) (as_usize (ap_num_reserved p))"
  let ?e = "if should_reserve_network_broadcast N (ap_prefix p) then [nw_network N (ap_prefix p), nw_broadcast N (ap_prefix p)] else []"
  obtain g where g: "host_networks N ?g = Ok g" "list_all2 (is_host N) ?g g" using host_networks_Ok [of ?g] by blast
  obtain r where r: "host_networks N ?r = Ok r" "list_all2 (is_host N) ?r r" using host_networks_Ok [of ?r] by blast
  obtain e where e: "host_networks N ?e = Ok e" "list_all2 (is_host N) ?e e" using host_networks_Ok [of ?e] by blast
  show thesis
  proof (rule that)
    show "build_allocated_networks N p us = Ok ((g @ r @ e) @ filter (\<lambda>u. nw_contains N (ap_prefix p) (nw_network N u)) us)"
      using g(1) r(1) e(1) by (simp add: build_allocated_networks_def)
    show "list_all2 (is_host N) (?g @ ?r @ ?e) (g @ r @ e)" using g(2) r(2) e(2) by (intro list_all2_appendI)
    show "set (?g @ ?r @ ?e) = reserved_addrs N p" by (auto simp: reserved_addrs_def nw_addrs_def split: option.splits)
  qed (rule refl)
qed

lemma build_hosts:
  assumes "a \<in> reserved_addrs N p"
  obtains hosts where "\<forall>us. build_allocated_networks N p us = Ok (hosts @ filter (\<lambda>u. nw_contains N (ap_prefix p) (nw_network N u)) us)"
    "\<exists>h \<in> set hosts. is_host N a h"
proof -
  obtain ns hosts as where b: "build_allocated_networks N p [] = Ok ns"
      "ns = hosts @ filter (\<lambda>u. nw_contains N (ap_prefix p) (nw_network N u)) []" "list_all2 (is_host N) as hosts" "set as = reserved_addrs N p"
    by (rule build_Ok)
  have "build_allocated_networks N p us = Ok (hosts @ filter (\<lambda>u. nw_contains N (ap_prefix p) (nw_network N u)) us)" for us
    using b(1,2) by (auto simp: build_allocated_networks_def and_then_Inr_iff)
  then show thesis using that [of hosts] hosts_set(2) [OF b(3), of a] assms b(4) by simp
qed

lemma get_allocated_Ok:
  obtains R where "get_allocated N al p = Ok R"
    "\<And>r. r \<in> set R \<Longrightarrow> (\<exists>a \<in> reserved_addrs N p. nw_addrs N r = {a}) \<or> r \<in> set (al_used_ips al)"
    "\<And>a. a \<in> reserved_addrs N p \<Longrightarrow> \<exists>r \<in> set R. nw_addrs N r = {a}"
    "\<And>u. used_fit N p (al_used_ips al) \<Longrightarrow> u \<in> set (al_used_ips al) \<Longrightarrow> nw_addrs N u \<subseteq> nw_addrs N (ap_prefix p) \<Longrightarrow> \<exists>r \<in> set R. nw_addrs N r = nw_addrs N u"
proof -
  obtain ns hosts as where b: "build_allocated_networks N p (al_used_ips al) = Ok ns"
      "ns = hosts @ filter (\<lambda>u. nw_contains N (ap_prefix p) (nw_network N u)) (al_used_ips al)" "list_all2 (is_host N) as hosts" "set as = reserved_addrs N p"
    by (rule build_Ok)
  have hosts: "\<exists>a \<in> reserved_addrs N p. is_host N a h" if "h \<in> set hosts" for h
    using hosts_set(1) [OF b(3) that] b(4) by simp
  have hosts': "\<exists>h \<in> set hosts. is_host N a h" if "a \<in> reserved_addrs N p" for a
    using hosts_set(2) [OF b(3)] that b(4) by simp
  let ?R = "collapse_allocated_networks N ns"
  have same: "nw_prefix N v \<le> interface_prefix_len (addr_family (nw_network N u))" if "nw_network N v = nw_network N u" for u v
    using width_bound [of v] network_bits [of v] that by simp
  show thesis
  proof (rule that)
    show "get_allocated N al p = Ok ?R" using b(1) by (simp add: get_allocated_def)
    show "(\<exists>a \<in> reserved_addrs N p. nw_addrs N r = {a}) \<or> r \<in> set (al_used_ips al)" if "r \<in> set ?R" for r
      using collapse_spec(1) [of ns] that hosts by (auto simp: b(2) is_host_def)
    show "\<exists>r \<in> set ?R. nw_addrs N r = {a}" if a: "a \<in> reserved_addrs N p" for a
    proof -
      obtain h where h: "h \<in> set ns" "is_host N a h" using hosts' [OF a] b(2) by auto
      then have "\<exists>r \<in> set ?R. nw_addrs N r = nw_addrs N h" using same by (intro collapse_keeps) (auto simp: is_host_def)
      then show ?thesis using h(2) by (simp add: is_host_def)
    qed
    show "\<exists>r \<in> set ?R. nw_addrs N r = nw_addrs N u"
      if fit: "used_fit N p (al_used_ips al)" and u: "u \<in> set (al_used_ips al)" "nw_addrs N u \<subseteq> nw_addrs N (ap_prefix p)" for u
    proof (rule collapse_keeps)
      show "u \<in> set ns" using u network_mem [of u] b(2) by (auto simp: nw_addrs_def)
      show "nw_prefix N v \<le> nw_prefix N u" if v: "v \<in> set ns" "nw_network N v = nw_network N u" for v
      proof (cases "v \<in> set hosts")
        case True
        then have "nw_network N u \<in> reserved_addrs N p" using hosts [OF True] v(2) by (auto simp: is_host_def)
        then have "nw_prefix N u = interface_prefix_len (nw_family N u)" by (rule used_fitD(3) [OF fit u(1)])
        then show ?thesis using same [OF v(2)] network_bits [of u] by simp
      next
        case False
        then have "v \<in> set (al_used_ips al)" using v(1) b(2) by auto
        then show ?thesis using used_fitD(2) [OF fit _ u(1)] v(2) by simp
      qed
    qed
  qed
qed

lemma get_allocated_total: "\<exists>R. get_allocated N al p = Ok R"
  by (rule get_allocated_Ok [of al p]) (rule exI)

lemma reserved_kept:
  assumes "get_allocated N al p = Ok R" "a \<in> reserved_addrs N p"
  shows "\<exists>r \<in> set R. nw_addrs N r = {a}"
proof (rule get_allocated_Ok [of al p])
  fix R'
  assume "get_allocated N al p = Ok R'" and kept: "\<And>a. a \<in> reserved_addrs N p \<Longrightarrow> \<exists>r \<in> set R'. nw_addrs N r = {a}"
  then have "R' = R" using assms(1) by simp
  then show ?thesis using kept [OF assms(2)] by simp
qed

text \<open>For used networks that fit, what the search avoids is what is not free.\<close>

lemma nw_take_mem:
  assumes "a \<in> set (nw_take N n k)"
  shows "a \<in> nw_addrs N n"
proof -
  from assms obtain i where "nw_nth N n i = Some a" by (auto simp: nw_take_def List.map_filter_def)
  then have i: "i < 2 ^ nw_width N n" "a = addr_of (nw_family N n) (addr_val (nw_network N n) + i)" by (simp_all add: iter split: if_splits)
  have "addr_val (nw_network N n) + i < 2 ^ interface_prefix_len (nw_family N n)" using i(1) block_bound [of n] by (simp add: network)
  then show ?thesis using i by (simp add: mem_addrs mem_block network)
qed

lemma reserved_subset: "reserved_addrs N p \<subseteq> nw_addrs N (ap_prefix p)"
  unfolding reserved_addrs_def
proof (intro Un_least)
  show "set (nw_take N (ap_prefix p) (as_usize (ap_num_reserved p))) \<subseteq> nw_addrs N (ap_prefix p)" by (intro subsetI) (rule nw_take_mem)
qed (simp_all add: network_mem broadcast_mem Collect_mono_iff subset_iff)

lemma is_allocated_free:
  assumes "get_allocated N al p = Ok R" "used_fit N p (al_used_ips al)" "nw_addrs N m \<subseteq> nw_addrs N (ap_prefix p)"
  shows "\<not> is_allocated N R m \<longleftrightarrow> is_free N p (al_used_ips al) m"
proof -
  obtain R' where R: "get_allocated N al p = Ok R'"
    "\<And>r. r \<in> set R' \<Longrightarrow> (\<exists>a \<in> reserved_addrs N p. nw_addrs N r = {a}) \<or> r \<in> set (al_used_ips al)"
    "\<And>a. a \<in> reserved_addrs N p \<Longrightarrow> \<exists>r \<in> set R'. nw_addrs N r = {a}"
    "\<And>u. used_fit N p (al_used_ips al) \<Longrightarrow> u \<in> set (al_used_ips al) \<Longrightarrow> nw_addrs N u \<subseteq> nw_addrs N (ap_prefix p) \<Longrightarrow> \<exists>r \<in> set R'. nw_addrs N r = nw_addrs N u"
    by (rule get_allocated_Ok [of al p]) blast
  then have [simp]: "R' = R" using assms(1) by simp
  show ?thesis
  proof
    assume n: "\<not> is_allocated N R m"
    have "nw_addrs N m \<inter> nw_addrs N u = {}" if u: "u \<in> set (al_used_ips al)" for u
    proof (cases "nw_addrs N u \<subseteq> nw_addrs N (ap_prefix p)")
      case True
      then show ?thesis using R(4) [OF assms(2) u] n by (auto simp: is_allocated_iff)
    next
      case False
      then show ?thesis using used_fitD(1) [OF assms(2) u] assms(3) by blast
    qed
    moreover have "a \<notin> nw_addrs N m" if "a \<in> reserved_addrs N p" for a using R(3) [OF that] n by (auto simp: is_allocated_iff)
    ultimately show "is_free N p (al_used_ips al) m" using assms(3) by (auto simp: is_free_def)
  next
    assume f: "is_free N p (al_used_ips al) m"
    have "nw_addrs N r \<inter> nw_addrs N m = {}" if "r \<in> set R" for r using R(2) [of r] that f by (auto simp: is_free_def)
    then show "\<not> is_allocated N R m" by (simp add: is_allocated_iff)
  qed
qed

text \<open>The two halves of the IPv4 space: the size of a half is negative as an \<^verbatim>\<open>i32\<close>, so only the first one is looked at.\<close>

lemma next_available_half:
  assumes "nw_prefix N seg = 0" "nw_family N seg = Ipv4"
  shows "next_available_prefix N seg 1 ns = Returns (Ok (if is_allocated N ns (nth_subnet N seg 1 0) then None else Some (nth_subnet N seg 1 0)))"
proof -
  obtain a b where ab: "nw_network N seg = AddrV4 a" "nw_broadcast N seg = AddrV4 b"
    using network(1) [of seg] broadcast(1) [of seg] assms(2) by (cases "nw_network N seg"; cases "nw_broadcast N seg") auto
  have w: "nw_width N seg = 32" using assms by (simp add: nw_width_def)
  have "nw_index N seg * 2 ^ 32 + 2 ^ 32 \<le> 2 ^ 32" using block_bound [of seg] unfolding w assms(2) by simp
  then have "nw_index N seg = 0" by simp
  then have "unat a = 0" "unat b = 2 ^ 32 - 1" using network(2) [of seg] broadcast(2) [of seg] ab w by simp_all
  then have a: "a = 0" and b: "b = 4294967295" by (simp_all add: word_unat_eq_iff)
  have d: "get_network_details N seg 1 = Some \<lparr>base_ip = 0, broadcast_ip = 4294967295, network_size = - 2147483648\<rparr>"
    using ab a b by (simp add: get_network_details_def)
  have "build_candidate_subnet N seg 0 1 = Ok (nth_subnet N seg 1 0)" using candidate [of seg 1 0] assms ab a by simp
  moreover have "next_from N seg 1 ns 4294967295 (- 2147483648) (- 2147483648) = Returns (Ok None)"
    by (subst next_from.simps) (simp add: word_le_nat_alt)
  ultimately have "next_from N seg 1 ns 4294967295 (- 2147483648) 0 =
      Returns (Ok (if is_allocated N ns (nth_subnet N seg 1 0) then None else Some (nth_subnet N seg 1 0)))"
    by (subst next_from.simps) simp
  then show ?thesis using d assms(1) by (simp add: next_available_prefix_def)
qed

lemma next_available_cases:
  assumes "next_available_prefix N seg l ns = Returns (Ok (Some n))"
  obtains k where "nw_prefix N seg < l" "l \<le> interface_prefix_len (nw_family N seg)" "k < 2 ^ (l - nw_prefix N seg)" "n = nth_subnet N seg l k"
    "\<not> is_allocated N ns n" "\<forall>j<k. is_allocated N ns (nth_subnet N seg l j)"
proof -
  have p: "nw_prefix N seg < l" using assms by (auto simp: next_available_prefix_def split: if_splits)
  have "l \<le> interface_prefix_len (nw_family N seg)"
    using assms network(1) [of seg] by (auto simp: next_available_prefix_def get_network_details_def split: if_splits option.splits ip_addr.splits)
  note l = p this
  show thesis
  proof (cases "nw_family N seg = Ipv4 \<and> l = 1")
    case True
    then have p0: "nw_prefix N seg = 0" using p by simp
    then have "n = nth_subnet N seg 1 0" "\<not> is_allocated N ns n" using assms next_available_half [of seg ns] True by (auto split: if_splits)
    then show thesis using that [of 0] l True p0 by simp
  next
    case False
    then show thesis using that assms l by (auto simp: next_available_spec find_Some_iff split: option.splits if_splits)
  qed
qed

text \<open>What an allocation gives.\<close>

lemma alloc_item_Ok:
  assumes "alloc_item N al p = Returns (Ok n)" "used_fit N p (al_used_ips al)"
  shows "requested_length N (al_strategy al) (ap_prefix p) = Ok (nw_prefix N n)" "is_free N p (al_used_ips al) n"
    and "is_free N p (al_used_ips al) m \<Longrightarrow> nw_prefix N m = nw_prefix N n \<Longrightarrow> addr_val (nw_network N n) \<le> addr_val (nw_network N m)"
proof -
  let ?seg = "ap_prefix p"
  obtain R l where R: "get_allocated N al p = Ok R" "requested_length N (al_strategy al) ?seg = Ok l" "next_available_prefix N ?seg l R = Returns (Ok (Some n))"
    using assms(1) by (auto simp: alloc_item_def split: sum.splits run.splits option.splits)
  obtain k where k: "nw_prefix N ?seg < l" "l \<le> interface_prefix_len (nw_family N ?seg)" "k < 2 ^ (l - nw_prefix N ?seg)" "n = nth_subnet N ?seg l k"
    "\<not> is_allocated N R n" "\<forall>j<k. is_allocated N R (nth_subnet N ?seg l j)"
    using R(3) by (rule next_available_cases)
  have pl: "nw_prefix N ?seg \<le> l" using k(1) by simp
  note sub = nth_subnet [OF pl k(2)]
  show len: "requested_length N (al_strategy al) ?seg = Ok (nw_prefix N n)" using R(2) sub(2) [OF k(3)] k(4) by simp
  show "is_free N p (al_used_ips al) n" using is_allocated_free [OF R(1) assms(2), of n] k(4,5) sub(5) [OF k(3)] by simp
  assume m: "is_free N p (al_used_ips al) m" "nw_prefix N m = nw_prefix N n"
  then have "nw_addrs N m \<subseteq> nw_addrs N ?seg" by (simp add: is_free_def)
  then obtain j where j: "j < 2 ^ (nw_prefix N m - nw_prefix N ?seg)" "nw_addrs N m = nw_addrs N (nth_subnet N ?seg (nw_prefix N m) j)"
    by (rule nth_subnet_cover)
  have ml: "nw_prefix N m = l" using m(2) sub(2) [OF k(3)] k(4) by simp
  have "\<not> is_allocated N R m" using is_allocated_free [OF R(1) assms(2) \<open>nw_addrs N m \<subseteq> nw_addrs N ?seg\<close>] m(1) by simp
  then have "\<not> is_allocated N R (nth_subnet N ?seg l j)" using j(2) ml by (simp add: is_allocated_iff)
  then have "k \<le> j" using k(6) by (meson not_le)
  moreover have "addr_val (nw_network N m) = addr_val (nw_network N ?seg) + j * 2 ^ (interface_prefix_len (nw_family N ?seg) - l)"
    using same_addrs_network [OF j(2)] sub(4) [of j] j(1) ml by simp
  moreover have "addr_val (nw_network N n) = addr_val (nw_network N ?seg) + k * 2 ^ (interface_prefix_len (nw_family N ?seg) - l)"
    using sub(4) [OF k(3)] k(4) by simp
  ultimately show "addr_val (nw_network N n) \<le> addr_val (nw_network N m)" by simp
qed

lemma halves_allocated:
  assumes "get_allocated N al p = Ok R" "nw_prefix N (ap_prefix p) = 0" "nw_family N (ap_prefix p) = Ipv4"
  shows "is_allocated N R (nth_subnet N (ap_prefix p) 1 0)" "is_allocated N R (nth_subnet N (ap_prefix p) 1 1)"
proof -
  let ?seg = "ap_prefix p" and ?s = "nth_subnet N (ap_prefix p) 1"
  have kept: "is_allocated N R m" if "a \<in> reserved_addrs N p" "a \<in> nw_addrs N m" for a m
    using reserved_kept [OF assms(1) that(1)] that(2) by (auto simp: is_allocated_iff)
  have res: "nw_network N ?seg \<in> reserved_addrs N p" "nw_broadcast N ?seg \<in> reserved_addrs N p"
    using assms(2,3) by (simp_all add: reserved_addrs_def should_reserve_network_broadcast_def)
  have w: "nw_width N ?seg = 32" using assms(2,3) by (simp add: nw_width_def)
  have sub: "nw_family N (?s k) = Ipv4" "addr_val (nw_network N (?s k)) = addr_val (nw_network N ?seg) + k * 2 ^ 31" "nw_width N (?s k) = 31" if "k < 2" for k
    using nth_subnet [of ?seg 1 k] assms(2,3) that by (simp_all add: nw_width_def)
  have bc: "addr_val (nw_broadcast N (?s k)) = addr_val (nw_network N (?s k)) + (2 ^ 31 - 1)" if "k < 2" for k
    using sub(3) [OF that] by (simp add: network(2) broadcast(2))
  have "nw_network N ?seg \<in> nw_addrs N (?s 0)" "nw_broadcast N ?seg \<in> nw_addrs N (?s 1)"
    using sub bc network broadcast w assms(3) unfolding nw_addrs_def contains by simp_all
  then show "is_allocated N R (?s 0)" "is_allocated N R (?s 1)" using kept res by blast+
qed

lemma alloc_item_outcome:
  assumes "used_fit N p (al_used_ips al)" "requested_length N (al_strategy al) (ap_prefix p) = Ok l"
    and l: "nw_prefix N (ap_prefix p) < l" "l \<le> interface_prefix_len (nw_family N (ap_prefix p))"
  shows "if \<exists>m. is_free N p (al_used_ips al) m \<and> nw_prefix N m = l then \<exists>n. alloc_item N al p = Returns (Ok n)
    else alloc_item N al p = (if addr_val (nw_broadcast N (ap_prefix p)) = 2 ^ 128 - 1 then Panics
      else Returns (Err (Dhcp (PrefixExhausted (nw_ip N (ap_prefix p))))))"
proof -
  let ?seg = "ap_prefix p"
  obtain R where R: "get_allocated N al p = Ok R" using get_allocated_total by blast
  have pl: "nw_prefix N ?seg \<le> l" using l(1) by simp
  note sub = nth_subnet [OF pl l(2)]
  have free: "\<not> is_allocated N R (nth_subnet N ?seg l k) \<longleftrightarrow> is_free N p (al_used_ips al) (nth_subnet N ?seg l k)" if "k < 2 ^ (l - nw_prefix N ?seg)" for k
    using is_allocated_free [OF R assms(1) sub(5) [OF that]] .
  have ex: "(\<exists>m. is_free N p (al_used_ips al) m \<and> nw_prefix N m = l) \<longleftrightarrow> (\<exists>k < 2 ^ (l - nw_prefix N ?seg). \<not> is_allocated N R (nth_subnet N ?seg l k))"
  proof
    assume "\<exists>m. is_free N p (al_used_ips al) m \<and> nw_prefix N m = l"
    then obtain m where m: "is_free N p (al_used_ips al) m" "nw_prefix N m = l" by blast
    then have s: "nw_addrs N m \<subseteq> nw_addrs N ?seg" by (simp add: is_free_def)
    obtain k where k: "k < 2 ^ (l - nw_prefix N ?seg)" "nw_addrs N m = nw_addrs N (nth_subnet N ?seg l k)" using nth_subnet_cover [OF s] m(2) by blast
    have "\<not> is_allocated N R m" using is_allocated_free [OF R assms(1) s] m(1) by simp
    then show "\<exists>k < 2 ^ (l - nw_prefix N ?seg). \<not> is_allocated N R (nth_subnet N ?seg l k)" using k by (auto simp: is_allocated_iff)
  next
    assume "\<exists>k < 2 ^ (l - nw_prefix N ?seg). \<not> is_allocated N R (nth_subnet N ?seg l k)"
    then show "\<exists>m. is_free N p (al_used_ips al) m \<and> nw_prefix N m = l" using free sub(2) by blast
  qed
  have item: "alloc_item N al p = (case next_available_prefix N ?seg l R of
      Returns (Inl e) \<Rightarrow> Returns (Err (FailedNext ?seg e)) | Returns (Inr None) \<Rightarrow> Returns (Err (Dhcp (PrefixExhausted (nw_ip N ?seg))))
    | Returns (Inr (Some network)) \<Rightarrow> Returns (Ok network) | Panics \<Rightarrow> Panics | Diverges \<Rightarrow> Diverges)"
    using R assms(2) by (simp add: alloc_item_def)
  show ?thesis
  proof (cases "nw_family N ?seg = Ipv4 \<and> l = 1")
    case True
    then have "nw_prefix N ?seg = 0" using l(1) by simp
    then have "\<forall>k < 2 ^ (l - nw_prefix N ?seg). is_allocated N R (nth_subnet N ?seg l k)" "next_available_prefix N ?seg l R = Returns (Ok None)"
      using halves_allocated [OF R] True next_available_half [of ?seg R] by (auto simp: less_2_cases_iff)
    moreover have "addr_val (nw_broadcast N ?seg) \<noteq> 2 ^ 128 - 1" using subnet_total(2) [OF pl l(2)] True by simp
    ultimately show ?thesis unfolding ex item by simp
  next
    case False
    note spec = next_available_spec [OF l False, of R]
    show ?thesis
    proof (cases "List.find (\<lambda>k. \<not> is_allocated N R (nth_subnet N ?seg l k)) [0..<2 ^ (l - nw_prefix N ?seg)]")
      case None
      then have "\<forall>k < 2 ^ (l - nw_prefix N ?seg). is_allocated N R (nth_subnet N ?seg l k)" by (simp add: find_None_iff)
      then show ?thesis unfolding ex item spec None by simp
    next
      case (Some k)
      then have "k < 2 ^ (l - nw_prefix N ?seg) \<and> \<not> is_allocated N R (nth_subnet N ?seg l k)" by (auto simp: find_Some_iff)
      then have "\<exists>k < 2 ^ (l - nw_prefix N ?seg). \<not> is_allocated N R (nth_subnet N ?seg l k)" by blast
      then show ?thesis unfolding ex item spec Some by simp
    qed
  qed
qed

text \<open>Handing out.\<close>

lemma disjoint_usedD: "disjoint_used N p us \<Longrightarrow> u \<in> set us \<Longrightarrow> v \<in> set us \<Longrightarrow> u = v \<or> nw_addrs N u \<inter> nw_addrs N v = {}"
  unfolding disjoint_used_def pairwise_def by blast

lemma disjoint_used_fit:
  assumes "disjoint_used N p us"
  shows "used_fit N p us"
proof -
  have in_p: "nw_addrs N u \<subseteq> nw_addrs N (ap_prefix p) - reserved_addrs N p" if "u \<in> set us" for u using assms that by (simp add: disjoint_used_def)
  have "nw_prefix N u = nw_prefix N v" if "u \<in> set us" "v \<in> set us" "nw_network N u = nw_network N v" for u v
  proof (cases "u = v")
    case False
    then have "nw_addrs N u \<inter> nw_addrs N v = {}" using assms that(1,2) by (auto simp: disjoint_used_def pairwise_def)
    then show ?thesis using network_mem [of u] network_mem [of v] that(3) by auto
  qed simp
  moreover have "nw_network N u \<notin> reserved_addrs N p" if "u \<in> set us" for u using in_p [OF that] network_mem [of u] by blast
  ultimately show ?thesis using in_p unfolding used_fit_def by blast
qed

lemma disjoint_used_Cons:
  assumes "disjoint_used N p us" "is_free N p us n"
  shows "disjoint_used N p (n # us)"
proof -
  have "nw_addrs N n \<inter> nw_addrs N n \<noteq> {}" using network_mem [of n] by blast
  then have "n \<notin> set us" using assms(2) by (auto simp: is_free_def)
  moreover have "pairwise (\<lambda>u v. nw_addrs N u \<inter> nw_addrs N v = {}) (insert n (set us))"
    using assms by (auto simp: pairwise_insert disjoint_used_def is_free_def)
  ultimately show ?thesis using assms by (auto simp: disjoint_used_def is_free_def)
qed

lemma handed_out_disjoint: "handed_out N p us \<Longrightarrow> disjoint_used N p us"
proof (induction rule: handed_out.induct)
  case (allocate us ps st n)
  then show ?case using alloc_item_Ok(2) [OF allocate(2)] disjoint_used_fit [OF allocate(3)] by (intro disjoint_used_Cons) auto
next
  case (free us u)
  note pairwise_subset [OF _ set_remove1_subset, of _ us u]
  then show ?case using free(2) by (auto simp: disjoint_used_def)
qed (simp add: disjoint_used_def)

text \<open>Counting.\<close>

lemma network_size_count: "get_network_size N n = count_of (card (nw_addrs N n))"
proof -
  let ?k = "2 ^ nw_width N n :: nat"
  have lt: "?k < 2 ^ 128 \<longleftrightarrow> nw_width N n < 128" by (rule power_strict_increasing_iff) simp
  show ?thesis
  proof (cases "nw_family N n")
    case Ipv4
    then obtain x where x: "nw_size N n = SizeV4 x" "0 < nw_prefix N n \<longrightarrow> unat x = ?k" using size_v4 by blast
    have w: "nw_width N n + nw_prefix N n = 32" using width_bound [of n] Ipv4 by simp
    have "nw_prefix N n = 0 \<Longrightarrow> nw_width N n = 32" using w by simp
    then show ?thesis using x w ucast_by_nat [of x ?k] unfolding get_network_size_def count_of_def card_addrs lt by auto
  next
    case Ipv6
    then obtain x where x: "nw_size N n = SizeV6 x" "0 < nw_prefix N n \<longrightarrow> unat x = ?k" using size_v6 by blast
    have w: "nw_width N n + nw_prefix N n = 128" using width_bound [of n] Ipv6 by simp
    then show ?thesis using x w by_nat [of x ?k] unfolding get_network_size_def count_of_def card_addrs lt by auto
  qed
qed

lemma fold_count:
  assumes "distinct R" "pairwise (\<lambda>u v. nw_addrs N u \<inter> nw_addrs N v = {}) (set R)"
  shows "fold (\<lambda>n c. count_add c (get_network_size N n)) R (count_of k) = count_of (k + card (\<Union>r \<in> set R. nw_addrs N r))"
  using assms
proof (induction R arbitrary: k)
  case (Cons n R)
  have "nw_addrs N n \<inter> (\<Union>r \<in> set R. nw_addrs N r) = {}" using Cons.prems by (auto simp: pairwise_insert)
  then have "card (\<Union>r \<in> set (n # R). nw_addrs N r) = card (nw_addrs N n) + card (\<Union>r \<in> set R. nw_addrs N r)"
    using card_addrs(2) by (simp add: card_Un_disjoint)
  then show ?case using Cons by (simp add: network_size_count pairwise_insert add.assoc)
qed simp

lemma collapse_disjoint:
  assumes "\<forall>x \<in> set xs \<union> set S. \<forall>y \<in> set xs \<union> set S. nw_addrs N x = nw_addrs N y \<or> nw_addrs N x \<inter> nw_addrs N y = {}"
    and "distinct S" "pairwise (\<lambda>u v. nw_addrs N u \<inter> nw_addrs N v = {}) (set S)"
  shows "distinct (fold (collapse_step N) xs S) \<and> pairwise (\<lambda>u v. nw_addrs N u \<inter> nw_addrs N v = {}) (set (fold (collapse_step N) xs S)) \<and>
    (\<Union>r \<in> set (fold (collapse_step N) xs S). nw_addrs N r) = (\<Union>r \<in> set xs \<union> set S. nw_addrs N r)"
  using assms
proof (induction xs arbitrary: S)
  case (Cons x xs)
  have mem: "x \<in> set (x # xs) \<union> set S" by simp
  show ?case
  proof (cases "\<exists>e \<in> set S. nw_network N x \<in> nw_addrs N e")
    case True
    then obtain e where e: "e \<in> set S" "nw_network N x \<in> nw_addrs N e" by blast
    then have "nw_addrs N e = nw_addrs N x" using Cons.prems(1) mem network_mem [of x] by blast
    then have "(\<Union>r \<in> set xs \<union> set S. nw_addrs N r) = (\<Union>r \<in> set (x # xs) \<union> set S. nw_addrs N r)" using e(1) by auto
    moreover have "collapse_step N x S = S" using e by (auto simp: collapse_step_def list_ex_iff nw_addrs_def)
    ultimately show ?thesis using Cons.IH [of S] Cons.prems by simp
  next
    case False
    then have st: "collapse_step N x S = bset_insert (nw_le N) x S" by (auto simp: collapse_step_def list_ex_iff nw_addrs_def)
    have "x \<notin> set S" using False network_mem [of x] by blast
    moreover have "nw_addrs N x \<inter> nw_addrs N e = {}" if "e \<in> set S" for e
    proof -
      have "nw_addrs N x \<noteq> nw_addrs N e" using False that network_mem [of x] by blast
      then show ?thesis using Cons.prems(1) mem that by blast
    qed
    ultimately have "distinct (collapse_step N x S)" "pairwise (\<lambda>u v. nw_addrs N u \<inter> nw_addrs N v = {}) (set (collapse_step N x S))"
      using Cons.prems(2,3) by (auto simp: st distinct_bset_insert pairwise_insert)
    moreover have "set xs \<union> set (collapse_step N x S) = set (x # xs) \<union> set S" by (simp add: st)
    ultimately show ?thesis using Cons.IH [of "collapse_step N x S"] Cons.prems(1) by simp
  qed
qed simp

lemma get_allocated_disjoint:
  assumes us: "disjoint_used N p (filter (\<lambda>u. nw_contains N (ap_prefix p) (nw_network N u)) (al_used_ips al))" (is "disjoint_used N p ?us")
  obtains R where "get_allocated N al p = Ok R" "distinct R" "pairwise (\<lambda>u v. nw_addrs N u \<inter> nw_addrs N v = {}) (set R)"
    "(\<Union>r \<in> set R. nw_addrs N r) = reserved_addrs N p \<union> (\<Union>u \<in> set ?us. nw_addrs N u)"
proof -
  obtain ns hosts as where b: "build_allocated_networks N p (al_used_ips al) = Ok ns" "ns = hosts @ ?us"
      "list_all2 (is_host N) as hosts" "set as = reserved_addrs N p"
    by (rule build_Ok)
  let ?R = "collapse_allocated_networks N ns"
  have hosts: "\<exists>a \<in> reserved_addrs N p. nw_addrs N h = {a}" if "h \<in> set hosts" for h
    using hosts_set(1) [OF b(3) that] b(4) by (auto simp: is_host_def)
  have hosts': "\<exists>h \<in> set hosts. nw_addrs N h = {a}" if "a \<in> reserved_addrs N p" for a
    using hosts_set(2) [OF b(3), of a] that b(4) by (auto simp: is_host_def)
  have in_p: "nw_addrs N u \<subseteq> nw_addrs N (ap_prefix p) - reserved_addrs N p" if "u \<in> set ?us" for u using us that unfolding disjoint_used_def by blast
  have hh: "nw_addrs N x = nw_addrs N y \<or> nw_addrs N x \<inter> nw_addrs N y = {}" if "x \<in> set hosts" "y \<in> set hosts" for x y
    using hosts [OF that(1)] hosts [OF that(2)] by auto
  have hu: "nw_addrs N x \<inter> nw_addrs N y = {}" if "x \<in> set hosts" "y \<in> set ?us" for x y
    using hosts [OF that(1)] in_p [OF that(2)] by auto
  have uu: "nw_addrs N x = nw_addrs N y \<or> nw_addrs N x \<inter> nw_addrs N y = {}" if "x \<in> set ?us" "y \<in> set ?us" for x y
    using disjoint_usedD [OF us that] by blast
  have "nw_addrs N x = nw_addrs N y \<or> nw_addrs N x \<inter> nw_addrs N y = {}" if "x \<in> set ns" "y \<in> set ns" for x y
  proof -
    have "x \<in> set hosts \<or> x \<in> set ?us" "y \<in> set hosts \<or> y \<in> set ?us" using that by (simp_all only: b(2) set_append Un_iff)
    then show ?thesis using hh [of x y] hu [of x y] hu [of y x] uu [of x y] by blast
  qed
  then have R: "distinct ?R" "pairwise (\<lambda>u v. nw_addrs N u \<inter> nw_addrs N v = {}) (set ?R)" "(\<Union>r \<in> set ?R. nw_addrs N r) = (\<Union>r \<in> set ns. nw_addrs N r)"
    using collapse_disjoint [of "sort_key (\<lambda>n. - int (nw_prefix N n)) ns" "[]"] by (simp_all add: collapse_allocated_networks_def)
  have "(\<Union>r \<in> set hosts. nw_addrs N r) = reserved_addrs N p"
  proof (intro equalityI subsetI)
    fix a
    assume "a \<in> reserved_addrs N p"
    then show "a \<in> (\<Union>r \<in> set hosts. nw_addrs N r)" using hosts' [of a] by auto
  next
    fix a
    assume "a \<in> (\<Union>r \<in> set hosts. nw_addrs N r)"
    then obtain h where "h \<in> set hosts" "a \<in> nw_addrs N h" by blast
    then show "a \<in> reserved_addrs N p" using hosts [of h] by auto
  qed
  moreover have "(\<Union>r \<in> set ns. nw_addrs N r) = (\<Union>r \<in> set hosts. nw_addrs N r) \<union> (\<Union>u \<in> set ?us. nw_addrs N u)"
    unfolding b(2) set_append by (rule UN_Un)
  ultimately have "(\<Union>r \<in> set ?R. nw_addrs N r) = reserved_addrs N p \<union> (\<Union>u \<in> set ?us. nw_addrs N u)" using R(3) by simp
  then show thesis using that [of ?R] R(1,2) b(1) by (simp add: get_allocated_def)
qed

lemma num_free_exact:
  assumes p: "List.find (\<lambda>p. ap_id p = i) (al_prefixes al) = Some p"
    and us: "disjoint_used N p (filter (\<lambda>u. nw_contains N (ap_prefix p) (nw_network N u)) (al_used_ips al))" (is "disjoint_used N p ?us")
  shows "num_free N al i = Ok (word_of_nat (card (nw_addrs N (ap_prefix p) - reserved_addrs N p - (\<Union>u \<in> set ?us. nw_addrs N u))))"
proof -
  let ?X = "reserved_addrs N p \<union> (\<Union>u \<in> set ?us. nw_addrs N u)" and ?P = "nw_addrs N (ap_prefix p)"
  obtain R where R: "get_allocated N al p = Ok R" "distinct R" "pairwise (\<lambda>u v. nw_addrs N u \<inter> nw_addrs N v = {}) (set R)"
      "(\<Union>r \<in> set R. nw_addrs N r) = ?X"
    by (rule get_allocated_disjoint [OF us])
  have XP: "?X \<subseteq> ?P" using us reserved_subset [of p] unfolding disjoint_used_def by blast
  have bound: "card ?P \<le> 2 ^ 128" using width_bound [of "ap_prefix p"] interface_prefix_len_le [of "nw_family N (ap_prefix p)"]
    unfolding card_addrs by (intro power_increasing) simp_all
  have pos: "card ?P < 2 ^ 128 \<or> 0 < card ?X"
  proof (cases "nw_width N (ap_prefix p) < 128")
    case True
    then show ?thesis unfolding card_addrs by (intro disjI1 power_strict_increasing) simp_all
  next
    case False
    then have "?X \<noteq> {}" using width_bound [of "ap_prefix p"]
      by (cases "nw_family N (ap_prefix p)") (auto simp: reserved_addrs_def should_reserve_network_broadcast_def)
    then show ?thesis using finite_subset [OF XP] card_addrs(2) by (simp add: card_gt_0_iff)
  qed
  have "num_free N al i = free_after (count_of (card ?P)) (count_of (card ?X))"
    using fold_count [OF R(2,3), of 0] p R(1) unfolding R(4) by (simp add: num_free_def network_size_count count_of_0)
  also have "\<dots> = Ok (word_of_nat (card ?P - card ?X))"
    using card_mono [OF card_addrs(2) XP] bound pos by (intro free_after_of)
  also have "card ?P - card ?X = card (?P - ?X)" using finite_subset [OF XP] card_addrs(2) XP by (simp add: card_Diff_subset)
  finally show ?thesis by (simp add: Diff_Un Diff_eq Int_assoc)
qed

text \<open>A used network that starts at a reserved address, and is longer than an address, is dropped.\<close>

lemma collapse_ignores:
  assumes v: "v \<in> set xs" "nw_network N v = nw_network N u" "nw_prefix N u < nw_prefix N v"
  shows "collapse_allocated_networks N (xs @ u # ys) = collapse_allocated_networks N (xs @ ys)"
proof -
  let ?f = "\<lambda>n. - int (nw_prefix N n)"
  obtain as bs where ab: "sort_key ?f (xs @ u # ys) = as @ u # bs" "sort_key ?f (xs @ ys) = as @ bs" by (rule sort_key_drop)
  have "sorted (map ?f (as @ u # bs))" unfolding ab(1) [symmetric] by (rule sorted_sort_key)
  then have as: "longest_first N as" and bs: "\<forall>b \<in> set bs. nw_prefix N b \<le> nw_prefix N u" by (auto simp: sorted_append sorted_map)
  have "v \<in> set (as @ u # bs)" unfolding ab(1) [symmetric] using v(1) by simp
  then have "v \<in> set as" using bs v(3) by auto
  then obtain r where r: "r \<in> set (fold (collapse_step N) as [])" "nw_contains N r (nw_network N u)"
    using collapse_fold [OF as, of "[]"] v(2) by auto
  then have "collapse_step N u (fold (collapse_step N) as []) = fold (collapse_step N) as []" by (auto simp: collapse_step_def list_ex_iff)
  then show ?thesis by (simp add: collapse_allocated_networks_def ab)
qed

lemma alloc_item_ignores:
  assumes u: "nw_network N u \<in> reserved_addrs N p" "nw_prefix N u < interface_prefix_len (nw_family N u)"
  shows "alloc_item N \<lparr>al_prefixes = ps, al_used_ips = us @ u # vs, al_strategy = st\<rparr> p = alloc_item N \<lparr>al_prefixes = ps, al_used_ips = us @ vs, al_strategy = st\<rparr> p"
proof -
  let ?F = "filter (\<lambda>u. nw_contains N (ap_prefix p) (nw_network N u))"
  obtain hosts where h: "\<forall>us. build_allocated_networks N p us = Ok (hosts @ ?F us)" "\<exists>h \<in> set hosts. is_host N (nw_network N u) h"
    by (rule build_hosts [OF u(1)])
  have "nw_contains N (ap_prefix p) (nw_network N u)" using reserved_subset [of p] u(1) by (auto simp: nw_addrs_def)
  moreover obtain v where "v \<in> set (hosts @ ?F us)" "is_host N (nw_network N u) v" using h(2) by auto
  then have "collapse_allocated_networks N ((hosts @ ?F us) @ u # ?F vs) = collapse_allocated_networks N ((hosts @ ?F us) @ ?F vs)"
    using u(2) network_bits [of u] by (intro collapse_ignores [of v]) (simp_all add: is_host_def)
  ultimately show ?thesis by (simp add: alloc_item_def get_allocated_def h(1))
qed

end

text \<open>A segment of eight addresses, and its first allocations.\<close>

abbreviation (input) doc_segment :: "(ip_addr \<times> nat) alloc_prefix" where
  "doc_segment \<equiv> \<lparr>ap_id = ''p'', ap_prefix = (AddrV4 0x0A000000, 29), ap_gateway = Some (AddrV4 0x0A000001), ap_num_reserved = 2\<rparr>"

lemmas alloc_eval = alloc_item_def get_allocated_def build_allocated_networks_def host_network_def as_usize_def
  should_reserve_network_broadcast_def collapse_allocated_networks_def collapse_step_def requested_length_def
  next_available_prefix_def get_network_details_def next_from.simps build_candidate_subnet_def is_allocated_def

lemma doc_allocations:
  "alloc_item ip_network_doc \<lparr>al_prefixes = [], al_used_ips = [], al_strategy = NextAvailableIp\<rparr> doc_segment = Returns (Ok (AddrV4 0x0A000002, 32))"
  "alloc_item ip_network_doc \<lparr>al_prefixes = [], al_used_ips = [(AddrV4 0x0A000002, 32)], al_strategy = NextAvailableIp\<rparr> doc_segment =
     Returns (Ok (AddrV4 0x0A000003, 32))"
  by (simp_all add: alloc_eval doc_eval)

lemma doc_handed_out:
  "handed_out ip_network_doc doc_segment [(AddrV4 0x0A000002, 32)]"
  "handed_out ip_network_doc doc_segment [(AddrV4 0x0A000003, 32), (AddrV4 0x0A000002, 32)]"
  using handed_out.allocate [OF handed_out.nothing doc_allocations(1)] handed_out.allocate [OF _ doc_allocations(2)] by blast+

lemma doc_used_fit: "used_fit ip_network_doc doc_segment [(AddrV4 0x0A000002, 32)]"
  by (rule doc_nw.disjoint_used_fit [OF doc_nw.handed_out_disjoint [OF doc_handed_out(1)]])

subsection \<open>Properties\<close>

text \<open>
  C17. What the allocator hands out is free: a network of the requested length inside the prefix that shares no
  address with the gateway, the reserved addresses, the network and broadcast addresses, or any used
  network; and no free network of that length starts before it.  The used networks have to fit the prefix: each lies inside or outside of it,
  no two of different lengths start at the same address, and one that starts at a reserved address is a single address.
\<close>

theorem allocated_network_is_free:
  assumes "ip_network N" "al_prefixes al = p # ps" "used_fit N p (al_used_ips al)" "alloc_next N al = Returns (Some (i, Ok n), al')"
  shows "i = ap_id p \<and> al' = al\<lparr>al_prefixes := ps\<rparr> \<and> is_free N p (al_used_ips al) n \<and> requested_length N (al_strategy al) (ap_prefix p) = Ok (nw_prefix N n) \<and>
    \<not> (\<exists>m. is_free N p (al_used_ips al) m \<and> nw_prefix N m = nw_prefix N n \<and> addr_val (nw_network N m) < addr_val (nw_network N n))"
proof -
  have al: "i = ap_id p" "al' = al\<lparr>al_prefixes := ps\<rparr>" and n: "alloc_item N (al\<lparr>al_prefixes := ps\<rparr>) p = Returns (Ok n)"
    using assms(2,4) by (auto simp: alloc_next_def Let_def split: run.splits)
  show ?thesis using ip_network.alloc_item_Ok [OF assms(1) n] assms(3) al by (auto simp: not_less)
qed

theorem allocated_network_is_free_witness:
  "alloc_next ip_network_doc \<lparr>al_prefixes = [doc_segment], al_used_ips = [(AddrV4 0x0A000002, 32)], al_strategy = NextAvailableIp\<rparr> =
     Returns (Some (''p'', Ok (AddrV4 0x0A000003, 32)), \<lparr>al_prefixes = [], al_used_ips = [(AddrV4 0x0A000002, 32)], al_strategy = NextAvailableIp\<rparr>) \<and>
   is_free ip_network_doc doc_segment [(AddrV4 0x0A000002, 32)] (AddrV4 0x0A000003, 32)"
proof
  let ?al = "\<lparr>al_prefixes = [doc_segment], al_used_ips = [(AddrV4 0x0A000002, 32)], al_strategy = NextAvailableIp\<rparr>"
  show n: "alloc_next ip_network_doc ?al = 
    Returns (Some (''p'', Ok (AddrV4 0x0A000003, 32)), \<lparr>al_prefixes = [], al_used_ips = [(AddrV4 0x0A000002, 32)], al_strategy = NextAvailableIp\<rparr>)"
    using doc_allocations(2) by (simp add: alloc_next_def)
  show "is_free ip_network_doc doc_segment [(AddrV4 0x0A000002, 32)] (AddrV4 0x0A000003, 32)"
    using allocated_network_is_free [OF doc_nw.ip_network_axioms _ _ n, of doc_segment "[]"] doc_used_fit by simp
qed

text \<open>
  C19. The outcome of an allocation, for used networks that fit the prefix and a requested length between that of the
  prefix and that of a single address: a network when a free one of the requested length exists, otherwise the prefix
  is reported as exhausted, except that the search panics on overflow when the prefix ends at the last IPv6
  address.
\<close>

theorem allocation_outcome:
  assumes "ip_network N" "used_fit N p (al_used_ips al)" "requested_length N (al_strategy al) (ap_prefix p) = Ok l"
    and "nw_prefix N (ap_prefix p) < l" "l \<le> interface_prefix_len (nw_family N (ap_prefix p))"
  shows "if \<exists>m. is_free N p (al_used_ips al) m \<and> nw_prefix N m = l then \<exists>n. alloc_item N al p = Returns (Ok n)
    else alloc_item N al p = (if addr_val (nw_broadcast N (ap_prefix p)) = 2 ^ 128 - 1 then Panics
      else Returns (Err (Dhcp (PrefixExhausted (nw_ip N (ap_prefix p))))))"
  using assms by (rule ip_network.alloc_item_outcome)

theorem allocation_outcome_witness:
  "alloc_item ip_network_doc \<lparr>al_prefixes = [], al_used_ips = [(AddrV4 0x0A000002, 32)], al_strategy = NextAvailablePrefix 30\<rparr> doc_segment =
     Returns (Err (Dhcp (PrefixExhausted (AddrV4 0x0A000000)))) \<and>
   \<not> (\<exists>m. is_free ip_network_doc doc_segment [(AddrV4 0x0A000002, 32)] m \<and> nw_prefix ip_network_doc m = 30)"
proof
  let ?al = "\<lparr>al_prefixes = [], al_used_ips = [(AddrV4 0x0A000002, 32)], al_strategy = NextAvailablePrefix 30\<rparr>"
  show full: "alloc_item ip_network_doc ?al doc_segment = Returns (Err (Dhcp (PrefixExhausted (AddrV4 0x0A000000))))"
    by (simp add: alloc_eval doc_eval)
  have "requested_length ip_network_doc (al_strategy ?al) (ap_prefix doc_segment) = Ok 30"
      "nw_prefix ip_network_doc (ap_prefix doc_segment) < 30" "30 \<le> interface_prefix_len (nw_family ip_network_doc (ap_prefix doc_segment))"
    by (simp_all add: requested_length_def doc_prefix_def)
  then show "\<not> (\<exists>m. is_free ip_network_doc doc_segment [(AddrV4 0x0A000002, 32)] m \<and> nw_prefix ip_network_doc m = 30)"
    using allocation_outcome [OF doc_nw.ip_network_axioms, of doc_segment ?al 30] doc_used_fit full by (auto split: if_splits)
qed

text \<open>
  C18. Whatever the order of allocations (of any lengths) and releases, one after the other and starting with nothing in use,
  the networks handed out of a prefix and not yet released are inside it, away from its reserved addresses, and pairwise disjoint.
\<close>

theorem handed_out_networks_disjoint:
  assumes "ip_network N" "handed_out N p us"
  shows "disjoint_used N p us"
  using assms by (rule ip_network.handed_out_disjoint)

theorem handed_out_networks_disjoint_witness:
  "handed_out ip_network_doc doc_segment [(AddrV4 0x0A000003, 32), (AddrV4 0x0A000002, 32)] \<and>
   disjoint_used ip_network_doc doc_segment [(AddrV4 0x0A000003, 32), (AddrV4 0x0A000002, 32)]"
  using handed_out_networks_disjoint [OF doc_nw.ip_network_axioms doc_handed_out(2)] doc_handed_out(2) by blast

text \<open>
  The free count is exact: over used networks that are disjoint and away from the reserved addresses, it is
  the number of addresses of the prefix that are neither reserved nor used, for every prefix up to the whole IPv6 space.
\<close>

theorem num_free_is_exact:
  assumes "ip_network N" "List.find (\<lambda>p. ap_id p = i) (al_prefixes al) = Some p"
    and "disjoint_used N p (filter (\<lambda>u. nw_contains N (ap_prefix p) (nw_network N u)) (al_used_ips al))"
  shows "num_free N al i = Ok (word_of_nat (card (nw_addrs N (ap_prefix p) - reserved_addrs N p -
    (\<Union>u \<in> set (filter (\<lambda>u. nw_contains N (ap_prefix p) (nw_network N u)) (al_used_ips al)). nw_addrs N u))))"
  using assms by (rule ip_network.num_free_exact)

theorem num_free_is_exact_witness:
  "num_free ip_network_doc \<lparr>al_prefixes = [doc_segment], al_used_ips = [(AddrV4 0x0A000002, 32)], al_strategy = NextAvailableIp\<rparr> ''p'' =
     Ok (word_of_nat (card (nw_addrs ip_network_doc (AddrV4 0x0A000000, 29) - reserved_addrs ip_network_doc doc_segment - nw_addrs ip_network_doc (AddrV4 0x0A000002, 32)))) \<and>
   num_free ip_network_doc \<lparr>al_prefixes = [doc_segment], al_used_ips = [(AddrV4 0x0A000002, 32)], al_strategy = NextAvailableIp\<rparr> ''p'' = Ok 4"
proof
  have "filter (\<lambda>u. nw_contains ip_network_doc (AddrV4 0x0A000000, 29) (nw_network ip_network_doc u)) [(AddrV4 0x0A000002, 32)] = [(AddrV4 0x0A000002, 32)]"
    by (simp add: doc_eval)
  then show "num_free ip_network_doc \<lparr>al_prefixes = [doc_segment], al_used_ips = [(AddrV4 0x0A000002, 32)], al_strategy = NextAvailableIp\<rparr> ''p'' =
      Ok (word_of_nat (card (nw_addrs ip_network_doc (AddrV4 0x0A000000, 29) - reserved_addrs ip_network_doc doc_segment - nw_addrs ip_network_doc (AddrV4 0x0A000002, 32))))"
    using num_free_is_exact [of ip_network_doc "''p''" "\<lparr>al_prefixes = [doc_segment], al_used_ips = [(AddrV4 0x0A000002, 32)], al_strategy = NextAvailableIp\<rparr>" doc_segment]
      doc_nw.ip_network_axioms doc_nw.handed_out_disjoint [OF doc_handed_out(1)] by simp
qed (simp add: num_free_def get_network_size_def alloc_eval doc_eval)

text \<open>
  C35. A used network of more than one address that starts at a reserved address is forgotten: the allocator
  hands out what it would hand out if that network were not in use.
\<close>

theorem used_network_at_reserved_address_is_forgotten:
  assumes "ip_network N" "nw_network N u \<in> reserved_addrs N p" "nw_prefix N u < interface_prefix_len (nw_family N u)"
  shows "alloc_item N \<lparr>al_prefixes = ps, al_used_ips = us @ u # vs, al_strategy = st\<rparr> p = alloc_item N \<lparr>al_prefixes = ps, al_used_ips = us @ vs, al_strategy = st\<rparr> p"
  using assms by (rule ip_network.alloc_item_ignores)

theorem used_network_at_reserved_address_is_forgotten_witness:
  "alloc_item ip_network_doc \<lparr>al_prefixes = [], al_used_ips = [(AddrV4 0x0A000000, 30)], al_strategy = NextAvailableIp\<rparr> doc_segment =
     Returns (Ok (AddrV4 0x0A000002, 32)) \<and>
   nw_contains ip_network_doc (AddrV4 0x0A000000, 30) (AddrV4 0x0A000002)"
  using used_network_at_reserved_address_is_forgotten [of ip_network_doc "(AddrV4 0x0A000000, 30)" doc_segment "[]" "[]" "[]" NextAvailableIp]
    doc_nw.ip_network_axioms doc_allocations(1) by (simp add: reserved_addrs_def should_reserve_network_broadcast_def doc_eval)

end
