(* ===== verification/Resource_Pool.thy ===== *)
theory Resource_Pool
  imports Rust_Strings Config_Version
begin

text \<open>
  Resource pools: \<^verbatim>\<open>api-model/src/resource_pool/mod.rs\<close> and the queries of
  \<^verbatim>\<open>api-db/src/resource_pool.rs\<close>.

  The table \<^verbatim>\<open>resource_pool\<close> is a list of rows with the next value of its identity
  column; every SQL statement of the source is a function on it.  What the database
  decides is an argument: the rows that concurrent transactions hold locked, the number
  that \<^verbatim>\<open>ORDER BY random()\<close> draws, the current time, and for every statement whether it
  fails.  Values of the pool have a printed form (\<^verbatim>\<open>ToString\<close>) and a parser (\<^verbatim>\<open>FromStr\<close>),
  which are arguments too.
\<close>

subsection \<open>Entries, owners and errors\<close>

datatype resource_pool_entry_state = Free | Allocated (entry_owner: string) (entry_owner_type: string)

datatype value_type = Integer | Ipv4 | Ipv6 | Ipv6Prefix

fun value_type_display :: "value_type \<Rightarrow> string" where
  "value_type_display Integer = ''Integer''"
| "value_type_display Ipv4 = ''Ipv4''"
| "value_type_display Ipv6 = ''Ipv6''"
| "value_type_display Ipv6Prefix = ''Ipv6Prefix''"

record resource_pool =
  pool_name :: string
  pool_value_type :: value_type

datatype owner_kind = Machine | NetworkSegment | IBPartition | Vpc | SpxPartition

datatype model_error = InvalidArgument string

definition owner_from_str :: "string \<Rightarrow> (model_error, owner_kind) result" where
  "owner_from_str s =
     (if s = ''machine'' then Ok Machine
      else if s = ''network_segment'' then Ok NetworkSegment
      else if s = ''ib_partition'' then Ok IBPartition
      else if s = ''vpc'' then Ok Vpc
      else if s = ''spx_partition'' then Ok SpxPartition
      else Err (InvalidArgument (''Unknown owner_type '' @ [CHR 0x27] @ s @ [CHR 0x27])))"

fun owner_display :: "owner_kind \<Rightarrow> string" where
  "owner_display Machine = ''machine''"
| "owner_display NetworkSegment = ''network_segment''"
| "owner_display IBPartition = ''ib_partition''"
| "owner_display Vpc = ''vpc''"
| "owner_display SpxPartition = ''spx_partition''"

record resource_pool_stats =
  used :: nat
  free :: nat
  auto_assign_used :: nat
  auto_assign_free :: nat
  non_auto_assign_used :: nat
  non_auto_assign_free :: nat

datatype resource_pool_error =
    Empty
  | Parse (parse_error: string) (parse_value: string) (parse_pool: string) (parse_owner_type: string) (parse_owner_id: string)

datatype database_error =
    FailedPrecondition string
  | RowNotFound
  | UniqueViolation
  | QueryFailed string

datatype resource_pool_database_error =
    ResourcePool resource_pool_error
  | Database database_error

subsection \<open>The table\<close>

record pool_row =
  row_id :: nat
  row_name :: string
  row_value :: string
  row_type :: value_type
  row_state :: resource_pool_entry_state
  row_version :: config_version
  row_auto :: bool
  row_allocated :: "datetime option"

record pool_table =
  rows :: "pool_row list"
  next_id :: nat

type_synonym faults = "nat \<Rightarrow> string option"

definition stats :: "pool_table \<Rightarrow> string \<Rightarrow> resource_pool_stats" where
  "stats tbl name =
     (let count = (\<lambda>P. length (filter (\<lambda>r. row_name r = name \<and> P r) (rows tbl)));
          auto_used = count (\<lambda>r. row_state r \<noteq> Free \<and> row_auto r);
          auto_free = count (\<lambda>r. row_state r = Free \<and> row_auto r);
          non_auto_used = count (\<lambda>r. row_state r \<noteq> Free \<and> \<not> row_auto r);
          non_auto_free = count (\<lambda>r. row_state r = Free \<and> \<not> row_auto r)
      in \<lparr>used = auto_used + non_auto_used, free = auto_free + non_auto_free,
          auto_assign_used = auto_used, auto_assign_free = auto_free,
          non_auto_assign_used = non_auto_used, non_auto_assign_free = non_auto_free\<rparr>)"

subsection \<open>Filling a pool\<close>

definition BIND_LIMIT :: nat where
  "BIND_LIMIT = 32768"

function chunks :: "nat \<Rightarrow> 'a list \<Rightarrow> 'a list list" where
  "chunks k xs = (if xs = [] \<or> k = 0 then [] else take k xs # chunks k (drop k xs))"
  by auto
termination
  by (relation "measure (\<lambda>(_, xs). length xs)") auto

declare chunks.simps [simp del]

definition insert_row :: "config_version \<Rightarrow> resource_pool \<Rightarrow> bool \<Rightarrow> string \<Rightarrow> pool_table \<Rightarrow> pool_table" where
  "insert_row ver pool auto v tbl =
     (if list_ex (\<lambda>r. row_name r = pool_name pool \<and> row_value r = v) (rows tbl)
      then tbl\<lparr>next_id := Suc (next_id tbl)\<rparr>
      else tbl\<lparr>rows := rows tbl @ [\<lparr>row_id = next_id tbl, row_name = pool_name pool, row_value = v,
             row_type = pool_value_type pool, row_state = Free, row_version = ver, row_auto = auto,
             row_allocated = None\<rparr>],
           next_id := Suc (next_id tbl)\<rparr>)"

fun populate_chunks ::
  "faults \<Rightarrow> nat \<Rightarrow> config_version \<Rightarrow> resource_pool \<Rightarrow> bool \<Rightarrow> string list list \<Rightarrow> pool_table
    \<Rightarrow> (database_error, unit) result \<times> pool_table" where
  "populate_chunks fault i ver pool auto [] tbl = (Ok (), tbl)"
| "populate_chunks fault i ver pool auto (vals # rest) tbl =
     (case fault i of
        Some e \<Rightarrow> (Err (QueryFailed e), tbl)
      | None \<Rightarrow> populate_chunks fault (Suc i) ver pool auto rest (fold (insert_row ver pool auto) vals tbl))"

definition populate ::
  "('v \<Rightarrow> string) \<Rightarrow> faults \<Rightarrow> config_version \<Rightarrow> resource_pool \<Rightarrow> pool_table \<Rightarrow> 'v list \<Rightarrow> bool
    \<Rightarrow> (database_error, unit) result \<times> pool_table" where
  "populate to_str fault initial_version pool tbl all_values auto_assign =
     populate_chunks fault 0 initial_version pool auto_assign
       (chunks (BIND_LIMIT div 6) (map to_str all_values)) tbl"

subsection \<open>Allocating and releasing\<close>

definition allocatable :: "string \<Rightarrow> bool \<Rightarrow> string option \<Rightarrow> pool_row \<Rightarrow> bool" where
  "allocatable name auto req r \<longleftrightarrow>
     row_name r = name \<and> row_state r = Free \<and> row_auto r = auto \<and> (row_auto r \<or> req = Some (row_value r))"

definition candidates :: "string \<Rightarrow> bool \<Rightarrow> string option \<Rightarrow> nat list \<Rightarrow> pool_table \<Rightarrow> pool_row list" where
  "candidates name auto req locked tbl =
     filter (\<lambda>r. allocatable name auto req r \<and> row_id r \<notin> set locked) (rows tbl)"

definition select_row :: "string \<Rightarrow> bool \<Rightarrow> string option \<Rightarrow> nat list \<Rightarrow> nat \<Rightarrow> pool_table \<Rightarrow> pool_row option" where
  "select_row name auto req locked random tbl =
     (let cs = candidates name auto req locked tbl
      in if cs = [] then None else Some (cs ! (random mod length cs)))"

definition update_row :: "nat \<Rightarrow> (pool_row \<Rightarrow> pool_row) \<Rightarrow> pool_table \<Rightarrow> pool_table" where
  "update_row i f tbl = tbl\<lparr>rows := map (\<lambda>r. if row_id r = i then f r else r) (rows tbl)\<rparr>"

text \<open>
  \<open>locked\<close> are the entries other transactions hold locked; \<open>others\<close> is what they commit after the selection has found
  nothing and before the entries are counted.
\<close>

definition allocate ::
  "('v \<Rightarrow> string) \<Rightarrow> (string \<Rightarrow> (string, 'v) result) \<Rightarrow> nat list \<Rightarrow> (pool_table \<Rightarrow> pool_table) \<Rightarrow> nat \<Rightarrow> datetime \<Rightarrow> faults \<Rightarrow> resource_pool
    \<Rightarrow> pool_table \<Rightarrow> owner_kind \<Rightarrow> string \<Rightarrow> 'v option
    \<Rightarrow> (resource_pool_database_error, 'v) result \<times> pool_table" where
  "allocate to_str parse locked others random now fault pool tbl owner_type owner_id requested_value =
     (let auto_assign = (requested_value = None);
          name = pool_name pool;
          allocated_state = Allocated owner_id (owner_display owner_type);
          req = map_option to_str requested_value
      in case fault 0 of
           Some e \<Rightarrow> (Err (Database (QueryFailed e)), tbl)
         | None \<Rightarrow>
             (case select_row name auto_assign req locked random tbl of
                Some row \<Rightarrow>
                  (let tbl' = update_row (row_id row) (\<lambda>r. r\<lparr>row_state := allocated_state, row_allocated := Some now\<rparr>) tbl
                   in case parse (row_value row) of
                        Ok v \<Rightarrow> (Ok v, tbl')
                      | Err e \<Rightarrow>
                          (Err (ResourcePool (Parse e (row_value row) name (owner_display owner_type) owner_id)), tbl'))
              | None \<Rightarrow>
                  (case fault 1 of
                     Some e \<Rightarrow> (Err (Database (QueryFailed e)), others tbl)
                   | None \<Rightarrow>
                       (let st = stats (others tbl) name;
                            available = (if auto_assign then auto_assign_free st else non_auto_assign_free st)
                        in if available = 0 then (Err (ResourcePool Empty), others tbl)
                           else if \<not> auto_assign then
                             (Err (Database (FailedPrecondition
                                (''`'' @ (case req of Some v \<Rightarrow> v | None \<Rightarrow> [])
                                 @ ''` not an available value for resource-pool `'' @ name @ ''`''))), others tbl)
                           else (Err (Database RowNotFound), others tbl)))))"

definition owned_values :: "string \<Rightarrow> resource_pool_entry_state \<Rightarrow> pool_table \<Rightarrow> string list" where
  "owned_values name st tbl =
     take 2 (sort (map row_value (filter (\<lambda>r. row_name r = name \<and> row_state r = st) (rows tbl))))"

definition find_owned_allocation ::
  "(string \<Rightarrow> (string, 'v) result) \<Rightarrow> faults \<Rightarrow> resource_pool \<Rightarrow> pool_table \<Rightarrow> owner_kind \<Rightarrow> string
    \<Rightarrow> (resource_pool_database_error, 'v option) result" where
  "find_owned_allocation parse fault pool tbl owner_type owner_id =
     (let name = pool_name pool in
      case fault 0 of
        Some e \<Rightarrow> Err (Database (QueryFailed e))
      | None \<Rightarrow>
          (case owned_values name (Allocated owner_id (owner_display owner_type)) tbl of
             [] \<Rightarrow> Ok None
           | [v] \<Rightarrow>
               (case parse v of
                  Ok x \<Rightarrow> Ok (Some x)
                | Err e \<Rightarrow> Err (ResourcePool (Parse e v name (owner_display owner_type) owner_id)))
           | _ # _ # _ \<Rightarrow>
               Err (Database (FailedPrecondition
                 (''resource pool `'' @ name @ ''` has multiple values allocated to ''
                  @ owner_display owner_type @ '' `'' @ owner_id @ ''`'')))))"

record resource_pool_entry =
  entry_pool_name :: string
  entry_pool_type :: value_type
  entry_state :: resource_pool_entry_state
  entry_allocated :: "datetime option"

definition find_value :: "faults \<Rightarrow> pool_table \<Rightarrow> string \<Rightarrow> (database_error, resource_pool_entry list) result" where
  "find_value fault tbl v =
     (case fault 0 of
        Some e \<Rightarrow> Err (QueryFailed e)
      | None \<Rightarrow>
          Ok (map (\<lambda>r. \<lparr>entry_pool_name = row_name r, entry_pool_type = row_type r, entry_state = row_state r,
                         entry_allocated = row_allocated r\<rparr>)
                (filter (\<lambda>r. row_value r = v) (rows tbl))))"

definition pool_has_rows :: "pool_table \<Rightarrow> string \<Rightarrow> bool" where
  "pool_has_rows tbl name = list_ex (\<lambda>r. row_name r = name) (rows tbl)"

subsection \<open>Reporting failures\<close>

datatype resource_pool_failure = Exhausted | RequestedValueUnavailable | ParseFailure | DatabaseFailure

datatype resource_pool_operation = AllocateOp | ReleaseOp

datatype resource_pool_failure_policy = Required | BestEffort

datatype resource_pool_allocation_mode = Automatic | Requested | NotApplicable

definition classify_database_failure :: "database_error \<Rightarrow> resource_pool_failure" where
  "classify_database_failure e =
     (case e of FailedPrecondition _ \<Rightarrow> RequestedValueUnavailable | _ \<Rightarrow> DatabaseFailure)"

fun classify_resource_pool_failure :: "resource_pool_database_error \<Rightarrow> resource_pool_failure" where
  "classify_resource_pool_failure (ResourcePool Empty) = Exhausted"
| "classify_resource_pool_failure (ResourcePool (Parse _ _ _ _ _)) = ParseFailure"
| "classify_resource_pool_failure (Database e) = classify_database_failure e"

definition is_requested_value_unavailable :: "resource_pool_database_error \<Rightarrow> bool" where
  "is_requested_value_unavailable e \<longleftrightarrow> classify_resource_pool_failure e = RequestedValueUnavailable"

record lifecycle_labels =
  operation :: resource_pool_operation
  failure :: resource_pool_failure
  failure_policy :: resource_pool_failure_policy
  allocation_mode :: resource_pool_allocation_mode
  label_value_type :: value_type

datatype pool_event =
    ResourcePoolExhausted lifecycle_labels (event_owner: string) (event_pool: string)
  | ResourcePoolRequestedVniUnavailable lifecycle_labels (event_owner: string) (event_pool: string) (requested_vni: int)
  | ResourcePoolAllocationFailed lifecycle_labels (event_owner: string) (event_error: string) (event_pool: string)
  | ResourcePoolReleaseFailed lifecycle_labels (event_error: string) (event_pool: string) (event_value: string)
  | DpuAsnAllocationFailed lifecycle_labels (stable_machine_id: string) (event_error: string)

definition release ::
  "('v \<Rightarrow> string) \<Rightarrow> faults \<Rightarrow> resource_pool \<Rightarrow> pool_table \<Rightarrow> 'v
    \<Rightarrow> (database_error, unit) result \<times> pool_table \<times> pool_event list" where
  "release to_str fault pool tbl v =
     (case fault 0 of
        Some e \<Rightarrow>
          (Err (QueryFailed e), tbl,
           [ResourcePoolReleaseFailed
              \<lparr>operation = ReleaseOp, failure = DatabaseFailure, failure_policy = Required,
               allocation_mode = NotApplicable, label_value_type = pool_value_type pool\<rparr>
              e (pool_name pool) (to_str v)])
      | None \<Rightarrow>
          (Ok (), tbl\<lparr>rows := map (\<lambda>r. if row_name r = pool_name pool \<and> row_value r = to_str v
                                      then r\<lparr>row_allocated := None, row_state := Free\<rparr> else r) (rows tbl)\<rparr>, []))"

definition emit_classified_allocation_failure ::
  "value_type \<Rightarrow> string \<Rightarrow> bool \<Rightarrow> string \<Rightarrow> resource_pool_failure \<Rightarrow> string \<Rightarrow> pool_event" where
  "emit_classified_allocation_failure vt owner_id requested diagnostic_pool f error =
     (let labels = \<lparr>operation = AllocateOp, failure = f, failure_policy = Required,
                    allocation_mode = (if requested then Requested else Automatic), label_value_type = vt\<rparr>
      in case f of
           Exhausted \<Rightarrow> ResourcePoolExhausted labels owner_id diagnostic_pool
         | _ \<Rightarrow> ResourcePoolAllocationFailed labels owner_id error diagnostic_pool)"

definition emit_allocation_failure ::
  "(resource_pool_database_error \<Rightarrow> string) \<Rightarrow> value_type \<Rightarrow> string \<Rightarrow> bool \<Rightarrow> string
    \<Rightarrow> resource_pool_database_error \<Rightarrow> pool_event" where
  "emit_allocation_failure err_text vt owner_id requested diagnostic_pool error =
     emit_classified_allocation_failure vt owner_id requested diagnostic_pool
       (classify_resource_pool_failure error) (err_text error)"

definition emit_database_allocation_failure ::
  "(database_error \<Rightarrow> string) \<Rightarrow> value_type \<Rightarrow> string \<Rightarrow> bool \<Rightarrow> string \<Rightarrow> database_error \<Rightarrow> pool_event" where
  "emit_database_allocation_failure err_text vt owner_id requested diagnostic_pool error =
     emit_classified_allocation_failure vt owner_id requested diagnostic_pool
       (classify_database_failure error) (err_text error)"

definition emit_requested_vni_unavailable :: "value_type \<Rightarrow> string \<Rightarrow> int \<Rightarrow> string \<Rightarrow> pool_event" where
  "emit_requested_vni_unavailable vt owner_id vni diagnostic_pool =
     ResourcePoolRequestedVniUnavailable
       \<lparr>operation = AllocateOp, failure = RequestedValueUnavailable, failure_policy = Required,
        allocation_mode = Requested, label_value_type = vt\<rparr> owner_id diagnostic_pool vni"

definition emit_best_effort_dpu_asn_allocation_failure ::
  "(resource_pool_database_error \<Rightarrow> string) \<Rightarrow> value_type \<Rightarrow> string \<Rightarrow> resource_pool_database_error \<Rightarrow> pool_event" where
  "emit_best_effort_dpu_asn_allocation_failure err_text vt machine error =
     DpuAsnAllocationFailed
       \<lparr>operation = AllocateOp, failure = classify_resource_pool_failure error, failure_policy = BestEffort,
        allocation_mode = Automatic, label_value_type = vt\<rparr> machine (err_text error)"

definition table_ok :: "pool_table \<Rightarrow> bool" where
  "table_ok tbl \<longleftrightarrow>
     distinct (map row_id (rows tbl)) \<and>
     (\<forall>r\<in>set (rows tbl). row_id r < next_id tbl) \<and>
     distinct (map (\<lambda>r. (row_name r, row_value r)) (rows tbl)) \<and>
     (\<forall>r\<in>set (rows tbl). row_state r = Free \<longleftrightarrow> row_allocated r = None)"

text \<open>
  The history of one pool and the values that are allocated and not released.  What happens to other pools does not
  touch the entries of this one.
\<close>

inductive pool_history :: "('v \<Rightarrow> string) \<Rightarrow> (string \<Rightarrow> (string, 'v) result) \<Rightarrow> resource_pool \<Rightarrow> 'v list \<Rightarrow> pool_table \<Rightarrow> bool"
  for to_str parse pool where
  start: "table_ok tbl \<Longrightarrow> \<not> pool_has_rows tbl (pool_name pool) \<Longrightarrow> pool_history to_str parse pool [] tbl"
| filled: "pool_history to_str parse pool held tbl \<Longrightarrow> pool_history to_str parse pool held (snd (populate to_str fault ver pool tbl vs auto))"
| allocated: "pool_history to_str parse pool held tbl \<Longrightarrow> allocate to_str parse locked others random now fault pool tbl ot oid req = (Ok v, tbl') \<Longrightarrow>
    pool_history to_str parse pool (v # held) tbl'"
| refused: "pool_history to_str parse pool held tbl \<Longrightarrow> allocate to_str parse locked id random now fault pool tbl ot oid req = (Err e, tbl') \<Longrightarrow>
    pool_history to_str parse pool held tbl'"
| released: "pool_history to_str parse pool held tbl \<Longrightarrow> release to_str fault pool tbl v = (Ok (), tbl', events) \<Longrightarrow>
    pool_history to_str parse pool (filter (\<lambda>u. u \<noteq> v) held) tbl'"
| not_released: "pool_history to_str parse pool held tbl \<Longrightarrow> release to_str fault pool tbl v = (Err e, tbl', events) \<Longrightarrow>
    pool_history to_str parse pool held tbl'"
| elsewhere: "pool_history to_str parse pool held tbl \<Longrightarrow> table_ok tbl' \<Longrightarrow>
    filter (\<lambda>r. row_name r = pool_name pool) (rows tbl') = filter (\<lambda>r. row_name r = pool_name pool) (rows tbl) \<Longrightarrow>
    pool_history to_str parse pool held tbl'"

text \<open>What the table knows of the values held: the entry of each is not free, and the entries of the pool are printed values.\<close>

definition holds :: "('v \<Rightarrow> string) \<Rightarrow> resource_pool \<Rightarrow> 'v list \<Rightarrow> pool_table \<Rightarrow> bool" where
  "holds to_str pool held tbl \<longleftrightarrow> distinct held \<and>
     (\<forall>v \<in> set held. \<exists>r \<in> set (rows tbl). row_name r = pool_name pool \<and> row_value r = to_str v \<and> row_state r \<noteq> Free)"

definition printed :: "('v \<Rightarrow> string) \<Rightarrow> resource_pool \<Rightarrow> pool_table \<Rightarrow> bool" where
  "printed to_str pool tbl \<longleftrightarrow> (\<forall>r \<in> set (rows tbl). row_name r = pool_name pool \<longrightarrow> (\<exists>u. row_value r = to_str u))"

text \<open>Values of type u64, the instance used below to show that the laws on printing and parsing can hold.\<close>

definition u64_text :: "u64 \<Rightarrow> string" where
  "u64_text v = show_nat (unat v)"

definition u64_parse :: "string \<Rightarrow> (string, u64) result" where
  "u64_parse s = (case parse_u64 s of Some v \<Rightarrow> Ok v | None \<Rightarrow> Err ''invalid digit'')"

definition demo_pool :: resource_pool where
  "demo_pool = \<lparr>pool_name = ''vlan-id'', pool_value_type = Integer\<rparr>"

definition demo_row :: "nat \<Rightarrow> u64 \<Rightarrow> pool_row" where
  "demo_row i v =
     \<lparr>row_id = i, row_name = ''vlan-id'', row_value = u64_text v, row_type = Integer, row_state = Free,
      row_version = \<lparr>version_nr = 1, timestamp = 0\<rparr>, row_auto = True, row_allocated = None\<rparr>"

definition demo_table :: pool_table where
  "demo_table = \<lparr>rows = [demo_row 1 7], next_id = 2\<rparr>"

definition demo_table2 :: pool_table where
  "demo_table2 = \<lparr>rows = [demo_row 1 7, demo_row 2 8], next_id = 3\<rparr>"

lemma chunks_length: "0 < k \<Longrightarrow> sum_list (map length (chunks k xs)) = length xs"
proof (induction k xs rule: chunks.induct)
  case (1 k xs)
  then show ?case by (cases "xs = []") (simp_all add: chunks.simps [of k xs] chunks.simps [of k "[]"])
qed

lemma concat_chunks: "0 < k \<Longrightarrow> concat (chunks k xs) = xs"
proof (induction k xs rule: chunks.induct)
  case (1 k xs)
  then show ?case by (cases "xs = []") (simp_all add: chunks.simps [of k xs] chunks.simps [of k "[]"])
qed

lemma insert_row_ok: "table_ok tbl \<Longrightarrow> table_ok (insert_row ver pool auto v tbl)"
  by (auto simp: table_ok_def insert_row_def list_ex_iff image_iff)

lemma fold_insert_row_ok: "table_ok tbl \<Longrightarrow> table_ok (fold (insert_row ver pool auto) vs tbl)"
  by (induction vs arbitrary: tbl) (simp_all add: insert_row_ok)

lemma populate_chunks_ok: "table_ok tbl \<Longrightarrow> table_ok (snd (populate_chunks fault i ver pool auto cs tbl))"
  by (induction fault i ver pool auto cs tbl rule: populate_chunks.induct)
    (simp_all add: fold_insert_row_ok split: option.split)

lemma table_ok_map:
  assumes "table_ok tbl"
    and "\<And>r. row_id (f r) = row_id r" "\<And>r. row_name (f r) = row_name r" "\<And>r. row_value (f r) = row_value r"
    and "\<And>r. r \<in> set (rows tbl) \<Longrightarrow> row_state (f r) = Free \<longleftrightarrow> row_allocated (f r) = None"
  shows "table_ok (tbl\<lparr>rows := map f (rows tbl)\<rparr>)"
  using assms by (auto simp: table_ok_def comp_def)

lemma update_row_ok:
  assumes "table_ok tbl"
  shows "table_ok (update_row i (\<lambda>r. r\<lparr>row_state := Allocated ow ot, row_allocated := Some now\<rparr>) tbl)"
  unfolding update_row_def using assms by (intro table_ok_map) (auto simp: table_ok_def)

lemma allocate_table:
  "snd (allocate to_str parse locked others random now fault pool tbl ot oid req) =
     (if fault 0 \<noteq> None then tbl
      else case select_row (pool_name pool) (req = None) (map_option to_str req) locked random tbl of
        None \<Rightarrow> others tbl
      | Some row \<Rightarrow> update_row (row_id row)
          (\<lambda>r. r\<lparr>row_state := Allocated oid (owner_display ot), row_allocated := Some now\<rparr>) tbl)"
  by (auto simp: allocate_def Let_def split: option.splits sum.splits)

lemma select_row_in:
  assumes "select_row name auto req locked random tbl = Some row"
  shows "row \<in> set (rows tbl)" "allocatable name auto req row" "row_id row \<notin> set locked"
proof -
  let ?cs = "candidates name auto req locked tbl"
  from assms have ne: "?cs \<noteq> []" and row: "row = ?cs ! (random mod length ?cs)"
    by (auto simp: select_row_def Let_def split: if_splits)
  then have "row \<in> set ?cs" by simp
  then show "row \<in> set (rows tbl)" "allocatable name auto req row" "row_id row \<notin> set locked"
    by (auto simp: candidates_def)
qed

lemma select_row_None:
  "select_row name auto req locked random tbl = None \<longleftrightarrow>
     (\<forall>r\<in>set (rows tbl). allocatable name auto req r \<longrightarrow> row_id r \<in> set locked)"
  by (auto simp: select_row_def candidates_def Let_def filter_empty_conv)

lemma update_row_split:
  assumes "distinct (map row_id (rows tbl))" "row \<in> set (rows tbl)"
  obtains pre post where "rows tbl = pre @ row # post" "rows (update_row (row_id row) f tbl) = pre @ f row # post"
proof -
  from assms(2) obtain pre post where s: "rows tbl = pre @ row # post" by (auto dest: split_list)
  have "\<forall>r\<in>set pre \<union> set post. row_id r \<noteq> row_id row" using assms(1) s by (auto simp: image_iff)
  then have "map (\<lambda>r. if row_id r = row_id row then f r else r) pre = pre"
    "map (\<lambda>r. if row_id r = row_id row then f r else r) post = post" by (auto intro: map_idI)
  with s have "rows (update_row (row_id row) f tbl) = pre @ f row # post" by (simp add: update_row_def)
  with s show ?thesis by (rule that)
qed

lemma next_id_update_row [simp]: "next_id (update_row i f tbl) = next_id tbl"
  by (simp add: update_row_def)

text \<open>A successful allocation, seen as a change of one row.\<close>

lemma allocate_OkE:
  assumes "table_ok tbl" "allocate to_str parse locked others random now fault pool tbl ot oid req = (Ok v, tbl')"
  obtains pre row post where "rows tbl = pre @ row # post"
    and "allocatable (pool_name pool) (req = None) (map_option to_str req) row"
    and "row_id row \<notin> set locked" "parse (row_value row) = Ok v"
    and "tbl' = tbl\<lparr>rows := pre @ row\<lparr>row_state := Allocated oid (owner_display ot), row_allocated := Some now\<rparr> # post\<rparr>"
proof -
  let ?f = "\<lambda>r. r\<lparr>row_state := Allocated oid (owner_display ot), row_allocated := Some now\<rparr>"
  from assms(2) obtain row where
    row: "select_row (pool_name pool) (req = None) (map_option to_str req) locked random tbl = Some row"
    and p: "parse (row_value row) = Ok v" and t: "tbl' = update_row (row_id row) ?f tbl"
    by (auto simp: allocate_def Let_def split: option.splits sum.splits if_splits)
  note in_row = select_row_in [OF row]
  from assms(1) have "distinct (map row_id (rows tbl))" by (simp add: table_ok_def)
  from this in_row(1) show ?thesis
  proof (rule update_row_split [where f = ?f])
    fix pre post
    assume s: "rows tbl = pre @ row # post" "rows (update_row (row_id row) ?f tbl) = pre @ ?f row # post"
    then have "tbl' = tbl\<lparr>rows := pre @ ?f row # post\<rparr>" by (simp add: t update_row_def)
    with s(1) in_row(2,3) p show ?thesis by (rule that)
  qed
qed

lemma u64_roundtrip [simp]: "u64_parse (u64_text v) = Ok v"
  by (simp add: u64_parse_def u64_text_def)

lemma demo_table_ok: "table_ok demo_table"
  by (simp add: table_ok_def demo_table_def demo_row_def)

lemma demo_allocate:
  "allocate u64_text u64_parse [] id 0 5 (\<lambda>_. None) demo_pool demo_table Vpc ''v1'' None =
     (Ok 7, demo_table\<lparr>rows := [(demo_row 1 7)\<lparr>row_state := Allocated ''v1'' ''vpc'', row_allocated := Some 5\<rparr>]\<rparr>)"
  by (simp add: allocate_def select_row_def candidates_def allocatable_def update_row_def demo_table_def demo_row_def
      demo_pool_def Let_def)

lemma populate_ok: "table_ok tbl \<Longrightarrow> table_ok (snd (populate to_str fault ver pool tbl vs auto))"
  by (simp add: populate_def populate_chunks_ok)

lemma allocate_ok:
  "table_ok tbl \<Longrightarrow> table_ok (others tbl) \<Longrightarrow> table_ok (snd (allocate to_str parse locked others random now fault pool tbl ot oid req))"
  unfolding allocate_table by (auto simp: update_row_ok split: option.split)

lemma release_ok: "table_ok tbl \<Longrightarrow> table_ok (fst (snd (release to_str fault pool tbl v)))"
proof (cases "fault 0")
  case None
  assume ok: "table_ok tbl"
  have "table_ok (tbl\<lparr>rows := map (\<lambda>r. if row_name r = pool_name pool \<and> row_value r = to_str v
      then r\<lparr>row_allocated := None, row_state := Free\<rparr> else r) (rows tbl)\<rparr>)"
    using ok by (rule table_ok_map) (use ok in \<open>auto simp: table_ok_def\<close>)
  then show ?thesis by (simp add: release_def None)
qed (simp add: release_def)

lemma table_ok_key:
  assumes "table_ok tbl" "r \<in> set (rows tbl)" "s \<in> set (rows tbl)" "row_name r = row_name s" "row_value r = row_value s"
  shows "r = s"
proof -
  have "inj_on (\<lambda>r. (row_name r, row_value r)) (set (rows tbl))"
    using assms(1) by (simp add: table_ok_def distinct_map)
  from inj_onD [OF this _ assms(2,3)] assms(4,5) show ?thesis by simp
qed

lemma printed_value:
  assumes "\<And>u. parse (to_str u) = Ok u" "\<exists>u. row_value r = to_str u" "parse (row_value r) = Ok v"
  shows "row_value r = to_str v"
  using assms by force

text \<open>The history of a pool keeps what the table knows of the values held.\<close>

lemma insert_row_rows:
  "set (rows tbl) \<subseteq> set (rows (insert_row ver pool auto v tbl))"
  "r \<in> set (rows (insert_row ver pool auto v tbl)) \<Longrightarrow> r \<in> set (rows tbl) \<or> row_value r = v"
  by (auto simp: insert_row_def split: if_splits)

lemma fold_insert_rows:
  "set (rows tbl) \<subseteq> set (rows (fold (insert_row ver pool auto) vs tbl))"
  "r \<in> set (rows (fold (insert_row ver pool auto) vs tbl)) \<Longrightarrow> r \<in> set (rows tbl) \<or> row_value r \<in> set vs"
proof (induction vs arbitrary: tbl)
  case (Cons v vs)
  { case 1 then show ?case using Cons.IH(1) insert_row_rows(1) by fastforce }
  { case 2 then show ?case using Cons.IH(2) [of "insert_row ver pool auto v tbl"] insert_row_rows(2) by fastforce }
qed simp_all

lemma populate_chunks_rows:
  "set (rows tbl) \<subseteq> set (rows (snd (populate_chunks fault i ver pool auto cs tbl)))"
  "r \<in> set (rows (snd (populate_chunks fault i ver pool auto cs tbl))) \<Longrightarrow> r \<in> set (rows tbl) \<or> row_value r \<in> set (concat cs)"
proof (induction fault i ver pool auto cs tbl rule: populate_chunks.induct)
  case (2 fault i ver pool auto vs rest tbl)
  { case 1 then show ?case using 2 fold_insert_rows(1) [of tbl ver pool auto vs] by (auto split: option.splits) }
  { case 2 then show ?case using "2.IH"(2) fold_insert_rows(2) [of r ver pool auto vs tbl] by (auto split: option.splits) }
qed simp_all

lemma populate_rows:
  "set (rows tbl) \<subseteq> set (rows (snd (populate to_str fault ver pool tbl vs auto)))"
  "r \<in> set (rows (snd (populate to_str fault ver pool tbl vs auto))) \<Longrightarrow> r \<in> set (rows tbl) \<or> row_value r \<in> to_str ` set vs"
proof -
  let ?cs = "chunks (BIND_LIMIT div 6) (map to_str vs)"
  have "concat ?cs = map to_str vs" by (rule concat_chunks) (simp add: BIND_LIMIT_def)
  then have "set (concat ?cs) = to_str ` set vs" by (simp only: set_map)
  then show "r \<in> set (rows (snd (populate to_str fault ver pool tbl vs auto))) \<Longrightarrow> r \<in> set (rows tbl) \<or> row_value r \<in> to_str ` set vs"
    using populate_chunks_rows(2) [of r fault 0 ver pool auto ?cs tbl] unfolding populate_def by blast
qed (simp add: populate_def populate_chunks_rows(1))

lemma holds_map:
  assumes "holds to_str pool held tbl" "rows tbl' = map f (rows tbl)"
    and "\<And>r. row_name (f r) = row_name r" "\<And>r. row_value (f r) = row_value r"
    and "\<And>r. r \<in> set (rows tbl) \<Longrightarrow> row_state r \<noteq> Free \<Longrightarrow> row_name r = pool_name pool \<Longrightarrow> row_value r \<in> to_str ` set held \<Longrightarrow> row_state (f r) \<noteq> Free"
  shows "holds to_str pool held tbl'"
  using assms unfolding holds_def by (simp add: image_iff) metis

lemma printed_map:
  assumes "printed to_str pool tbl" "rows tbl' = map f (rows tbl)" "\<And>r. row_name (f r) = row_name r" "\<And>r. row_value (f r) = row_value r"
  shows "printed to_str pool tbl'"
  using assms by (simp add: printed_def)

lemma allocated_holds:
  assumes rt: "\<And>u. parse (to_str u) = Ok u" and inv: "table_ok tbl" "holds to_str pool held tbl" "printed to_str pool tbl"
    and al: "allocate to_str parse locked others random now fault pool tbl ot oid req = (Ok v, tbl')"
  shows "holds to_str pool (v # held) tbl'" "printed to_str pool tbl'"
proof -
  let ?f = "\<lambda>r. r\<lparr>row_state := Allocated oid (owner_display ot), row_allocated := Some now\<rparr>"
  obtain pre row post where a: "rows tbl = pre @ row # post" "allocatable (pool_name pool) (req = None) (map_option to_str req) row"
      "parse (row_value row) = Ok v" "tbl' = tbl\<lparr>rows := pre @ ?f row # post\<rparr>"
    by (rule allocate_OkE [OF inv(1) al])
  have row: "row \<in> set (rows tbl)" "row_name row = pool_name pool" "row_state row = Free" using a(1,2) by (auto simp: allocatable_def)
  have val: "row_value row = to_str v" using printed_value [OF rt _ a(3)] inv(3) row by (simp add: printed_def)
  have keep: "\<exists>r \<in> set (rows tbl'). row_name r = pool_name pool \<and> row_value r = to_str u \<and> row_state r \<noteq> Free" if "u \<in> set held" for u
  proof -
    obtain r where r: "r \<in> set (rows tbl)" "row_name r = pool_name pool" "row_value r = to_str u" "row_state r \<noteq> Free" using inv(2) \<open>u \<in> set held\<close> by (auto simp: holds_def)
    then have "r \<in> set (rows tbl')" using a(1,4) row(3) by auto
    then show ?thesis using r by blast
  qed
  have "v \<notin> set held"
  proof
    assume "v \<in> set held"
    then obtain r where r: "r \<in> set (rows tbl)" "row_name r = pool_name pool" "row_value r = to_str v" "row_state r \<noteq> Free" using inv(2) by (auto simp: holds_def)
    then show False using table_ok_key [OF inv(1) r(1) row(1)] row val by simp
  qed
  moreover have "\<exists>r \<in> set (rows tbl'). row_name r = pool_name pool \<and> row_value r = to_str v \<and> row_state r \<noteq> Free"
    using a(4) row(2) val by (intro bexI [of _ "?f row"]) simp_all
  ultimately show "holds to_str pool (v # held) tbl'" using keep inv(2) by (simp add: holds_def)
  show "printed to_str pool tbl'" using inv(3) a(1,4) by (auto simp: printed_def)
qed

lemma refused_table:
  assumes "allocate to_str parse locked id random now fault pool tbl ot oid req = (Err e, tbl')"
  shows "tbl' = tbl \<or> (\<exists>i. tbl' = update_row i (\<lambda>r. r\<lparr>row_state := Allocated oid (owner_display ot), row_allocated := Some now\<rparr>) tbl)"
  using allocate_table [of to_str parse locked id random now fault pool tbl ot oid req] assms by (auto split: if_splits option.splits)

lemma released_holds:
  assumes rt: "\<And>u. parse (to_str u) = Ok u" and inv: "holds to_str pool held tbl" "printed to_str pool tbl"
    and rel: "release to_str fault pool tbl v = (Ok (), tbl', events)"
  shows "holds to_str pool (filter (\<lambda>u. u \<noteq> v) held) tbl'" "printed to_str pool tbl'"
proof -
  let ?f = "\<lambda>r. if row_name r = pool_name pool \<and> row_value r = to_str v then r\<lparr>row_allocated := None, row_state := Free\<rparr> else r"
  have t: "rows tbl' = map ?f (rows tbl)" using rel by (auto simp: release_def split: option.splits)
  have inj: "to_str u = to_str w \<longleftrightarrow> u = w" for u w using rt by (metis sum.inject(2))
  have "holds to_str pool (filter (\<lambda>u. u \<noteq> v) held) tbl" using inv(1) by (simp add: holds_def)
  then show "holds to_str pool (filter (\<lambda>u. u \<noteq> v) held) tbl'" by (rule holds_map [OF _ t]) (auto simp: inj)
  show "printed to_str pool tbl'" by (rule printed_map [OF inv(2) t]) simp_all
qed

lemma pool_history_inv:
  assumes "pool_history to_str parse pool held tbl" "\<And>u. parse (to_str u) = Ok u"
  shows "table_ok tbl \<and> holds to_str pool held tbl \<and> printed to_str pool tbl"
  using assms(1)
proof induction
  case (start tbl)
  then show ?case by (auto simp: holds_def printed_def pool_has_rows_def list_ex_iff)
next
  case (filled held tbl fault ver vs auto)
  then show ?case using populate_rows [where tbl = tbl and to_str = to_str and fault = fault and ver = ver and pool = pool and vs = vs and auto = auto]
    unfolding holds_def printed_def by (intro conjI populate_ok) (blast+)
next
  case (allocated held tbl locked others random now fault ot oid req v tbl')
  then have "table_ok tbl'" using update_row_ok [of tbl] allocate_table [of to_str parse locked others random now fault pool tbl ot oid req]
    by (auto simp: allocate_def Let_def split: option.splits sum.splits if_splits)
  then show ?case using allocated_holds [OF assms(2) _ _ _ allocated(2), of held] allocated(3) by simp
next
  case (refused held tbl locked random now fault ot oid req e tbl')
  have ok: "table_ok tbl'" using allocate_ok [of tbl id to_str parse locked random now fault pool ot oid req] refused by simp
  show ?case
  proof (cases "tbl' = tbl")
    case False
    then obtain i where "tbl' = update_row i (\<lambda>r. r\<lparr>row_state := Allocated oid (owner_display ot), row_allocated := Some now\<rparr>) tbl"
      using refused_table [OF refused(2)] by blast
    then have t: "rows tbl' = map (\<lambda>r. if row_id r = i then r\<lparr>row_state := Allocated oid (owner_display ot), row_allocated := Some now\<rparr> else r) (rows tbl)"
      by (simp add: update_row_def)
    show ?thesis using ok refused(3) holds_map [OF _ t, of to_str pool held] printed_map [OF _ t, of to_str pool] by simp
  qed (use refused in simp)
next
  case (released held tbl fault v tbl' events)
  moreover have "table_ok tbl'" using release_ok [of tbl to_str fault pool v] released by simp
  ultimately show ?case using released_holds [OF assms(2) _ _ released(2), of held] by simp
next
  case (not_released held tbl fault v e tbl' events)
  then show ?case by (auto simp: release_def split: option.splits)
next
  case (elsewhere held tbl tbl')
  have "r \<in> set (rows tbl') \<longleftrightarrow> r \<in> set (rows tbl)" if "row_name r = pool_name pool" for r
    using arg_cong [OF elsewhere(3), of set] that by auto
  then show ?case using elsewhere unfolding holds_def printed_def by (intro conjI) metis+
qed

text \<open>
  C33. Filling a pool, allocating from it and releasing into it keep the table well formed:
  identities and (pool, value) pairs stay unique, and an allocation time is set exactly on
  the entries that are not free.  This holds whichever statement fails, and whatever well-formed table other
  transactions leave while an allocation runs.\<close>
theorem pool_table_invariant:
  assumes "table_ok tbl" "table_ok (others tbl)"
  shows "table_ok (snd (populate to_str fault ver pool tbl vs auto)) \<and>
    table_ok (snd (allocate to_str parse locked others random now fault pool tbl ot oid req)) \<and>
    table_ok (fst (snd (release to_str fault pool tbl v)))"
  using assms by (intro conjI populate_ok allocate_ok release_ok)

theorem pool_table_invariant_witness:
  "table_ok (snd (allocate u64_text u64_parse [] id 0 5 (\<lambda>_. None) demo_pool demo_table Vpc ''v1'' None))"
  using pool_table_invariant [OF demo_table_ok, of id u64_text "\<lambda>_. None" "\<lparr>version_nr = 1, timestamp = 0\<rparr>" demo_pool "[]" True u64_parse "[]" 0 5
      Vpc "''v1''" None 0] demo_table_ok by simp

text \<open>
  C22. A successful allocation changes exactly one entry: one of the pool that was free and
  that no concurrent transaction holds locked, automatically assignable when no value was
  requested and otherwise the requested value, which must not be automatically assignable.
  The entry becomes allocated to the owner at the current time; every other entry, in
  particular every entry some owner holds, stays as it was.\<close>
theorem allocate_changes_one_free_entry:
  assumes "table_ok tbl" "allocate to_str parse locked others random now fault pool tbl ot oid req = (Ok v, tbl')"
  shows "\<exists>pre row post. rows tbl = pre @ row # post \<and> row_name row = pool_name pool \<and> row_state row = Free \<and>
    row_id row \<notin> set locked \<and> parse (row_value row) = Ok v \<and>
    (case req of None \<Rightarrow> row_auto row | Some w \<Rightarrow> \<not> row_auto row \<and> row_value row = to_str w) \<and>
    tbl' = tbl\<lparr>rows := pre @ row\<lparr>row_state := Allocated oid (owner_display ot), row_allocated := Some now\<rparr> # post\<rparr>"
  using assms
  by (rule allocate_OkE) (auto simp: allocatable_def split: option.splits intro!: exI)

theorem allocate_changes_one_free_entry_witness:
  "\<exists>pre row post. rows demo_table = pre @ row # post \<and> row_state row = Free"
  using allocate_changes_one_free_entry [OF demo_table_ok demo_allocate] by blast

text \<open>
  C25. A pool never hands out a value twice: starting without entries, through any sequence of fillings,
  allocations, failed allocations and releases of the pool and any changes of other pools, the values that were
  allocated and not released since are pairwise distinct, and the entry of each is not free.  The text of a value
  has to parse back to it.\<close>
theorem allocations_are_distinct:
  assumes "\<And>u. parse (to_str u) = Ok u" "pool_history to_str parse pool held tbl"
  shows "distinct held \<and> (\<forall>v \<in> set held. \<exists>r \<in> set (rows tbl). row_name r = pool_name pool \<and> row_value r = to_str v \<and> row_state r \<noteq> Free)"
  using pool_history_inv [OF assms(2,1)] by (simp add: holds_def)

theorem allocations_are_distinct_witness:
  "\<exists>tbl. pool_history u64_text u64_parse demo_pool [8, 7] tbl \<and> distinct [8, 7 :: u64] \<and> length (rows tbl) = 2"
proof -
  let ?v = "\<lparr>version_nr = 1, timestamp = 0\<rparr>" and ?t0 = "\<lparr>rows = [], next_id = 1\<rparr>"
  let ?t1 = "demo_table2\<lparr>rows := [(demo_row 1 7)\<lparr>row_state := Allocated ''v1'' ''vpc'', row_allocated := Some 5\<rparr>, demo_row 2 8]\<rparr>"
  let ?t2 = "demo_table2\<lparr>rows := [(demo_row 1 7)\<lparr>row_state := Allocated ''v1'' ''vpc'', row_allocated := Some 5\<rparr>,
    (demo_row 2 8)\<lparr>row_state := Allocated ''v2'' ''vpc'', row_allocated := Some 6\<rparr>]\<rparr>"
  have t0: "pool_history u64_text u64_parse demo_pool [] ?t0" by (rule pool_history.start) (simp_all add: table_ok_def pool_has_rows_def)
  have ne: "u64_text 8 \<noteq> u64_text 7"
  proof
    assume "u64_text 8 = u64_text 7"
    then have "u64_parse (u64_text 8) = u64_parse (u64_text 7)" by simp
    then show False by simp
  qed
  have p: "snd (populate u64_text (\<lambda>_. None) ?v demo_pool ?t0 [7, 8] True) = demo_table2"
    using ne by (simp add: populate_def chunks.simps [of _ "[_, _]"] chunks.simps [of _ "[]"] BIND_LIMIT_def insert_row_def demo_table2_def demo_row_def demo_pool_def)
  have "pool_history u64_text u64_parse demo_pool [] demo_table2" using pool_history.filled [OF t0, of "\<lambda>_. None" ?v "[7, 8]" True] p by simp
  moreover have "allocate u64_text u64_parse [] id 0 5 (\<lambda>_. None) demo_pool demo_table2 Vpc ''v1'' None = (Ok 7, ?t1)"
    by (simp add: allocate_def select_row_def candidates_def allocatable_def update_row_def demo_table2_def demo_row_def demo_pool_def Let_def)
  ultimately have "pool_history u64_text u64_parse demo_pool [7] ?t1" by (rule pool_history.allocated)
  moreover have "allocate u64_text u64_parse [] id 0 6 (\<lambda>_. None) demo_pool ?t1 Vpc ''v2'' None = (Ok 8, ?t2)"
    by (simp add: allocate_def select_row_def candidates_def allocatable_def update_row_def demo_table2_def demo_row_def demo_pool_def Let_def)
  ultimately have h: "pool_history u64_text u64_parse demo_pool [8, 7] ?t2" by (rule pool_history.allocated)
  from allocations_are_distinct [OF u64_roundtrip h] show ?thesis using h by (intro exI [of _ ?t2]) simp
qed

text \<open>
  C26. An allocation reports the pool as empty exactly when both statements ran, no entry could be selected, and
  none of the requested kind (automatically assignable or not) was free when the entries were counted.  An
  allocation that fails, for whatever reason, changes nothing itself, with one exception: it leaves an entry
  allocated whose text it cannot parse, and reports that.\<close>
theorem allocate_failure:
  "(fst (allocate to_str parse locked others random now fault pool tbl ot oid req) = Err (ResourcePool Empty) \<longleftrightarrow>
      fault 0 = None \<and> fault 1 = None \<and> candidates (pool_name pool) (req = None) (map_option to_str req) locked tbl = [] \<and>
      \<not> (\<exists>r \<in> set (rows (others tbl)). row_name r = pool_name pool \<and> row_auto r = (req = None) \<and> row_state r = Free)) \<and>
    (case allocate to_str parse locked others random now fault pool tbl ot oid req of
       (Inr v, _) \<Rightarrow> True
     | (Inl e, tbl') \<Rightarrow> if classify_resource_pool_failure e = ParseFailure
         then \<exists>row \<in> set (candidates (pool_name pool) (req = None) (map_option to_str req) locked tbl). \<exists>err. parse (row_value row) = Err err \<and>
           tbl' = update_row (row_id row) (\<lambda>r. r\<lparr>row_state := Allocated oid (owner_display ot), row_allocated := Some now\<rparr>) tbl
         else tbl' = (if fault 0 = None then others tbl else tbl))"
proof
  let ?cs = "candidates (pool_name pool) (req = None) (map_option to_str req) locked tbl"
  let ?sel = "select_row (pool_name pool) (req = None) (map_option to_str req) locked random tbl"
  let ?free = "\<exists>r \<in> set (rows (others tbl)). row_name r = pool_name pool \<and> row_auto r = (req = None) \<and> row_state r = Free"
  have av: "(if req = None then auto_assign_free (stats (others tbl) (pool_name pool))
      else non_auto_assign_free (stats (others tbl) (pool_name pool))) = 0 \<longleftrightarrow> \<not> ?free"
    by (auto simp: stats_def Let_def filter_empty_conv)
  have sel: "?sel = None \<longleftrightarrow> ?cs = []" by (simp add: select_row_def Let_def)
  show "fst (allocate to_str parse locked others random now fault pool tbl ot oid req) = Err (ResourcePool Empty) \<longleftrightarrow>
      fault 0 = None \<and> fault 1 = None \<and> ?cs = [] \<and> \<not> ?free"
    using av sel by (auto simp: allocate_def Let_def split: option.splits sum.splits if_splits)
  have "row \<in> set ?cs" if "?sel = Some row" for row
    using that by (auto simp: select_row_def Let_def split: if_splits)
  then show "case allocate to_str parse locked others random now fault pool tbl ot oid req of
      (Inr v, _) \<Rightarrow> True
    | (Inl e, tbl') \<Rightarrow> if classify_resource_pool_failure e = ParseFailure
        then \<exists>row \<in> set ?cs. \<exists>err. parse (row_value row) = Err err \<and>
          tbl' = update_row (row_id row) (\<lambda>r. r\<lparr>row_state := Allocated oid (owner_display ot), row_allocated := Some now\<rparr>) tbl
        else tbl' = (if fault 0 = None then others tbl else tbl)"
    by (auto simp: allocate_def Let_def classify_database_failure_def split: option.splits sum.splits)
qed

theorem allocate_failure_witness:
  "fst (allocate u64_text u64_parse [] id 0 5 (\<lambda>_. None) demo_pool demo_table Vpc ''v1'' (Some 7)) = Err (ResourcePool Empty)"
  using allocate_failure [of u64_text u64_parse "[]" id 0 5 "\<lambda>_. None" demo_pool demo_table Vpc "''v1''" "Some 7"]
  by (simp add: demo_table_def demo_row_def candidates_def allocatable_def)

text \<open>
  When all statements succeed, no row is locked and every stored value parses, a pool
  with a free automatically assignable entry always yields a value, and a requested value
  that is free and not automatically assignable is always obtained.\<close>
theorem allocate_succeeds:
  assumes "\<And>i. fault i = None" "\<And>r. r \<in> set (rows tbl) \<Longrightarrow> \<exists>v. parse (row_value r) = Ok v"
    and "\<exists>r\<in>set (rows tbl). allocatable (pool_name pool) (req = None) (map_option to_str req) r"
  shows "\<exists>v. fst (allocate to_str parse [] others random now fault pool tbl ot oid req) = Ok v"
proof -
  obtain row where row: "select_row (pool_name pool) (req = None) (map_option to_str req) [] random tbl = Some row"
    using assms(3) select_row_None [of "pool_name pool" "req = None" "map_option to_str req" "[]" random tbl]
    by (metis empty_iff list.set(1) not_None_eq)
  with assms(2) [OF select_row_in(1)] obtain v where "parse (row_value row) = Ok v" by blast
  then show ?thesis by (simp add: allocate_def assms(1) row Let_def)
qed

theorem allocate_succeeds_witness:
  "\<exists>v. fst (allocate u64_text u64_parse [] id 3 5 (\<lambda>_. None) demo_pool demo_table Vpc ''v1'' None) = Ok v"
  by (rule allocate_succeeds) (auto simp: demo_table_def demo_row_def demo_pool_def allocatable_def)

text \<open>
  Releasing what was just allocated restores the table exactly, for values whose
  printed form parses back and a table that holds printed forms.\<close>
theorem release_undoes_allocate:
  assumes "table_ok tbl" "allocate to_str parse locked others random now fault pool tbl ot oid req = (Ok v, tbl')"
    and "\<And>u. parse (to_str u) = Ok u" "\<forall>r\<in>set (rows tbl). \<exists>u. row_value r = to_str u" "fault' 0 = None"
  shows "release to_str fault' pool tbl' v = (Ok (), tbl, [])"
proof -
  let ?free = "\<lambda>r. if row_name r = pool_name pool \<and> row_value r = to_str v
     then r\<lparr>row_allocated := None, row_state := Free\<rparr> else r"
  from assms(1,2) obtain pre row post where a: "rows tbl = pre @ row # post" "parse (row_value row) = Ok v"
      "allocatable (pool_name pool) (req = None) (map_option to_str req) row"
      "tbl' = tbl\<lparr>rows := pre @ row\<lparr>row_state := Allocated oid (owner_display ot), row_allocated := Some now\<rparr> # post\<rparr>"
    by (rule allocate_OkE)
  have val: "row_value row = to_str v"
    by (rule printed_value [OF assms(3) _ a(2)]) (use a(1) assms(4) in auto)
  have name: "row_name row = pool_name pool" and fr: "row_state row = Free" using a(3) by (simp_all add: allocatable_def)
  have al: "row_allocated row = None" using assms(1) a(1) fr by (auto simp: table_ok_def)
  have "row_name r \<noteq> row_name row \<or> row_value r \<noteq> row_value row" if "r \<in> set pre \<union> set post" for r
    using assms(1) that a(1) by (auto simp: table_ok_def image_iff)
  then have "map ?free pre = pre" "map ?free post = post" by (auto intro!: map_idI simp: val name)
  then show ?thesis
    using a(1) by (simp add: release_def assms(5) a(4) val name fr [symmetric] al [symmetric])
qed

theorem release_undoes_allocate_witness:
  "release u64_text (\<lambda>_. None) demo_pool
     (demo_table\<lparr>rows := [(demo_row 1 7)\<lparr>row_state := Allocated ''v1'' ''vpc'', row_allocated := Some 5\<rparr>]\<rparr>) 7 =
   (Ok (), demo_table, [])"
  by (rule release_undoes_allocate [OF demo_table_ok demo_allocate]) (auto simp: demo_table_def demo_row_def)

text \<open>
  The four counters of a pool partition its entries, and a successful allocation moves
  exactly one entry from free to used.\<close>
theorem stats_account:
  assumes "table_ok tbl" "allocate to_str parse locked others random now fault pool tbl ot oid req = (Ok v, tbl')"
  shows "used (stats tbl name) + free (stats tbl name) = length (filter (\<lambda>r. row_name r = name) (rows tbl)) \<and>
    used (stats tbl' (pool_name pool)) = used (stats tbl (pool_name pool)) + 1 \<and>
    free (stats tbl' (pool_name pool)) + 1 = free (stats tbl (pool_name pool)) \<and>
    (name \<noteq> pool_name pool \<longrightarrow> stats tbl' name = stats tbl name)"
  using assms
proof (rule allocate_OkE)
  fix pre row post
  assume a: "rows tbl = pre @ row # post" "allocatable (pool_name pool) (req = None) (map_option to_str req) row"
    "tbl' = tbl\<lparr>rows := pre @ row\<lparr>row_state := Allocated oid (owner_display ot), row_allocated := Some now\<rparr> # post\<rparr>"
  have "length (filter (\<lambda>r. row_name r = name \<and> row_state r \<noteq> Free \<and> row_auto r) rs)
      + length (filter (\<lambda>r. row_name r = name \<and> row_state r \<noteq> Free \<and> \<not> row_auto r) rs)
      + (length (filter (\<lambda>r. row_name r = name \<and> row_state r = Free \<and> row_auto r) rs)
      + length (filter (\<lambda>r. row_name r = name \<and> row_state r = Free \<and> \<not> row_auto r) rs))
      = length (filter (\<lambda>r. row_name r = name) rs)" for rs
    by (induction rs) auto
  then have "used (stats tbl name) + free (stats tbl name) = length (filter (\<lambda>r. row_name r = name) (rows tbl))"
    by (simp add: stats_def Let_def)
  then show ?thesis using a(2) by (auto simp: stats_def Let_def a(1,3) allocatable_def)
qed

theorem stats_account_witness:
  "free (stats (demo_table\<lparr>rows := [(demo_row 1 7)\<lparr>row_state := Allocated ''v1'' ''vpc'', row_allocated := Some 5\<rparr>]\<rparr>)
     (pool_name demo_pool)) + 1 = free (stats demo_table (pool_name demo_pool))"
  using stats_account [OF demo_table_ok demo_allocate] by blast

text \<open>
  An owner that held nothing in the pool finds exactly the value it was just given.\<close>
theorem find_owned_after_allocate:
  assumes "table_ok tbl" "allocate to_str parse locked others random now fault pool tbl ot oid req = (Ok v, tbl')"
    and "\<forall>r\<in>set (rows tbl). row_name r = pool_name pool \<longrightarrow> row_state r \<noteq> Allocated oid (owner_display ot)"
    and "fault' 0 = None"
  shows "find_owned_allocation parse fault' pool tbl' ot oid = Ok (Some v)"
  using assms(1,2)
proof (rule allocate_OkE)
  fix pre row post
  assume a: "rows tbl = pre @ row # post" "allocatable (pool_name pool) (req = None) (map_option to_str req) row"
    "parse (row_value row) = Ok v"
    "tbl' = tbl\<lparr>rows := pre @ row\<lparr>row_state := Allocated oid (owner_display ot), row_allocated := Some now\<rparr> # post\<rparr>"
  let ?own = "\<lambda>r. row_name r = pool_name pool \<and> row_state r = Allocated oid (owner_display ot)"
  have "filter ?own pre = []" "filter ?own post = []" using assms(3) a(1) by (auto simp: filter_empty_conv)
  then have "owned_values (pool_name pool) (Allocated oid (owner_display ot)) tbl' = [row_value row]"
    using a(2) by (simp add: owned_values_def a(4) allocatable_def)
  then show ?thesis by (simp add: find_owned_allocation_def assms(4) a(3))
qed

theorem find_owned_after_allocate_witness:
  "find_owned_allocation u64_parse (\<lambda>_. None) demo_pool
     (demo_table\<lparr>rows := [(demo_row 1 7)\<lparr>row_state := Allocated ''v1'' ''vpc'', row_allocated := Some 5\<rparr>]\<rparr>) Vpc ''v1'' =
   Ok (Some 7)"
  using find_owned_after_allocate [OF demo_table_ok demo_allocate, of "\<lambda>_. None"]
  by (simp add: demo_table_def demo_row_def)

text \<open>
  The text under which owner types are stored parses back to the owner type, and no
  other text is accepted.\<close>
theorem owner_type_text: "owner_from_str s = Ok k \<longleftrightarrow> s = owner_display k"
  by (cases k) (auto simp: owner_from_str_def split: if_splits)

end
