(* ===== verification/Pool_Expansion.thy ===== *)
theory Pool_Expansion
  imports Resource_Pool Rust_Net Ip_Prefix
begin

section \<open>Expanding prefixes and ranges into pool values\<close>

text \<open>
  The functions \<^verbatim>\<open>expand_*\<close> and \<^verbatim>\<open>parse_int_range\<close> of \<^verbatim>\<open>api-db/src/resource_pool.rs\<close>.

  The crate \<^verbatim>\<open>ipnetwork\<close> is the record of operations \<open>ipnetwork_ops\<close>; the locale \<open>ipnetwork\<close>
  states what it documents and \<open>ipnetwork_doc\<close> implements that documentation.  The outer
  \<open>None\<close> of a result is a panic: the arithmetic is on \<^verbatim>\<open>u128\<close> and the release profile keeps
  overflow checks on.
\<close>

definition MAX_POOL_SIZE :: nat where
  "MAX_POOL_SIZE = 250000"

datatype define_error =
    DefInvalidArgument string
  | DefResourcePoolError resource_pool_error
  | TooBig nat nat
  | DefDatabaseError database_error

subsection \<open>The crate ipnetwork\<close>

record ('n4, 'n6) ipnetwork_ops =
  net_parse :: "string \<Rightarrow> (string, 'n4 + 'n6) result"
  net6_parse :: "string \<Rightarrow> (string, 'n6) result"
  v4_network :: "'n4 \<Rightarrow> u32"
  v4_broadcast :: "'n4 \<Rightarrow> u32"
  v6_ip :: "'n6 \<Rightarrow> 128 word"
  v6_prefix :: "'n6 \<Rightarrow> u8"
  v6_network :: "'n6 \<Rightarrow> 128 word"
  v6_broadcast :: "'n6 \<Rightarrow> 128 word"
  v6_new :: "128 word \<Rightarrow> u8 \<Rightarrow> (string, 'n6) result"
  v6_text :: "'n6 \<Rightarrow> string"

subsection \<open>Arithmetic on u128\<close>

definition u128_max :: nat where
  "u128_max = 2 ^ 128 - 1"

definition usize_max :: nat where
  "usize_max = 2 ^ 64 - 1"

definition checked_shl_one :: "nat \<Rightarrow> nat" where
  "checked_shl_one k = (if k < 128 then 2 ^ k else u128_max)"

definition usize_try_from :: "nat \<Rightarrow> nat" where
  "usize_try_from n = (if n \<le> usize_max then n else usize_max)"

definition too_big :: "nat \<Rightarrow> define_error" where
  "too_big n = TooBig (usize_try_from n) MAX_POOL_SIZE"

subsection \<open>Expansions\<close>

definition expand_ip_prefix :: "('n4, 'n6) ipnetwork_ops \<Rightarrow> string \<Rightarrow> (string, u32 list) result" where
  "expand_ip_prefix N network =
     and_then (net_parse N network) (\<lambda>n.
       case n of
         Inl v4 \<Rightarrow> Ok (map of_nat [unat (v4_network N v4)..<unat (v4_broadcast N v4)])
       | Inr _ \<Rightarrow> Err (''invalid IPv4 network: '' @ network))"

definition addr_parse_error :: "string \<Rightarrow> string" where
  "addr_parse_error kind = ''invalid '' @ kind @ '' address syntax''"

definition expand_ip_range :: "string \<Rightarrow> string \<Rightarrow> (string, u32 list) result" where
  "expand_ip_range start_s end_s =
     (case parse_ipv4 start_s of
        None \<Rightarrow> Err (addr_parse_error ''IPv4'')
      | Some start_addr \<Rightarrow>
          (case parse_ipv4 end_s of
             None \<Rightarrow> Err (addr_parse_error ''IPv4'')
           | Some end_addr \<Rightarrow> Ok (map of_nat [unat start_addr..<unat end_addr])))"

definition expand_ipv6_prefix :: "('n4, 'n6) ipnetwork_ops \<Rightarrow> string \<Rightarrow> (define_error, 128 word list) result option" where
  "expand_ipv6_prefix N network =
     (case net_parse N network of
        Err e \<Rightarrow> Some (Err (DefInvalidArgument e))
      | Ok (Inl _) \<Rightarrow> Some (Err (DefInvalidArgument (''Invalid IPv6 network: '' @ network)))
      | Ok (Inr v6) \<Rightarrow>
          (if 128 < unat (v6_prefix N v6) then None
           else
             (let host_bits = 128 - unat (v6_prefix N v6);
                  num_addresses = checked_shl_one host_bits
              in if num_addresses > MAX_POOL_SIZE then Some (Err (too_big num_addresses))
                 else Some (Ok (map of_nat [unat (v6_network N v6)..<Suc (unat (v6_broadcast N v6))])))))"

definition expand_ipv6_range :: "string \<Rightarrow> string \<Rightarrow> (define_error, 128 word list) result" where
  "expand_ipv6_range start_s end_s =
     (case parse_ipv6 start_s of
        None \<Rightarrow> Err (DefInvalidArgument (addr_parse_error ''IPv6''))
      | Some start_addr \<Rightarrow>
          (case parse_ipv6 end_s of
             None \<Rightarrow> Err (DefInvalidArgument (addr_parse_error ''IPv6''))
           | Some end_addr \<Rightarrow>
               (let count = unat end_addr - unat start_addr
                in if count > MAX_POOL_SIZE then Err (too_big count)
                   else Ok (map of_nat [unat start_addr..<unat end_addr]))))"

text \<open>The loop over the sub-prefixes: both arithmetic operations of its body are checked.\<close>

fun step_prefixes ::
  "('n4, 'n6) ipnetwork_ops \<Rightarrow> nat \<Rightarrow> nat \<Rightarrow> u8 \<Rightarrow> nat list \<Rightarrow> (define_error, 'n6 list) result option" where
  "step_prefixes N base stp len [] = Some (Ok [])"
| "step_prefixes N base stp len (i # is) =
     (if u128_max < i * stp \<or> u128_max < base + i * stp then None
      else case v6_new N (of_nat (base + i * stp)) len of
             Err e \<Rightarrow> Some (Err (DefInvalidArgument e))
           | Ok net \<Rightarrow> map_option (map_sum id ((#) net)) (step_prefixes N base stp len is))"

definition expand_ipv6_prefix_delegation ::
  "('n4, 'n6) ipnetwork_ops \<Rightarrow> string \<Rightarrow> u8 \<Rightarrow> (define_error, 'n6 list) result option" where
  "expand_ipv6_prefix_delegation N parent delegate_len =
     (case net_parse N parent of
        Err e \<Rightarrow> Some (Err (DefInvalidArgument e))
      | Ok (Inl _) \<Rightarrow> Some (Err (DefInvalidArgument (''Invalid IPv6 network: '' @ parent)))
      | Ok (Inr parent_net) \<Rightarrow>
          (let parent_len = v6_prefix N parent_net in
           if delegate_len \<le> parent_len then
             Some (Err (DefInvalidArgument (''Delegation prefix length /'' @ show_nat (unat delegate_len)
               @ '' must be longer than parent prefix length /'' @ show_nat (unat parent_len))))
           else if 128 < delegate_len then
             Some (Err (DefInvalidArgument (''Delegation prefix length /'' @ show_nat (unat delegate_len)
               @ '' exceeds maximum /128'')))
           else
             (let sub_bits = unat (delegate_len - parent_len);
                  count = checked_shl_one sub_bits
              in if count > MAX_POOL_SIZE then Some (Err (too_big count))
                 else if 128 \<le> 128 - unat delegate_len then None
                 else step_prefixes N (unat (v6_network N parent_net)) (2 ^ (128 - unat delegate_len)) delegate_len
                        [0..<count])))"

definition expand_ipv6_prefix_range ::
  "('n4, 'n6) ipnetwork_ops \<Rightarrow> string \<Rightarrow> string \<Rightarrow> (define_error, 'n6 list) result option" where
  "expand_ipv6_prefix_range N start_s end_s =
     (case net6_parse N start_s of
        Err e \<Rightarrow> Some (Err (DefInvalidArgument e))
      | Ok start_net \<Rightarrow>
     (case net6_parse N end_s of
        Err e \<Rightarrow> Some (Err (DefInvalidArgument e))
      | Ok end_net \<Rightarrow>
          (let prefix_len = v6_prefix N start_net in
           if v6_prefix N end_net \<noteq> prefix_len then
             Some (Err (DefInvalidArgument (''Range endpoints have different prefix lengths: /''
               @ show_nat (unat prefix_len) @ '' vs /'' @ show_nat (unat (v6_prefix N end_net)))))
           else if v6_ip N start_net \<noteq> v6_network N start_net then
             Some (Err (DefInvalidArgument (''Start prefix '' @ start_s @ '' has host bits set'')))
           else if v6_ip N end_net \<noteq> v6_network N end_net then
             Some (Err (DefInvalidArgument (''End prefix '' @ end_s @ '' has host bits set'')))
           else
             (let start_addr = unat (v6_network N start_net);
                  end_addr = unat (v6_network N end_net)
              in if 128 < unat prefix_len \<or> 128 \<le> 128 - unat prefix_len then None
                 else
                   (let stp = 2 ^ (128 - unat prefix_len) in
                    if end_addr \<le> start_addr then
                      Some (Err (DefInvalidArgument ''End prefix must be greater than start prefix''))
                    else
                      (let count = (end_addr - start_addr) div stp
                       in if count > MAX_POOL_SIZE then Some (Err (too_big count))
                          else step_prefixes N start_addr stp prefix_len [0..<count]))))))"

definition HEX_PRE :: string where
  "HEX_PRE = ''0x''"

definition parse_int_range :: "string \<Rightarrow> (int_error_kind, int) result" where
  "parse_int_range input =
     (let d = to_lowercase input;
          base = (if starts_with d HEX_PRE then 16 else 10);
          p = strip_front [HEX_PRE] d
      in i64_from_str_radix p base)"

definition expand_int_range :: "string \<Rightarrow> string \<Rightarrow> (string, int list) result" where
  "expand_int_range start_s end_s =
     (case parse_int_range start_s of
        Err e \<Rightarrow> Err (int_error_text e)
      | Ok s \<Rightarrow>
          (case parse_int_range end_s of
             Err e \<Rightarrow> Err (int_error_text e)
           | Ok e \<Rightarrow> Ok [s..e - 1]))"

subsection \<open>What the crate documents\<close>

definition v6_width :: "('n4, 'n6) ipnetwork_ops \<Rightarrow> 'n6 \<Rightarrow> nat" where
  "v6_width N n = 128 - unat (v6_prefix N n)"

definition v6_block :: "('n4, 'n6) ipnetwork_ops \<Rightarrow> 'n6 \<Rightarrow> nat set" where
  "v6_block N n = block (unat (v6_ip N n) div 2 ^ v6_width N n) (v6_width N n)"

definition ipnetwork_doc ::
  "(string \<Rightarrow> (string, 32 net_doc + 128 net_doc) result) \<Rightarrow> (string \<Rightarrow> (string, 128 net_doc) result)
    \<Rightarrow> (32 net_doc, 128 net_doc) ipnetwork_ops" where
  "ipnetwork_doc parse parse6 =
     \<lparr>net_parse = parse, net6_parse = parse6,
      v4_network = \<lambda>n. doc_first (doc_addr n) (doc_len n), v4_broadcast = \<lambda>n. doc_last (doc_addr n) (doc_len n),
      v6_ip = doc_addr, v6_prefix = \<lambda>n. of_nat (doc_len n),
      v6_network = \<lambda>n. doc_first (doc_addr n) (doc_len n), v6_broadcast = \<lambda>n. doc_last (doc_addr n) (doc_len n),
      v6_new = \<lambda>a l. if unat l \<le> 128 then Ok (Abs_net_doc (a, unat l)) else Err ''invalid prefix'',
      v6_text = \<lambda>n. ipv6_text (doc_addr n) @ ''/'' @ show_nat (doc_len n)\<rparr>"

definition doc6 :: "128 word \<Rightarrow> nat \<Rightarrow> (32 net_doc, 128 net_doc) ipnetwork_ops" where
  "doc6 a l = ipnetwork_doc (\<lambda>_. Ok (Inr (Abs_net_doc (a, l)))) (\<lambda>_. Ok (Abs_net_doc (a, l)))"

locale ipnetwork =
  fixes N :: "('n4, 'n6) ipnetwork_ops"
  assumes v6_prefix_bound: "unat (v6_prefix N n) \<le> 128"
    and v6_network_value: "unat (v6_network N n) = unat (v6_ip N n) div 2 ^ v6_width N n * 2 ^ v6_width N n"
    and v6_broadcast_value: "unat (v6_broadcast N n) = unat (v6_network N n) + (2 ^ v6_width N n - 1)"
    and v6_new_ok: "unat l \<le> 128 \<Longrightarrow> \<exists>n. v6_new N a l = Ok n \<and> v6_ip N n = a \<and> v6_prefix N n = l"
    and v6_new_err: "128 < unat l \<Longrightarrow> \<exists>e. v6_new N a l = Err e"
begin

lemma step_prefixes_ok:
  assumes "unat len \<le> 128" "\<And>i. i \<in> set is \<Longrightarrow> base + i * stp \<le> u128_max"
  shows "\<exists>ns. step_prefixes N base stp len is = Some (Ok ns) \<and>
    map (v6_ip N) ns = map (\<lambda>i. of_nat (base + i * stp)) is \<and> (\<forall>n\<in>set ns. v6_prefix N n = len)"
  using assms(2)
proof (induction "is")
  case (Cons i "is")
  from v6_new_ok [OF assms(1)] obtain n where n: "v6_new N (of_nat (base + i * stp)) len = Ok n"
    "v6_ip N n = of_nat (base + i * stp)" "v6_prefix N n = len" by blast
  from Cons obtain ns where ns: "step_prefixes N base stp len is = Some (Ok ns)"
    "map (v6_ip N) ns = map (\<lambda>i. of_nat (base + i * stp)) is" "\<forall>n\<in>set ns. v6_prefix N n = len"
    by auto
  have b: "base + i * stp \<le> u128_max" using Cons.prems by simp
  then have "i * stp \<le> u128_max" by simp
  then have "step_prefixes N base stp len (i # is) = Some (Ok (n # ns))"
    using n(1) ns(1) b by (simp del: of_nat_add of_nat_mult)
  then show ?case using n(2,3) ns(2,3) by auto
qed simp

lemma v6_network_in_block: "unat (v6_network N n) + k \<in> v6_block N n \<longleftrightarrow> k < 2 ^ v6_width N n"
  by (simp add: v6_block_def block_def v6_network_value div_pow_eq_iff)

lemma v6_block_bound: "x \<in> v6_block N n \<Longrightarrow> x \<le> u128_max"
proof -
  let ?w = "v6_width N n"
  assume "x \<in> v6_block N n"
  then have x: "x div 2 ^ ?w = unat (v6_ip N n) div 2 ^ ?w" by (simp add: v6_block_def block_def)
  have split: "2 ^ (128 - ?w) * 2 ^ ?w = (2::nat) ^ 128"
    by (simp only: flip: power_add) (simp add: v6_width_def)
  have "unat (v6_ip N n) < 2 ^ (128 - ?w) * 2 ^ ?w" using unsigned_less [of "v6_ip N n"] unfolding split by simp
  then have "x div 2 ^ ?w < 2 ^ (128 - ?w)" unfolding x by (rule less_mult_imp_div_less)
  then have "x < 2 ^ (128 - ?w) * 2 ^ ?w" by (subst (asm) div_less_iff_less_mult) simp_all
  then show ?thesis unfolding split u128_max_def by simp
qed

end

lemma div_eq_offset:
  fixes y m :: nat
  assumes "0 < m"
  shows "y div m = j \<longleftrightarrow> (\<exists>i<m. y = j * m + i)"
proof
  assume "y div m = j"
  then have "y = j * m + y mod m" by (metis div_mult_mod_eq)
  with assms show "\<exists>i<m. y = j * m + i" by (metis mod_less_divisor)
qed (use assms in auto)

lemma block_split:
  assumes "w \<le> v"
  shows "(\<Union>i<2 ^ (v - w). block (j * 2 ^ (v - w) + i) w) = block j v"
proof (rule set_eqI)
  fix x :: nat
  have "x div 2 ^ v = x div 2 ^ w div 2 ^ (v - w)"
    using assms by (metis div_mult2_eq le_add_diff_inverse power_add)
  moreover have "x div 2 ^ w div 2 ^ (v - w) = j \<longleftrightarrow> (\<exists>i<2 ^ (v - w). x div 2 ^ w = j * 2 ^ (v - w) + i)"
    by (rule div_eq_offset) simp
  ultimately have "x \<in> block j v \<longleftrightarrow> (\<exists>i<2 ^ (v - w). x div 2 ^ w = j * 2 ^ (v - w) + i)"
    by (simp add: block_def)
  then show "x \<in> (\<Union>i<2 ^ (v - w). block (j * 2 ^ (v - w) + i) w) \<longleftrightarrow> x \<in> block j v"
    by (auto simp: block_def)
qed

lemma block_disjoint: "i \<noteq> j \<Longrightarrow> block i w \<inter> block j w = {}"
  by (auto simp: block_def)

lemma pow_le_MAX: "2 ^ k \<le> MAX_POOL_SIZE \<longleftrightarrow> k \<le> 17"
proof
  assume "2 ^ k \<le> MAX_POOL_SIZE"
  then have "(2::nat) ^ k < 2 ^ 18" by (simp add: MAX_POOL_SIZE_def)
  then have "k < 18" by (rule power_less_imp_less_exp [rotated]) simp
  then show "k \<le> 17" by simp
next
  assume "k \<le> 17"
  then have "(2::nat) ^ k \<le> 2 ^ 17" by (rule power_increasing) simp
  then show "2 ^ k \<le> MAX_POOL_SIZE" by (simp add: MAX_POOL_SIZE_def)
qed

lemma checked_shl_one_le: "checked_shl_one k \<le> MAX_POOL_SIZE \<longleftrightarrow> k \<le> 17"
  by (simp add: checked_shl_one_def pow_le_MAX) (simp add: u128_max_def MAX_POOL_SIZE_def)

lemma checked_shl_one_eq: "k \<le> 17 \<Longrightarrow> checked_shl_one k = 2 ^ k"
  by (simp add: checked_shl_one_def)

lemma unat_minus_u8: "a \<le> b \<Longrightarrow> unat (b - a) = unat b - unat (a :: u8)"
  by (simp add: unat_sub)

context ipnetwork
begin

lemma delegation_ok:
  assumes "net_parse N parent = Ok (Inr p)" "v6_prefix N p < d" "d \<le> 128" "unat d - unat (v6_prefix N p) \<le> 17"
  shows "\<exists>ns. expand_ipv6_prefix_delegation N parent d = Some (Ok ns) \<and> length ns = 2 ^ (unat d - unat (v6_prefix N p)) \<and>
    (\<forall>i<length ns. unat (v6_ip N (ns ! i)) = unat (v6_network N p) + i * 2 ^ (128 - unat d)) \<and>
    (\<forall>n\<in>set ns. v6_prefix N n = d)"
proof -
  let ?k = "unat d - unat (v6_prefix N p)" and ?w = "128 - unat d" and ?b = "unat (v6_network N p)"
  have d: "unat (v6_prefix N p) < unat d" "unat d \<le> 128"
    using assms(2,3) by (simp_all add: word_less_nat_alt word_le_nat_alt)
  have "?k + ?w = v6_width N p" using d by (simp add: v6_width_def)
  then have pw: "2 ^ ?k * 2 ^ ?w = (2::nat) ^ v6_width N p" by (metis power_add)
  have bound: "?b + i * 2 ^ ?w \<le> u128_max" if "i \<in> set [0..<2 ^ ?k]" for i
  proof -
    have "i * 2 ^ ?w < 2 ^ ?k * 2 ^ ?w" using that by simp
    then show ?thesis unfolding pw by (intro v6_block_bound [of _ p]) (simp add: v6_network_in_block)
  qed
  obtain ns where ns: "step_prefixes N ?b (2 ^ ?w) d [0..<2 ^ ?k] = Some (Ok ns)"
      "map (v6_ip N) ns = map (\<lambda>i. of_nat (?b + i * 2 ^ ?w)) [0..<2 ^ ?k]" "\<forall>n\<in>set ns. v6_prefix N n = d"
    using step_prefixes_ok [of d "[0..<2 ^ ?k]" ?b "2 ^ ?w"] bound d(2) by blast
  have len: "length ns = 2 ^ ?k" using arg_cong [OF ns(2), of length] by simp
  have "unat (v6_ip N (ns ! i)) = ?b + i * 2 ^ ?w" if "i < 2 ^ ?k" for i
  proof -
    have "v6_ip N (ns ! i) = of_nat (?b + i * 2 ^ ?w)"
      using arg_cong [OF ns(2), of "\<lambda>l. l ! i"] that len by simp
    moreover have "?b + i * 2 ^ ?w < 2 ^ LENGTH(128)" using bound [of i] that by (simp add: u128_max_def)
    ultimately show ?thesis by (metis unat_small)
  qed
  moreover have "expand_ipv6_prefix_delegation N parent d = Some (Ok ns)"
  proof -
    have "\<not> d \<le> v6_prefix N p" "\<not> 128 < d" "\<not> 128 \<le> 128 - unat d" using assms(2,3) d by auto
    moreover have "\<not> MAX_POOL_SIZE < 2 ^ ?k" using assms(4) pow_le_MAX [of ?k] by simp
    moreover have "checked_shl_one (unat (d - v6_prefix N p)) = 2 ^ ?k"
      using assms(2,4) by (simp add: unat_minus_u8 checked_shl_one_eq)
    ultimately show ?thesis using ns(1) assms(1) by (simp add: expand_ipv6_prefix_delegation_def Let_def)
  qed
  ultimately show ?thesis using ns(3) len by (intro exI [of _ ns]) simp
qed

lemma delegation_err:
  assumes "net_parse N parent = Ok (Inr p)"
    "unat d \<le> unat (v6_prefix N p) \<or> 128 < unat d \<or> 17 < unat d - unat (v6_prefix N p)"
  shows "\<exists>e. expand_ipv6_prefix_delegation N parent d = Some (Err e)"
proof (cases "d \<le> v6_prefix N p \<or> 128 < d")
  case True
  then show ?thesis using assms(1) by (auto simp: expand_ipv6_prefix_delegation_def Let_def)
next
  case False
  then have "unat (d - v6_prefix N p) = unat d - unat (v6_prefix N p)" by (intro unat_minus_u8) auto
  moreover have "17 < unat d - unat (v6_prefix N p)"
    using assms(2) False by (simp add: word_less_nat_alt word_le_nat_alt)
  ultimately have "MAX_POOL_SIZE < checked_shl_one (unat (d - v6_prefix N p))"
    using checked_shl_one_le [of "unat (d - v6_prefix N p)"] by simp
  then show ?thesis using False assms(1) by (simp add: expand_ipv6_prefix_delegation_def Let_def)
qed

lemma sub_block:
  assumes "unat (v6_prefix N p) \<le> unat d" "unat d \<le> 128" "v6_prefix N n = d"
    "unat (v6_ip N n) = unat (v6_network N p) + i * 2 ^ (128 - unat d)"
  shows "v6_block N n =
    block (unat (v6_ip N p) div 2 ^ v6_width N p * 2 ^ (unat d - unat (v6_prefix N p)) + i) (128 - unat d)"
proof -
  let ?w = "128 - unat d" and ?k = "unat d - unat (v6_prefix N p)"
  have w: "v6_width N p = ?k + ?w" using assms(1,2) by (simp add: v6_width_def)
  have "unat (v6_ip N n) = (unat (v6_ip N p) div 2 ^ v6_width N p * 2 ^ ?k + i) * 2 ^ ?w"
    by (simp add: assms(4) v6_network_value w power_add algebra_simps)
  then show ?thesis using assms(3) by (simp add: v6_block_def v6_width_def)
qed

lemma delegation_tiles:
  assumes "net_parse N parent = Ok (Inr p)" "v6_prefix N p < d" "d \<le> 128" "unat d - unat (v6_prefix N p) \<le> 17"
  shows "\<exists>ns. expand_ipv6_prefix_delegation N parent d = Some (Ok ns) \<and> length ns = 2 ^ (unat d - unat (v6_prefix N p)) \<and>
    (\<forall>n\<in>set ns. v6_prefix N n = d \<and> v6_network N n = v6_ip N n) \<and>
    (\<forall>i<length ns. \<forall>j<length ns. i \<noteq> j \<longrightarrow> v6_block N (ns ! i) \<inter> v6_block N (ns ! j) = {}) \<and>
    (\<Union>n\<in>set ns. v6_block N n) = v6_block N p"
proof -
  let ?k = "unat d - unat (v6_prefix N p)" and ?w = "128 - unat d" and ?P = "unat (v6_ip N p) div 2 ^ v6_width N p"
  from delegation_ok [OF assms] obtain ns where ns: "expand_ipv6_prefix_delegation N parent d = Some (Ok ns)"
      "length ns = 2 ^ ?k" "\<forall>i<length ns. unat (v6_ip N (ns ! i)) = unat (v6_network N p) + i * 2 ^ ?w"
      "\<forall>n\<in>set ns. v6_prefix N n = d" by blast
  have d: "unat (v6_prefix N p) \<le> unat d" "unat d \<le> 128"
    using assms(2,3) by (simp_all add: word_less_nat_alt word_le_nat_alt)
  have blk: "v6_block N (ns ! i) = block (?P * 2 ^ ?k + i) ?w" if "i < length ns" for i
    using sub_block [OF d] ns(3,4) that nth_mem by blast
  have "(\<Union>n\<in>set ns. v6_block N n) = (\<Union>i<2 ^ ?k. block (?P * 2 ^ ?k + i) ?w)"
  proof -
    have "set ns = (!) ns ` {..<2 ^ ?k}" using ns(2) by (metis atLeast_upt list.set_map map_nth)
    then have "(\<Union>n\<in>set ns. v6_block N n) = (\<Union>i<2 ^ ?k. v6_block N (ns ! i))" by simp
    also have "\<dots> = (\<Union>i<2 ^ ?k. block (?P * 2 ^ ?k + i) ?w)" using blk ns(2) by (intro SUP_cong) simp_all
    finally show ?thesis .
  qed
  also have "\<dots> = block ?P (v6_width N p)"
    using block_split [of ?w "v6_width N p" ?P] d by (simp add: v6_width_def)
  finally have union: "(\<Union>n\<in>set ns. v6_block N n) = v6_block N p" by (simp add: v6_block_def)
  have net: "v6_network N n = v6_ip N n" if "n \<in> set ns" for n
  proof -
    from that obtain i where i: "i < length ns" "n = ns ! i" by (auto simp: in_set_conv_nth)
    have "?w \<le> v6_width N p" using d by (simp add: v6_width_def)
    then have "(2::nat) ^ ?w dvd 2 ^ v6_width N p" by (rule le_imp_power_dvd)
    then have "2 ^ ?w dvd unat (v6_network N p)" unfolding v6_network_value by (rule dvd_mult)
    then have "2 ^ ?w dvd unat (v6_ip N n)" using ns(3) i by simp
    then have "unat (v6_network N n) = unat (v6_ip N n)"
      using ns(4) that by (simp add: v6_network_value v6_width_def)
    then show ?thesis by (rule unsigned_word_eqI)
  qed
  have disj: "\<forall>i<length ns. \<forall>j<length ns. i \<noteq> j \<longrightarrow> v6_block N (ns ! i) \<inter> v6_block N (ns ! j) = {}"
  proof (intro allI impI)
    fix i j assume ij: "i < length ns" "j < length ns" "i \<noteq> j"
    show "v6_block N (ns ! i) \<inter> v6_block N (ns ! j) = {}"
      unfolding blk [OF ij(1)] blk [OF ij(2)] by (rule block_disjoint) (use ij(3) in simp)
  qed
  show ?thesis
    by (intro exI [of _ ns] conjI ballI disj union ns(1,2)) (simp_all add: ns(4) net)
qed

lemma v6_prefix_expansion:
  assumes "net_parse N network = Ok (Inr n)"
  shows "expand_ipv6_prefix N network =
    (if 111 \<le> unat (v6_prefix N n)
     then Some (Ok (map of_nat [unat (v6_network N n)..<unat (v6_network N n) + 2 ^ v6_width N n]))
     else Some (Err (too_big (checked_shl_one (v6_width N n)))))"
proof -
  have "Suc (unat (v6_broadcast N n)) = unat (v6_network N n) + 2 ^ v6_width N n"
    by (simp add: v6_broadcast_value)
  moreover have "checked_shl_one (v6_width N n) > MAX_POOL_SIZE \<longleftrightarrow> \<not> 111 \<le> unat (v6_prefix N n)"
    using checked_shl_one_le [of "v6_width N n"] v6_prefix_bound [of n] by (auto simp: v6_width_def)
  ultimately show ?thesis
    using assms v6_prefix_bound [of n] by (simp add: expand_ipv6_prefix_def Let_def v6_width_def)
qed

end

lemma ex_offset: "(\<exists>i<c. y = b + i) \<longleftrightarrow> b \<le> y \<and> y < b + (c :: nat)"
  by (metis le_add1 nat_add_left_cancel_less le_Suc_ex)

lemma blocks_consecutive: "(\<Union>i<c. block (b + i) w) = {b * 2 ^ w..<(b + c) * 2 ^ w}"
proof (rule set_eqI)
  fix x :: nat
  have "x \<in> (\<Union>i<c. block (b + i) w) \<longleftrightarrow> b \<le> x div 2 ^ w \<and> x div 2 ^ w < b + c"
    using ex_offset [of c "x div 2 ^ w" b] by (simp add: block_def Bex_def)
  then show "x \<in> (\<Union>i<c. block (b + i) w) \<longleftrightarrow> x \<in> {b * 2 ^ w..<(b + c) * 2 ^ w}"
    by (simp add: less_eq_div_iff_mult_less_eq div_less_iff_less_mult)
qed

context ipnetwork
begin

lemma aligned_network: "v6_ip N n = v6_network N n \<longleftrightarrow> 2 ^ v6_width N n dvd unat (v6_ip N n)"
proof
  assume "v6_ip N n = v6_network N n"
  then show "2 ^ v6_width N n dvd unat (v6_ip N n)" by (metis v6_network_value dvd_triv_right)
next
  assume "2 ^ v6_width N n dvd unat (v6_ip N n)"
  then have "unat (v6_ip N n) = unat (v6_network N n)" by (simp add: v6_network_value)
  then show "v6_ip N n = v6_network N n" by (rule unsigned_word_eqI)
qed

lemma network_zero: "v6_prefix N n = 0 \<Longrightarrow> v6_network N n = 0"
proof -
  assume "v6_prefix N n = 0"
  then have "v6_width N n = 128" by (simp add: v6_width_def)
  moreover have "unat (v6_ip N n) < 2 ^ 128" using unsigned_less [of "v6_ip N n"] by simp
  ultimately have "unat (v6_network N n) = 0" unfolding v6_network_value by (simp only: div_less mult_zero_left)
  then show ?thesis by (simp add: unat_eq_zero)
qed

lemma prefix_range_ok:
  assumes "net6_parse N s = Ok sn" "net6_parse N e = Ok en" "v6_prefix N en = v6_prefix N sn"
    "v6_ip N sn = v6_network N sn" "v6_ip N en = v6_network N en" "v6_prefix N sn \<noteq> 0" "v6_ip N sn < v6_ip N en"
    "(unat (v6_ip N en) - unat (v6_ip N sn)) div 2 ^ v6_width N sn \<le> MAX_POOL_SIZE"
  shows "\<exists>ns. expand_ipv6_prefix_range N s e = Some (Ok ns) \<and>
    length ns = (unat (v6_ip N en) - unat (v6_ip N sn)) div 2 ^ v6_width N sn \<and>
    (\<forall>n\<in>set ns. v6_prefix N n = v6_prefix N sn) \<and>
    (\<forall>i<length ns. v6_block N (ns ! i) = block (unat (v6_ip N sn) div 2 ^ v6_width N sn + i) (v6_width N sn))"
proof -
  let ?w = "v6_width N sn" and ?a = "unat (v6_ip N sn)" and ?b = "unat (v6_ip N en)"
  let ?c = "(?b - ?a) div 2 ^ ?w"
  have bnd: "?a + i * 2 ^ ?w < 2 ^ 128" if "i < ?c" for i
  proof -
    have "i * 2 ^ ?w \<le> ?c * 2 ^ ?w" using that by simp
    also have "\<dots> \<le> ?b - ?a" by simp
    finally have "?a + i * 2 ^ ?w \<le> ?b" using assms(7) by (simp add: word_less_nat_alt)
    also have "\<dots> < 2 ^ 128" using unsigned_less [of "v6_ip N en"] by simp
    finally show ?thesis .
  qed
  have pb: "unat (v6_prefix N sn) \<le> 128" by (rule v6_prefix_bound)
  have "\<exists>ns. step_prefixes N ?a (2 ^ ?w) (v6_prefix N sn) [0..<?c] = Some (Ok ns) \<and>
    map (v6_ip N) ns = map (\<lambda>i. of_nat (?a + i * 2 ^ ?w)) [0..<?c] \<and> (\<forall>n\<in>set ns. v6_prefix N n = v6_prefix N sn)"
  proof (rule step_prefixes_ok [OF pb])
    fix i assume "i \<in> set [0..<?c]"
    then have "?a + i * 2 ^ ?w < 2 ^ 128" by (intro bnd) simp
    then show "?a + i * 2 ^ ?w \<le> u128_max" by (simp add: u128_max_def)
  qed
  then obtain ns where ns: "step_prefixes N ?a (2 ^ ?w) (v6_prefix N sn) [0..<?c] = Some (Ok ns)"
      "map (v6_ip N) ns = map (\<lambda>i. of_nat (?a + i * 2 ^ ?w)) [0..<?c]" "\<forall>n\<in>set ns. v6_prefix N n = v6_prefix N sn"
    by blast
  have len: "length ns = ?c" using arg_cong [OF ns(2), of length] by simp
  have blk: "v6_block N (ns ! i) = block (?a div 2 ^ ?w + i) ?w" if "i < length ns" for i
  proof -
    have "v6_ip N (ns ! i) = of_nat (?a + i * 2 ^ ?w)"
      using arg_cong [OF ns(2), of "\<lambda>l. l ! i"] that len by simp
    then have "unat (v6_ip N (ns ! i)) = ?a + i * 2 ^ ?w" using bnd [of i] that len by (simp add: unat_small del: of_nat_add)
    moreover have "v6_width N (ns ! i) = ?w" using ns(3) that by (simp add: v6_width_def)
    ultimately show ?thesis by (simp add: v6_block_def add.commute)
  qed
  have p0: "unat (v6_prefix N sn) \<noteq> 0" using assms(6) by (simp add: unat_eq_zero)
  have "\<not> (128 < unat (v6_prefix N sn) \<or> 128 \<le> 128 - unat (v6_prefix N sn))" "\<not> ?b \<le> ?a" "\<not> MAX_POOL_SIZE < ?c"
    using pb p0 assms(7,8) by (auto simp: word_less_nat_alt)
  then have "expand_ipv6_prefix_range N s e = Some (Ok ns)"
    unfolding expand_ipv6_prefix_range_def
    using ns(1) by (simp only: assms(1-3) assms(4,5) [symmetric] sum.case Let_def v6_width_def [symmetric] simp_thms if_True if_False)
  then show ?thesis by (intro exI [of _ ns] conjI len ns(3) allI impI blk)
qed

lemma prefix_range_panics:
  assumes "net6_parse N s = Ok sn" "net6_parse N e = Ok en"
  shows "expand_ipv6_prefix_range N s e = None \<longleftrightarrow>
    v6_prefix N sn = 0 \<and> v6_prefix N en = 0 \<and> v6_ip N sn = 0 \<and> v6_ip N en = 0"
proof (cases "v6_prefix N en = v6_prefix N sn \<and> v6_ip N sn = v6_network N sn \<and> v6_ip N en = v6_network N en")
  case False
  then have "expand_ipv6_prefix_range N s e \<noteq> None"
    by (simp add: expand_ipv6_prefix_range_def Let_def assms)
  moreover have "\<not> (v6_prefix N sn = 0 \<and> v6_prefix N en = 0 \<and> v6_ip N sn = 0 \<and> v6_ip N en = 0)"
    using False network_zero [of sn] network_zero [of en] by metis
  ultimately show ?thesis by blast
next
  case True
  then have al: "v6_prefix N en = v6_prefix N sn" "v6_ip N sn = v6_network N sn" "v6_ip N en = v6_network N en" by simp_all
  have pb: "unat (v6_prefix N sn) \<le> 128" by (rule v6_prefix_bound)
  show ?thesis
  proof (cases "v6_prefix N sn = 0")
    case True
    then show ?thesis using al assms network_zero [of sn] network_zero [of en]
      by (simp add: expand_ipv6_prefix_range_def Let_def)
  next
    case False
    then have p0: "\<not> (128 < unat (v6_prefix N sn) \<or> 128 \<le> 128 - unat (v6_prefix N sn))"
      using pb unat_eq_zero [of "v6_prefix N sn"] by auto
    show ?thesis
    proof (cases "v6_ip N sn < v6_ip N en \<and> (unat (v6_ip N en) - unat (v6_ip N sn)) div 2 ^ v6_width N sn \<le> MAX_POOL_SIZE")
      case True
      then have lt: "v6_ip N sn < v6_ip N en"
        and size: "(unat (v6_ip N en) - unat (v6_ip N sn)) div 2 ^ v6_width N sn \<le> MAX_POOL_SIZE" by simp_all
      obtain ns where "expand_ipv6_prefix_range N s e = Some (Ok ns)"
        using prefix_range_ok [OF assms al False lt size] by (elim exE conjE) (rule that)
      with False show ?thesis by simp
    next
      case n: False
      then have "unat (v6_ip N en) \<le> unat (v6_ip N sn) \<or>
          MAX_POOL_SIZE < (unat (v6_ip N en) - unat (v6_ip N sn)) div 2 ^ (128 - unat (v6_prefix N sn))"
        by (simp only: word_less_nat_alt not_le not_less v6_width_def de_Morgan_conj)
      then have "expand_ipv6_prefix_range N s e \<noteq> None"
        unfolding expand_ipv6_prefix_range_def assms sum.case Let_def al(1) al(2,3) [symmetric] if_not_P [OF p0]
        by (simp only: refl not_True_eq_False if_False option.distinct simp_thms split: if_split) blast
      with False show ?thesis by blast
    qed
  qed
qed

end

lemma ipnetwork_doc_selectors [simp]:
  "net_parse (ipnetwork_doc parse parse6) = parse" "net6_parse (ipnetwork_doc parse parse6) = parse6"
  "v4_network (ipnetwork_doc parse parse6) n4 = doc_first (doc_addr n4) (doc_len n4)"
  "v4_broadcast (ipnetwork_doc parse parse6) n4 = doc_last (doc_addr n4) (doc_len n4)"
  "v6_ip (ipnetwork_doc parse parse6) = doc_addr" "v6_prefix (ipnetwork_doc parse parse6) n = of_nat (doc_len n)"
  "v6_network (ipnetwork_doc parse parse6) n = doc_first (doc_addr n) (doc_len n)"
  "v6_broadcast (ipnetwork_doc parse parse6) n = doc_last (doc_addr n) (doc_len n)"
  "v6_new (ipnetwork_doc parse parse6) a l = (if unat l \<le> 128 then Ok (Abs_net_doc (a, unat l)) else Err ''invalid prefix'')"
  by (simp_all add: ipnetwork_doc_def)

lemma doc_prefix_unat: "unat (of_nat (doc_len (n :: 128 net_doc)) :: u8) = doc_len n"
  using doc_len_bound [of n] by (intro unat_small) simp

interpretation doc_network: ipnetwork "ipnetwork_doc parse parse6" for parse parse6
proof
  fix n :: "128 net_doc" and l :: u8 and a :: "128 word"
  let ?N = "ipnetwork_doc parse parse6"
  have w: "v6_width ?N n = 128 - doc_len n" by (simp add: v6_width_def doc_prefix_unat)
  show "unat (v6_prefix ?N n) \<le> 128" using doc_len_bound [of n] by (simp add: doc_prefix_unat)
  show "unat (v6_network ?N n) = unat (v6_ip ?N n) div 2 ^ v6_width ?N n * 2 ^ v6_width ?N n"
    by (simp add: w unat_doc_first)
  show "unat (v6_broadcast ?N n) = unat (v6_network ?N n) + (2 ^ v6_width ?N n - 1)"
    by (simp add: w unat_doc_first unat_doc_last)
  show "\<exists>n. v6_new ?N a l = Ok n \<and> v6_ip ?N n = a \<and> v6_prefix ?N n = l" if "unat l \<le> 128"
    using that by (intro exI [of _ "Abs_net_doc (a, unat l)"]) simp
  show "\<exists>e. v6_new ?N a l = Err e" if "128 < unat l"
    using that by simp
qed

lemma step_prefixes_length: "step_prefixes N base stp len is = Some (Ok ns) \<Longrightarrow> length ns = length is"
  by (induction N base stp len "is" arbitrary: ns rule: step_prefixes.induct)
    (auto split: if_splits sum.splits simp: map_sum_Inr_iff)

lemma ipv6_range_bound: "expand_ipv6_range s e = Ok vs \<Longrightarrow> length vs \<le> MAX_POOL_SIZE"
  by (auto simp: expand_ipv6_range_def Let_def split: option.splits if_splits)

lemma prefix_range_bound: "expand_ipv6_prefix_range N s e = Some (Ok ns) \<Longrightarrow> length ns \<le> MAX_POOL_SIZE"
  by (auto simp: expand_ipv6_prefix_range_def Let_def split: sum.splits if_splits dest!: step_prefixes_length)

lemma delegation_bound: "expand_ipv6_prefix_delegation N p d = Some (Ok ns) \<Longrightarrow> length ns \<le> MAX_POOL_SIZE"
  by (auto simp: expand_ipv6_prefix_delegation_def Let_def split: sum.splits if_splits dest!: step_prefixes_length)

context ipnetwork
begin

lemma ipv6_prefix_bound: "expand_ipv6_prefix N network = Some (Ok vs) \<Longrightarrow> length vs \<le> MAX_POOL_SIZE"
proof -
  assume r: "expand_ipv6_prefix N network = Some (Ok vs)"
  then obtain n where n: "net_parse N network = Ok (Inr n)"
    by (auto simp: expand_ipv6_prefix_def split: sum.splits)
  show ?thesis
  proof (cases "111 \<le> unat (v6_prefix N n)")
    case True
    with r v6_prefix_expansion [OF n] have "length vs = 2 ^ v6_width N n" by auto
    moreover have "v6_width N n \<le> 17" using True by (simp add: v6_width_def)
    ultimately show ?thesis by (simp add: pow_le_MAX)
  qed (use r v6_prefix_expansion [OF n] in simp)
qed

end

lemma doc6_network: "ipnetwork (doc6 a l)"
  unfolding doc6_def by (rule doc_network.ipnetwork_axioms)

context ipnetwork
begin

lemma prefix_range_tiles:
  assumes "net6_parse N s = Ok sn" "net6_parse N e = Ok en" "expand_ipv6_prefix_range N s e = Some (Ok ns)"
  shows "\<forall>n\<in>set ns. v6_prefix N n = v6_prefix N sn"
    "\<forall>i<length ns. \<forall>j<length ns. i \<noteq> j \<longrightarrow> v6_block N (ns ! i) \<inter> v6_block N (ns ! j) = {}"
    "(\<Union>n\<in>set ns. v6_block N n) = {unat (v6_ip N sn)..<unat (v6_ip N en)}"
proof -
  let ?w = "v6_width N sn" and ?a = "unat (v6_ip N sn)" and ?b = "unat (v6_ip N en)"
  have c: "v6_prefix N en = v6_prefix N sn" "v6_ip N sn = v6_network N sn" "v6_ip N en = v6_network N en"
    "v6_prefix N sn \<noteq> 0" "?a < ?b" "(?b - ?a) div 2 ^ ?w \<le> MAX_POOL_SIZE"
    using assms(3) unfolding expand_ipv6_prefix_range_def assms(1,2) sum.case Let_def v6_width_def
    by (auto split: if_splits)
  then have lt: "v6_ip N sn < v6_ip N en" by (simp add: word_less_nat_alt)
  obtain ns' where ns': "expand_ipv6_prefix_range N s e = Some (Ok ns')" "length ns' = (?b - ?a) div 2 ^ ?w"
      "\<forall>n\<in>set ns'. v6_prefix N n = v6_prefix N sn" "\<forall>i<length ns'. v6_block N (ns' ! i) = block (?a div 2 ^ ?w + i) ?w"
    using prefix_range_ok [OF assms(1,2) c(1-4) lt c(6)] by (elim exE conjE) (rule that)
  have eq: "ns' = ns" using ns'(1) assms(3) by simp
  note blk = ns'(4) [unfolded eq, rule_format]
  show "\<forall>n\<in>set ns. v6_prefix N n = v6_prefix N sn" using ns'(3) unfolding eq .
  show "\<forall>i<length ns. \<forall>j<length ns. i \<noteq> j \<longrightarrow> v6_block N (ns ! i) \<inter> v6_block N (ns ! j) = {}"
  proof (intro allI impI)
    fix i j assume ij: "i < length ns" "j < length ns" "i \<noteq> j"
    show "v6_block N (ns ! i) \<inter> v6_block N (ns ! j) = {}"
      unfolding blk [OF ij(1)] blk [OF ij(2)] by (rule block_disjoint) (use ij(3) in simp)
  qed
  have dvd: "2 ^ ?w dvd ?a" using c(2) by (simp only: aligned_network)
  have "v6_width N en = ?w" using c(1) by (simp add: v6_width_def)
  then have "2 ^ ?w dvd ?b" using c(3) aligned_network [of en] by simp
  with dvd have "2 ^ ?w dvd ?b - ?a" by (rule dvd_diff_nat [rotated])
  then have len: "(?a div 2 ^ ?w + length ns) * 2 ^ ?w = ?b"
    using dvd c(5) unfolding ns'(2) [unfolded eq] add_mult_distrib by simp
  have "set ns = (!) ns ` {..<length ns}" by (metis atLeast_upt list.set_map map_nth)
  then have "(\<Union>n\<in>set ns. v6_block N n) = (\<Union>i<length ns. v6_block N (ns ! i))" by simp
  also have "\<dots> = (\<Union>i<length ns. block (?a div 2 ^ ?w + i) ?w)" by (intro SUP_cong refl) (simp add: blk)
  also have "\<dots> = {?a div 2 ^ ?w * 2 ^ ?w..<(?a div 2 ^ ?w + length ns) * 2 ^ ?w}" by (rule blocks_consecutive)
  also have "\<dots> = {?a..<?b}" unfolding len using dvd by simp
  finally show "(\<Union>n\<in>set ns. v6_block N n) = {?a..<?b}" .
qed

end

text \<open>
  C29. Splitting a parent prefix for delegation never panics.  It is refused exactly when the
  delegated length is not longer than that of the parent, exceeds 128, or would give more
  than 2 to the 17 prefixes; otherwise the result is aligned prefixes of the delegated length,
  pairwise disjoint, that together are the parent.\<close>
theorem ipv6_delegation_tiles_parent:
  assumes "ipnetwork N" "net_parse N parent = Ok (Inr p)"
  shows "if v6_prefix N p < d \<and> d \<le> 128 \<and> unat d - unat (v6_prefix N p) \<le> 17
    then \<exists>ns. expand_ipv6_prefix_delegation N parent d = Some (Ok ns) \<and> length ns = 2 ^ (unat d - unat (v6_prefix N p)) \<and>
      (\<forall>n\<in>set ns. v6_prefix N n = d \<and> v6_network N n = v6_ip N n) \<and>
      (\<forall>i<length ns. \<forall>j<length ns. i \<noteq> j \<longrightarrow> v6_block N (ns ! i) \<inter> v6_block N (ns ! j) = {}) \<and>
      (\<Union>n\<in>set ns. v6_block N n) = v6_block N p
    else \<exists>e. expand_ipv6_prefix_delegation N parent d = Some (Err e)"
proof (cases "v6_prefix N p < d \<and> d \<le> 128 \<and> unat d - unat (v6_prefix N p) \<le> 17")
  case True
  then show ?thesis
    using ipnetwork.delegation_tiles [OF assms(1,2)] by (simp only: if_True simp_thms)
next
  case False
  then have "unat d \<le> unat (v6_prefix N p) \<or> 128 < unat d \<or> 17 < unat d - unat (v6_prefix N p)"
    by (auto simp: word_less_nat_alt word_le_nat_alt)
  from ipnetwork.delegation_err [OF assms this] False show ?thesis by (simp only: if_False)
qed

theorem ipv6_delegation_tiles_parent_witness:
  "\<exists>ns. expand_ipv6_prefix_delegation (doc6 0xFD000000000000000000000000000000 126) ''fd00::/126'' 128 = Some (Ok ns) \<and> length ns = 4"
proof -
  let ?N = "doc6 0xFD000000000000000000000000000000 126"
  have p: "net_parse ?N ''fd00::/126'' = Ok (Inr (Abs_net_doc (0xFD000000000000000000000000000000, 126)))"
    by (simp add: doc6_def)
  have "v6_prefix ?N (Abs_net_doc (0xFD000000000000000000000000000000, 126)) = 126" by (simp add: doc6_def)
  then show ?thesis using ipv6_delegation_tiles_parent [OF doc6_network p, of 128] by (auto simp: word_less_nat_alt)
qed

text \<open>
  C40. Expanding a range of prefixes panics exactly when both ends are the whole address space
  \<^verbatim>\<open>::/0\<close>, whose step does not fit \<^verbatim>\<open>u128\<close>.  When it succeeds the prefixes have the length of
  the ends, are at most 250000, pairwise disjoint, and together are the addresses from the
  start to just below the end.\<close>
theorem ipv6_prefix_range_spec:
  assumes "ipnetwork N" "net6_parse N s = Ok sn" "net6_parse N e = Ok en"
  shows "(expand_ipv6_prefix_range N s e = None \<longleftrightarrow>
      v6_prefix N sn = 0 \<and> v6_prefix N en = 0 \<and> v6_ip N sn = 0 \<and> v6_ip N en = 0) \<and>
    (\<forall>ns. expand_ipv6_prefix_range N s e = Some (Ok ns) \<longrightarrow> length ns \<le> MAX_POOL_SIZE \<and>
      (\<forall>n\<in>set ns. v6_prefix N n = v6_prefix N sn) \<and>
      (\<forall>i<length ns. \<forall>j<length ns. i \<noteq> j \<longrightarrow> v6_block N (ns ! i) \<inter> v6_block N (ns ! j) = {}) \<and>
      (\<Union>n\<in>set ns. v6_block N n) = {unat (v6_ip N sn)..<unat (v6_ip N en)})"
proof (rule conjI [OF ipnetwork.prefix_range_panics [OF assms]], intro allI impI)
  fix ns assume r: "expand_ipv6_prefix_range N s e = Some (Ok ns)"
  from ipnetwork.prefix_range_tiles [OF assms r] prefix_range_bound [OF r]
  show "length ns \<le> MAX_POOL_SIZE \<and> (\<forall>n\<in>set ns. v6_prefix N n = v6_prefix N sn) \<and>
      (\<forall>i<length ns. \<forall>j<length ns. i \<noteq> j \<longrightarrow> v6_block N (ns ! i) \<inter> v6_block N (ns ! j) = {}) \<and>
      (\<Union>n\<in>set ns. v6_block N n) = {unat (v6_ip N sn)..<unat (v6_ip N en)}" by (intro conjI)
qed

theorem ipv6_prefix_range_spec_witness:
  "expand_ipv6_prefix_range (doc6 0 0) ''::/0'' ''::/0'' = None"
  using ipv6_prefix_range_spec [OF doc6_network, of 0 0 "''::/0''" "Abs_net_doc (0, 0)" "''::/0''" "Abs_net_doc (0, 0)"]
  by (simp add: doc6_def)

end
