(* ===== verification/Pool_Definition.thy ===== *)
theory Pool_Definition
  imports Pool_Expansion
begin

section \<open>Definitions of resource pools\<close>

text \<open>
  How the pools of a configuration become entries of the table: \<^verbatim>\<open>define\<close>, \<^verbatim>\<open>define_all_from\<close>
  and \<^verbatim>\<open>reconcile_pool_defs\<close> of \<^verbatim>\<open>api-db/src/resource_pool.rs\<close>, over the types of
  \<^verbatim>\<open>api-model/src/resource_pool/define.rs\<close>.

  The table \<^verbatim>\<open>resource_pool_def\<close> holds the definition itself, its JSON encoding is left out.
  Faults are given per statement; a statement occurs once in a run because the names of a
  \<^verbatim>\<open>HashMap\<close> are distinct, and its iteration order is that of the list.  Notices stand for the
  log lines of \<^verbatim>\<open>reconcile_pool_defs\<close> and \<^verbatim>\<open>define_all_from\<close>; debug lines are left out.
\<close>

subsection \<open>The definition of a pool\<close>

datatype resource_pool_type = PoolIpv4 | PoolIpv6 | PoolIpv6Prefix | PoolInteger

record pool_range =
  range_start :: string
  range_end :: string
  auto_assign :: bool

record resource_pool_def =
  ranges :: "pool_range list"
  prefix :: "string option"
  pool_type :: resource_pool_type
  delegate_prefix_len :: "u8 option"

definition default_true :: bool where
  "default_true = True"

record pool_def_row =
  def_name :: string
  def_definition :: resource_pool_def
  def_seeded_at :: datetime

record pool_db =
  db_pool :: pool_table
  db_defs :: "pool_def_row list"

subsection \<open>Defining a pool\<close>

datatype pool_stmt =
    StmtStoredDefs
  | StmtHasRows string
  | StmtPopulate string nat nat
  | StmtInsertDef string

record define_env =
  env_fault :: "pool_stmt \<Rightarrow> string option"
  env_version :: "string \<Rightarrow> nat \<Rightarrow> config_version"
  env_now :: datetime

type_synonym 'a define_result = "(define_error, 'a) result option"

definition populate_pool ::
  "define_env \<Rightarrow> string \<Rightarrow> nat \<Rightarrow> value_type \<Rightarrow> ('v \<Rightarrow> string) \<Rightarrow> bool \<Rightarrow> (define_error, 'v list) result option \<Rightarrow> pool_table
    \<Rightarrow> ((define_error, unit) result \<times> pool_table) option" where
  "populate_pool env name k vt to_str auto vals tbl =
     (case vals of
        None \<Rightarrow> None
      | Some (Err e) \<Rightarrow> Some (Err e, tbl)
      | Some (Ok vs) \<Rightarrow>
          (let (r, tbl') = populate to_str (\<lambda>i. env_fault env (StmtPopulate name k i)) (env_version env name k)
                             \<lparr>pool_name = name, pool_value_type = vt\<rparr> tbl vs auto
           in Some (map_sum DefDatabaseError id r, tbl')))"

text \<open>The check of the size that the IPv4 and integer branches make after the expansion.\<close>

definition check_size :: "(string, 'v list) result \<Rightarrow> (define_error, 'v list) result option" where
  "check_size r =
     Some (case r of
             Err e \<Rightarrow> Err (DefInvalidArgument e)
           | Ok vs \<Rightarrow> if length vs > MAX_POOL_SIZE then Err (TooBig (length vs) MAX_POOL_SIZE) else Ok vs)"

definition define_by_prefix ::
  "('n4, 'n6) ipnetwork_ops \<Rightarrow> define_env \<Rightarrow> string \<Rightarrow> resource_pool_type \<Rightarrow> string \<Rightarrow> u8 option \<Rightarrow> pool_table
    \<Rightarrow> ((define_error, unit) result \<times> pool_table) option" where
  "define_by_prefix N env name pt pre delegate_len tbl =
     (case pt of
        PoolIpv4 \<Rightarrow> populate_pool env name 0 value_type.Ipv4 ipv4_text True (check_size (expand_ip_prefix N pre)) tbl
      | PoolIpv6 \<Rightarrow> populate_pool env name 0 value_type.Ipv6 ipv6_text True (expand_ipv6_prefix N pre) tbl
      | PoolIpv6Prefix \<Rightarrow>
          (case delegate_len of
             None \<Rightarrow> Some (Err (DefInvalidArgument
                       (''Pool type '' @ [CHR 0x27] @ ''ipv6prefix'' @ [CHR 0x27] @ '' requires ''
                        @ [CHR 0x27] @ ''delegate_prefix_len'' @ [CHR 0x27])), tbl)
           | Some len \<Rightarrow>
               populate_pool env name 0 value_type.Ipv6Prefix (v6_text N) True (expand_ipv6_prefix_delegation N pre len) tbl)
      | PoolInteger \<Rightarrow>
          Some (Err (DefInvalidArgument (''Pool type '' @ [CHR 0x27] @ ''integer'' @ [CHR 0x27] @ '' cannot take a prefix'')), tbl))"

definition define_by_range ::
  "('n4, 'n6) ipnetwork_ops \<Rightarrow> define_env \<Rightarrow> string \<Rightarrow> nat \<Rightarrow> resource_pool_type \<Rightarrow> pool_range \<Rightarrow> pool_table
    \<Rightarrow> ((define_error, unit) result \<times> pool_table) option" where
  "define_by_range N env name k pt r tbl =
     (let s = range_start r; e = range_end r; auto = auto_assign r in
      case pt of
        PoolIpv4 \<Rightarrow> populate_pool env name k value_type.Ipv4 ipv4_text auto (check_size (expand_ip_range s e)) tbl
      | PoolIpv6 \<Rightarrow> populate_pool env name k value_type.Ipv6 ipv6_text auto (Some (expand_ipv6_range s e)) tbl
      | PoolIpv6Prefix \<Rightarrow> populate_pool env name k value_type.Ipv6Prefix (v6_text N) auto (expand_ipv6_prefix_range N s e) tbl
      | PoolInteger \<Rightarrow> populate_pool env name k value_type.Integer show_int auto (check_size (expand_int_range s e)) tbl)"

fun define_ranges ::
  "('n4, 'n6) ipnetwork_ops \<Rightarrow> define_env \<Rightarrow> string \<Rightarrow> resource_pool_type \<Rightarrow> nat \<Rightarrow> pool_range list \<Rightarrow> pool_table
    \<Rightarrow> ((define_error, unit) result \<times> pool_table) option" where
  "define_ranges N env name pt k [] tbl = Some (Ok (), tbl)"
| "define_ranges N env name pt k (r # rs) tbl =
     (case define_by_range N env name k pt r tbl of
        None \<Rightarrow> None
      | Some (Err e, tbl') \<Rightarrow> Some (Err e, tbl')
      | Some (Ok _, tbl') \<Rightarrow> define_ranges N env name pt (Suc k) rs tbl')"

definition define_pool ::
  "('n4, 'n6) ipnetwork_ops \<Rightarrow> define_env \<Rightarrow> string \<Rightarrow> resource_pool_def \<Rightarrow> pool_table
    \<Rightarrow> ((define_error, unit) result \<times> pool_table) option" where
  "define_pool N env name def tbl =
     (if name = ''pkey'' then
        Some (Err (DefInvalidArgument ''pkey pool is deprecated. Use ib_fabrics.default.pkeys as replacement''), tbl)
      else
        (case prefix def of
           None \<Rightarrow>
             if ranges def = [] then
               Some (Err (DefInvalidArgument (''Please provide one of '' @ [CHR 0x27] @ ''prefix'' @ [CHR 0x27]
                 @ '' or '' @ [CHR 0x27] @ ''ranges'' @ [CHR 0x27])), tbl)
             else define_ranges N env name (pool_type def) 0 (ranges def) tbl
         | Some p \<Rightarrow>
             if ranges def \<noteq> [] then
               Some (Err (DefInvalidArgument (''Please provide only one of '' @ [CHR 0x27] @ ''prefix'' @ [CHR 0x27]
                 @ '' or '' @ [CHR 0x27] @ ''ranges'' @ [CHR 0x27])), tbl)
             else define_by_prefix N env name (pool_type def) p (delegate_prefix_len def) tbl))"

subsection \<open>Reconciling definitions\<close>

datatype pool_notice =
    PoolPopulated string
  | SnapshotWithoutRows string resource_pool_def
  | DefinitionChanged string resource_pool_def resource_pool_def
  | Backfilled string
  | Seeded string
  | NoLongerDeclared string

definition stored_def :: "pool_db \<Rightarrow> string \<Rightarrow> resource_pool_def option" where
  "stored_def db name = map_option def_definition (find (\<lambda>r. def_name r = name) (db_defs db))"

definition all_stored_defs :: "define_env \<Rightarrow> pool_db \<Rightarrow> (define_error, (string \<times> resource_pool_def) list) result" where
  "all_stored_defs env db =
     (case env_fault env StmtStoredDefs of
        Some e \<Rightarrow> Err (DefDatabaseError (QueryFailed e))
      | None \<Rightarrow> Ok (map (\<lambda>r. (def_name r, def_definition r)) (db_defs db)))"

definition insert_pool_def :: "define_env \<Rightarrow> string \<Rightarrow> resource_pool_def \<Rightarrow> pool_db \<Rightarrow> (define_error, unit) result \<times> pool_db" where
  "insert_pool_def env name def db =
     (case env_fault env (StmtInsertDef name) of
        Some e \<Rightarrow> (Err (DefDatabaseError (QueryFailed e)), db)
      | None \<Rightarrow>
          if list_ex (\<lambda>r. def_name r = name) (db_defs db) then (Err (DefDatabaseError UniqueViolation), db)
          else (Ok (), db\<lparr>db_defs := db_defs db @ [\<lparr>def_name = name, def_definition = def, def_seeded_at = env_now env\<rparr>]\<rparr>))"

fun define_all_from ::
  "('n4, 'n6) ipnetwork_ops \<Rightarrow> define_env \<Rightarrow> (string \<times> resource_pool_def) list \<Rightarrow> pool_table
    \<Rightarrow> ((define_error, unit) result \<times> pool_table \<times> pool_notice list) option" where
  "define_all_from N env [] tbl = Some (Ok (), tbl, [])"
| "define_all_from N env ((name, def) # pools) tbl =
     (case define_pool N env name def tbl of
        None \<Rightarrow> None
      | Some (Err e, tbl') \<Rightarrow> Some (Err e, tbl', [])
      | Some (Ok _, tbl') \<Rightarrow>
          map_option (\<lambda>(r, t, ns). (r, t, PoolPopulated name # ns)) (define_all_from N env pools tbl'))"

text \<open>One declared pool: the five cases of the comment of \<^verbatim>\<open>reconcile_pool_defs\<close>.\<close>

definition reconcile_one ::
  "('n4, 'n6) ipnetwork_ops \<Rightarrow> define_env \<Rightarrow> (string \<times> resource_pool_def) list \<Rightarrow> string \<Rightarrow> resource_pool_def \<Rightarrow> pool_db
    \<Rightarrow> ((define_error, unit) result \<times> pool_db \<times> pool_notice list) option" where
  "reconcile_one N env stored name def db =
     (case env_fault env (StmtHasRows name) of
        Some e \<Rightarrow> Some (Err (DefDatabaseError (QueryFailed e)), db, [])
      | None \<Rightarrow>
          (let pool_exists = pool_has_rows (db_pool db) name in
           case map_of stored name of
             Some s \<Rightarrow>
               if \<not> pool_exists then Some (Ok (), db, [SnapshotWithoutRows name s])
               else if s = def then Some (Ok (), db, [])
               else Some (Ok (), db, [DefinitionChanged name s def])
           | None \<Rightarrow>
               if pool_exists then
                 (case insert_pool_def env name def db of
                    (Err e, db') \<Rightarrow> Some (Err e, db', [])
                  | (Ok _, db') \<Rightarrow> Some (Ok (), db', [Backfilled name]))
               else
                 (case define_pool N env name def (db_pool db) of
                    None \<Rightarrow> None
                  | Some (Err e, tbl') \<Rightarrow> Some (Err e, db\<lparr>db_pool := tbl'\<rparr>, [])
                  | Some (Ok _, tbl') \<Rightarrow>
                      (case insert_pool_def env name def (db\<lparr>db_pool := tbl'\<rparr>) of
                         (Err e, db') \<Rightarrow> Some (Err e, db', [])
                       | (Ok _, db') \<Rightarrow> Some (Ok (), db', [Seeded name])))))"

fun reconcile_all ::
  "('n4, 'n6) ipnetwork_ops \<Rightarrow> define_env \<Rightarrow> (string \<times> resource_pool_def) list \<Rightarrow> (string \<times> resource_pool_def) list \<Rightarrow> pool_db
    \<Rightarrow> ((define_error, unit) result \<times> pool_db \<times> pool_notice list) option" where
  "reconcile_all N env stored [] db = Some (Ok (), db, [])"
| "reconcile_all N env stored ((name, def) # declared) db =
     (case reconcile_one N env stored name def db of
        None \<Rightarrow> None
      | Some (Err e, db', ns) \<Rightarrow> Some (Err e, db', ns)
      | Some (Ok _, db', ns) \<Rightarrow>
          map_option (\<lambda>(r, d, ms). (r, d, ns @ ms)) (reconcile_all N env stored declared db'))"

definition reconcile_pool_defs ::
  "('n4, 'n6) ipnetwork_ops \<Rightarrow> define_env \<Rightarrow> (string \<times> resource_pool_def) list \<Rightarrow> pool_db
    \<Rightarrow> ((define_error, unit) result \<times> pool_db \<times> pool_notice list) option" where
  "reconcile_pool_defs N env declared db =
     (case all_stored_defs env db of
        Err e \<Rightarrow> Some (Err e, db, [])
      | Ok stored \<Rightarrow>
          (case reconcile_all N env stored declared db of
             None \<Rightarrow> None
           | Some (Err e, db', ns) \<Rightarrow> Some (Err e, db', ns)
           | Some (Ok _, db', ns) \<Rightarrow>
               Some (Ok (), db', ns @ map NoLongerDeclared (filter (\<lambda>n. n \<notin> fst ` set declared) (map fst stored)))))"

text \<open>What a definition may do to the table: append free entries of one pool.\<close>

definition adds_free :: "string \<Rightarrow> nat \<Rightarrow> pool_table \<Rightarrow> pool_table \<Rightarrow> bool" where
  "adds_free name k tbl tbl' \<longleftrightarrow>
     (\<exists>new. rows tbl' = rows tbl @ new \<and> length new \<le> k \<and> (\<forall>r\<in>set new. row_name r = name \<and> row_state r = Free))"

text \<open>What reconciling does to a database: it keeps rows and snapshots, and adds rows only to pools that had neither.\<close>

definition reconciles :: "string set \<Rightarrow> pool_db \<Rightarrow> pool_db \<Rightarrow> bool" where
  "reconciles names db db' \<longleftrightarrow>
     (\<exists>new. rows (db_pool db') = rows (db_pool db) @ new \<and>
        (\<forall>r\<in>set new. row_state r = Free \<and> row_name r \<in> names \<and> stored_def db (row_name r) = None \<and>
           \<not> pool_has_rows (db_pool db) (row_name r))) \<and>
     (\<exists>new. db_defs db' = db_defs db @ new \<and> (\<forall>d\<in>set new. def_name d \<in> names))"

text \<open>A sequence of requests for any value, each with the draw and the time the database takes.\<close>

fun allocate_many ::
  "('v \<Rightarrow> string) \<Rightarrow> (string \<Rightarrow> (string, 'v) result) \<Rightarrow> resource_pool \<Rightarrow> (nat \<times> datetime \<times> owner_kind \<times> string) list \<Rightarrow> pool_table
    \<Rightarrow> (resource_pool_database_error, 'v) result list \<times> pool_table" where
  "allocate_many to_str parse pool [] tbl = ([], tbl)"
| "allocate_many to_str parse pool ((random, now, ot, oid) # reqs) tbl =
     (let (r, tbl1) = allocate to_str parse [] id random now (\<lambda>_. None) pool tbl ot oid None;
          (rs, tbl2) = allocate_many to_str parse pool reqs tbl1
      in (r # rs, tbl2))"

definition free_auto :: "string \<Rightarrow> pool_table \<Rightarrow> string set" where
  "free_auto name tbl = row_value ` {r \<in> set (rows tbl). row_name r = name \<and> row_state r = Free \<and> row_auto r}"

definition i64_parse :: "string \<Rightarrow> (string, int) result" where
  "i64_parse s = map_sum int_error_text id (i64_from_str_radix s 10)"

definition demo_env :: define_env where
  "demo_env = \<lparr>env_fault = \<lambda>_. None, env_version = \<lambda>_ _. \<lparr>version_nr = 1, timestamp = 0\<rparr>, env_now = 0\<rparr>"

definition int_pool_def :: "string \<Rightarrow> string \<Rightarrow> resource_pool_def" where
  "int_pool_def s e =
     \<lparr>ranges = [\<lparr>range_start = s, range_end = e, auto_assign = default_true\<rparr>], prefix = None, pool_type = PoolInteger,
      delegate_prefix_len = None\<rparr>"

definition empty_db :: pool_db where
  "empty_db = \<lparr>db_pool = \<lparr>rows = [], next_id = 1\<rparr>, db_defs = []\<rparr>"

definition all_free_auto :: "string \<Rightarrow> pool_table \<Rightarrow> bool" where
  "all_free_auto name tbl \<longleftrightarrow> (\<forall>r\<in>set (rows tbl). row_name r = name \<longrightarrow> row_state r = Free \<and> row_auto r)"

lemma adds_free_refl [simp, intro]: "adds_free name k tbl tbl"
  by (simp add: adds_free_def)

lemma adds_free_trans: "adds_free name k a b \<Longrightarrow> adds_free name l b c \<Longrightarrow> adds_free name (k + l) a c"
  by (fastforce simp: adds_free_def)

lemma adds_free_mono: "adds_free name k a b \<Longrightarrow> k \<le> l \<Longrightarrow> adds_free name l a b"
  by (fastforce simp: adds_free_def)

lemma insert_row_adds: "adds_free (pool_name pool) 1 tbl (insert_row ver pool auto v tbl)"
  by (auto simp: adds_free_def insert_row_def)

lemma fold_insert_adds: "adds_free (pool_name pool) (length vs) tbl (fold (insert_row ver pool auto) vs tbl)"
proof (induction vs arbitrary: tbl)
  case (Cons v vs)
  from adds_free_trans [OF insert_row_adds Cons.IH] show ?case by simp
qed simp

lemma populate_chunks_adds:
  "adds_free (pool_name pool) (sum_list (map length cs)) tbl (snd (populate_chunks fault i ver pool auto cs tbl))"
proof (induction fault i ver pool auto cs tbl rule: populate_chunks.induct)
  case (2 fault i ver pool auto vals rest tbl)
  show ?case
  proof (cases "fault i")
    case None
    from adds_free_trans [OF fold_insert_adds 2 [OF None]] None show ?thesis by simp
  qed simp
qed simp

lemma populate_adds: "adds_free (pool_name pool) (length vs) tbl (snd (populate to_str fault ver pool tbl vs auto))"
  using populate_chunks_adds [of pool "chunks (BIND_LIMIT div 6) (map to_str vs)" tbl fault 0 ver auto]
  by (simp add: populate_def chunks_length BIND_LIMIT_def)

lemma populate_pool_adds:
  assumes "populate_pool env name k vt to_str auto vals tbl = Some (r, tbl')"
    "\<And>vs. vals = Some (Ok vs) \<Longrightarrow> length vs \<le> MAX_POOL_SIZE"
  shows "adds_free name MAX_POOL_SIZE tbl tbl'"
proof (cases vals)
  case (Some res)
  show ?thesis
  proof (cases res)
    case (Inr vs)
    have "adds_free name (length vs) tbl tbl'"
      using assms(1) Some Inr populate_adds [of "\<lparr>pool_name = name, pool_value_type = vt\<rparr>" vs tbl to_str
          "\<lambda>i. env_fault env (StmtPopulate name k i)" "env_version env name k" auto]
      by (auto simp: populate_pool_def Let_def split: prod.splits)
    then show ?thesis using assms(2) Some Inr by (blast intro: adds_free_mono)
  qed (use assms(1) Some in \<open>simp add: populate_pool_def\<close>)
qed (use assms(1) in \<open>simp add: populate_pool_def\<close>)

lemma check_size_bound: "check_size r = Some (Ok vs) \<Longrightarrow> length vs \<le> MAX_POOL_SIZE"
  by (auto simp: check_size_def split: sum.splits if_splits)

context ipnetwork
begin

lemma define_by_prefix_adds:
  "define_by_prefix N env name pt pre d tbl = Some (r, tbl') \<Longrightarrow> adds_free name MAX_POOL_SIZE tbl tbl'"
  by (auto simp: define_by_prefix_def split: resource_pool_type.splits option.splits
      intro: populate_pool_adds check_size_bound ipv6_prefix_bound delegation_bound)

end

lemma define_by_range_adds:
  "define_by_range N env name k pt rg tbl = Some (r, tbl') \<Longrightarrow> adds_free name MAX_POOL_SIZE tbl tbl'"
  by (auto simp: define_by_range_def Let_def split: resource_pool_type.splits option.splits
      intro: populate_pool_adds check_size_bound ipv6_range_bound prefix_range_bound)

lemma define_ranges_adds:
  "define_ranges N env name pt k rs tbl = Some (r, tbl') \<Longrightarrow> adds_free name (length rs * MAX_POOL_SIZE) tbl tbl'"
proof (induction N env name pt k rs tbl arbitrary: r tbl' rule: define_ranges.induct)
  case (2 N env name pt k rg rs tbl)
  then obtain r1 t1 where d: "define_by_range N env name k pt rg tbl = Some (r1, t1)" by (auto split: option.splits)
  note a = define_by_range_adds [OF d]
  show ?case
  proof (cases r1)
    case (Inr u)
    with 2(2) d have "define_ranges N env name pt (Suc k) rs t1 = Some (r, tbl')" by simp
    from adds_free_trans [OF a 2(1) [OF d refl Inr this]] show ?thesis by simp
  next
    case (Inl e)
    with 2(2) d a show ?thesis by (auto intro: adds_free_mono)
  qed
qed simp

context ipnetwork
begin

lemma define_pool_adds:
  "define_pool N env name def tbl = Some (r, tbl') \<Longrightarrow> adds_free name (max 1 (length (ranges def)) * MAX_POOL_SIZE) tbl tbl'"
  by (auto simp: define_pool_def split: if_splits option.splits
      intro: adds_free_mono [OF define_by_prefix_adds] adds_free_mono [OF define_ranges_adds])

end

lemma pool_has_rows_iff: "pool_has_rows tbl name \<longleftrightarrow> (\<exists>r\<in>set (rows tbl). row_name r = name)"
  by (simp add: pool_has_rows_def list_ex_iff)

lemma adds_free_has_rows: "adds_free name k t t' \<Longrightarrow> n \<noteq> name \<Longrightarrow> pool_has_rows t' n = pool_has_rows t n"
  by (auto simp: adds_free_def pool_has_rows_iff)

lemma stored_def_map_of:
  "map_of (map (\<lambda>r. (def_name r, def_definition r)) (db_defs db)) name = stored_def db name"
proof -
  have "map_of (map (\<lambda>r. (def_name r, def_definition r)) rs) name = map_option def_definition (find (\<lambda>r. def_name r = name) rs)" for rs
    by (induction rs) auto
  then show ?thesis by (simp add: stored_def_def)
qed

lemma list_ex_def_name: "list_ex (\<lambda>r. def_name r = name) (db_defs db) \<longleftrightarrow> stored_def db name \<noteq> None"
  by (auto simp: stored_def_def list_ex_iff find_None_iff)

lemma insert_pool_def_cases:
  assumes "insert_pool_def env name def db = (r, db')"
  shows "db_pool db' = db_pool db"
    "case r of Inl e \<Rightarrow> db' = db | Inr _ \<Rightarrow> stored_def db name = None \<and> (\<exists>t. db_defs db' = db_defs db @ [\<lparr>def_name = name, def_definition = def, def_seeded_at = t\<rparr>])"
  using assms by (auto simp: insert_pool_def_def list_ex_def_name split: option.splits if_splits)

lemma find_app: "find P (xs @ ys) = (case find P xs of None \<Rightarrow> find P ys | Some x \<Rightarrow> Some x)"
  by (induction xs) auto

lemma stored_def_append:
  "db_defs db' = db_defs db @ [\<lparr>def_name = name, def_definition = def, def_seeded_at = t\<rparr>] \<Longrightarrow>
    stored_def db' n = (case stored_def db n of None \<Rightarrow> if n = name then Some def else None | Some s \<Rightarrow> Some s)"
  by (auto simp: stored_def_def find_app split: option.splits)

lemma reconciles_refl: "reconciles names db db"
  by (simp add: reconciles_def)

lemma stored_def_keep:
  assumes "db_defs db' = db_defs db @ new" "\<And>d. d \<in> set new \<Longrightarrow> def_name d \<noteq> n"
  shows "stored_def db' n = stored_def db n"
proof -
  have "find (\<lambda>r. def_name r = n) new = None" using assms(2) by (auto simp: find_None_iff)
  then show ?thesis by (simp add: stored_def_def assms(1) find_app split: option.split)
qed

lemma reconciles_trans:
  assumes "reconciles A db db1" "reconciles B db1 db2" "A \<inter> B = {}"
  shows "reconciles (A \<union> B) db db2"
proof -
  from assms(1) obtain n1 d1 where 1: "rows (db_pool db1) = rows (db_pool db) @ n1"
      "\<And>r. r \<in> set n1 \<Longrightarrow> row_state r = Free \<and> row_name r \<in> A \<and> stored_def db (row_name r) = None \<and> \<not> pool_has_rows (db_pool db) (row_name r)"
      "db_defs db1 = db_defs db @ d1" "\<And>d. d \<in> set d1 \<Longrightarrow> def_name d \<in> A"
    unfolding reconciles_def by blast
  from assms(2) obtain n2 d2 where 2: "rows (db_pool db2) = rows (db_pool db1) @ n2"
      "\<And>r. r \<in> set n2 \<Longrightarrow> row_state r = Free \<and> row_name r \<in> B \<and> stored_def db1 (row_name r) = None \<and> \<not> pool_has_rows (db_pool db1) (row_name r)"
      "db_defs db2 = db_defs db1 @ d2" "\<And>d. d \<in> set d2 \<Longrightarrow> def_name d \<in> B"
    unfolding reconciles_def by blast
  have "stored_def db (row_name r) = None \<and> \<not> pool_has_rows (db_pool db) (row_name r)" if "r \<in> set n2" for r
  proof -
    from 2(2) [OF that] assms(3) have "row_name r \<notin> A" by blast
    then have "stored_def db1 (row_name r) = stored_def db (row_name r)" 
      using 1(4) by (intro stored_def_keep [OF 1(3)]) metis
    then show ?thesis using 2(2) [OF that] 1(1) by (auto simp: pool_has_rows_iff)
  qed
  then show ?thesis unfolding reconciles_def using 1 2
    by (intro conjI exI [of _ "n1 @ n2"] exI [of _ "d1 @ d2"]) (auto simp: ball_Un)
qed

context ipnetwork
begin

lemma reconcile_one_spec:
  assumes "reconcile_one N env stored name def db = Some (r, db', ns)" "map_of stored name = stored_def db name"
  shows "reconciles {name} db db'"
    "r = Ok () \<Longrightarrow> stored_def db' name = (case stored_def db name of None \<Rightarrow> Some def | Some s \<Rightarrow> Some s)"
proof -
  have keep: "reconciles {name} db db' \<and> (r = Ok () \<longrightarrow> stored_def db' name = (case stored_def db name of None \<Rightarrow> Some def | Some s \<Rightarrow> Some s))"
  proof (cases "env_fault env (StmtHasRows name) = None \<and> stored_def db name = None")
    case False
    then show ?thesis using assms
      by (auto simp: reconcile_one_def Let_def reconciles_refl split: option.splits if_splits)
  next
    case None: True
    have ins: "reconciles {name} db db2 \<and> (r2 = Ok () \<longrightarrow> stored_def db2 name = Some def)"
      if i: "insert_pool_def env name def (db\<lparr>db_pool := tbl\<rparr>) = (r2, db2)"
        and a: "adds_free name k (db_pool db) tbl" and e: "pool_has_rows (db_pool db) name \<Longrightarrow> tbl = db_pool db" for r2 db2 tbl k
    proof -
      note c = insert_pool_def_cases [OF i]
      from a obtain new where new: "rows tbl = rows (db_pool db) @ new" "\<forall>r\<in>set new. row_name r = name \<and> row_state r = Free"
        by (auto simp: adds_free_def)
      have "\<forall>r\<in>set new. \<not> pool_has_rows (db_pool db) name" using new e by auto
      then have rows: "\<exists>new. rows (db_pool db2) = rows (db_pool db) @ new \<and>
        (\<forall>r\<in>set new. row_state r = Free \<and> row_name r \<in> {name} \<and> stored_def db (row_name r) = None \<and>
           \<not> pool_has_rows (db_pool db) (row_name r))"
        using new None c(1) by (intro exI [of _ new]) auto
      have "\<exists>new. db_defs db2 = db_defs db @ new \<and> (\<forall>d\<in>set new. def_name d \<in> {name})"
        using c(2) by (auto split: sum.splits)
      moreover have "r2 = Ok () \<longrightarrow> stored_def db2 name = Some def"
        using c(2) stored_def_append [of db2 db name def] None by auto
      ultimately show ?thesis using rows by (simp add: reconciles_def)
    qed
    have add0: "reconciles {name} db (db\<lparr>db_pool := tbl\<rparr>)" if "adds_free name k (db_pool db) tbl" "\<not> pool_has_rows (db_pool db) name" for k tbl
      using that None by (auto simp: reconciles_def adds_free_def)
    show ?thesis
    proof (cases "pool_has_rows (db_pool db) name")
      case True
      obtain r2 db2 where i: "insert_pool_def env name def db = (r2, db2)" by (cases "insert_pool_def env name def db")
      have "reconciles {name} db db2 \<and> (r2 = Ok () \<longrightarrow> stored_def db2 name = Some def)"
        using ins [of "db_pool db" r2 db2 0] i by simp
      then show ?thesis using True None assms i
        by (cases r2) (auto simp: reconcile_one_def Let_def)
    next
      case False
      then obtain r1 tbl where d: "define_pool N env name def (db_pool db) = Some (r1, tbl)"
        using assms None by (auto simp: reconcile_one_def Let_def split: option.splits)
      note a = define_pool_adds [OF d]
      obtain r2 db2 where i: "insert_pool_def env name def (db\<lparr>db_pool := tbl\<rparr>) = (r2, db2)"
        by (cases "insert_pool_def env name def (db\<lparr>db_pool := tbl\<rparr>)")
      have "reconciles {name} db db2 \<and> (r2 = Ok () \<longrightarrow> stored_def db2 name = Some def)"
        using ins [OF i a] False by simp
      then show ?thesis using False None assms i d add0 [OF a]
        by (cases r1; cases r2) (auto simp: reconcile_one_def Let_def)
    qed
  qed
  then show "reconciles {name} db db'" by blast
  show "stored_def db' name = (case stored_def db name of None \<Rightarrow> Some def | Some s \<Rightarrow> Some s)" if "r = Ok ()"
    using keep that by blast
qed

lemma reconcile_all_spec:
  assumes "reconcile_all N env stored declared db = Some (r, db', ns)" "distinct (map fst declared)"
    "\<And>n. n \<in> fst ` set declared \<Longrightarrow> map_of stored n = stored_def db n"
  shows "reconciles (fst ` set declared) db db' \<and>
    (r = Ok () \<longrightarrow> (\<forall>(n, d)\<in>set declared. stored_def db' n = (case stored_def db n of None \<Rightarrow> Some d | Some s \<Rightarrow> Some s)))"
  using assms
proof (induction declared arbitrary: db r db' ns)
  case Nil
  then show ?case by (auto simp: reconciles_refl)
next
  case (Cons nd declared)
  obtain name def where nd: "nd = (name, def)" by (cases nd)
  from Cons.prems(1) nd obtain r1 db1 ns1 where one: "reconcile_one N env stored name def db = Some (r1, db1, ns1)"
    by (auto split: option.splits)
  have "map_of stored name = stored_def db name" using Cons.prems(3) nd by simp
  note spec = reconcile_one_spec [OF one this]
  have fresh: "name \<notin> fst ` set declared" using Cons.prems(2) nd by simp
  have keep1: "stored_def db1 n = stored_def db n" if "n \<noteq> name" for n
    using spec(1) that by (auto simp: reconciles_def intro: stored_def_keep)
  show ?case
  proof (cases r1)
    case (Inl e)
    then have "reconciles {name} db db'" "r \<noteq> Ok ()" using Cons.prems(1) nd one spec(1) by auto
    moreover have "reconciles (fst ` set declared) db' db'" by (rule reconciles_refl)
    ultimately have "reconciles ({name} \<union> fst ` set declared) db db'" using fresh by (intro reconciles_trans) auto
    then show ?thesis using \<open>r \<noteq> Ok ()\<close> nd by simp
  next
    case (Inr u)
    then obtain ns2 where all: "reconcile_all N env stored declared db1 = Some (r, db', ns2)"
      using Cons.prems(1) nd one by auto
    have ih: "reconciles (fst ` set declared) db1 db' \<and>
        (r = Ok () \<longrightarrow> (\<forall>(n, d)\<in>set declared. stored_def db' n = (case stored_def db1 n of None \<Rightarrow> Some d | Some s \<Rightarrow> Some s)))"
    proof (rule Cons.IH [OF all])
      show "distinct (map fst declared)" using Cons.prems(2) by simp
      fix n assume n: "n \<in> fst ` set declared"
      then have "n \<noteq> name" using fresh by blast
      moreover have "map_of stored n = stored_def db n" by (rule Cons.prems(3)) (use n in simp)
      ultimately show "map_of stored n = stored_def db1 n" by (simp add: keep1)
    qed
    then have rest: "reconciles (fst ` set declared) db1 db'" by blast
    have "reconciles ({name} \<union> fst ` set declared) db db'"
      using fresh by (intro reconciles_trans [OF spec(1) rest]) auto
    moreover have "stored_def db' name = stored_def db1 name"
      using rest fresh by (auto simp: reconciles_def intro: stored_def_keep)
    moreover have "stored_def db1 n = stored_def db n" if "(n, d) \<in> set declared" for n d
      using that fresh by (intro keep1) force
    ultimately show ?thesis using ih spec(2) Inr nd by (fastforce split: prod.splits)
  qed
qed

end

lemma reconcile_all_stored:
  assumes "\<And>n. n \<in> fst ` set declared \<Longrightarrow> map_of stored n \<noteq> None" "\<And>n. env_fault env (StmtHasRows n) = None"
  shows "\<exists>ns. reconcile_all N env stored declared db = Some (Ok (), db, ns)"
  using assms(1)
proof (induction declared)
  case (Cons nd declared)
  obtain name def where nd: "nd = (name, def)" by (cases nd)
  from Cons.prems nd obtain s where "map_of stored name = Some s" by fastforce
  then obtain ns where "reconcile_one N env stored name def db = Some (Ok (), db, ns)"
    using assms(2) by (cases "pool_has_rows (db_pool db) name"; cases "s = def") (simp_all add: reconcile_one_def Let_def)
  then show ?case using Cons nd by auto
qed simp

lemma allocate_drained:
  assumes "free_auto (pool_name pool) tbl = {}"
  shows "allocate to_str parse [] id random now (\<lambda>_. None) pool tbl ot oid None = (Err (ResourcePool Empty), tbl)"
proof -
  have none: "\<forall>r\<in>set (rows tbl). row_name r = pool_name pool \<longrightarrow> row_state r = Free \<longrightarrow> \<not> row_auto r"
    using assms by (auto simp: free_auto_def)
  then have "select_row (pool_name pool) True None [] random tbl = None"
    by (auto simp: select_row_None allocatable_def)
  moreover have "auto_assign_free (stats tbl (pool_name pool)) = 0"
    using none by (auto simp: stats_def Let_def filter_empty_conv)
  ultimately show ?thesis by (simp add: allocate_def Let_def)
qed

lemma allocate_takes_free:
  assumes "table_ok tbl" "free_auto (pool_name pool) tbl \<noteq> {}" "\<And>s. s \<in> free_auto (pool_name pool) tbl \<Longrightarrow> \<exists>u. parse s = Ok u"
  obtains s u tbl' where "s \<in> free_auto (pool_name pool) tbl" "parse s = Ok u"
    "allocate to_str parse [] id random now (\<lambda>_. None) pool tbl ot oid None = (Ok u, tbl')"
    "free_auto (pool_name pool) tbl' = free_auto (pool_name pool) tbl - {s}" "table_ok tbl'"
proof -
  let ?name = "pool_name pool"
  from assms(2) obtain r0 where "r0 \<in> set (rows tbl)" "allocatable ?name True None r0"
    by (auto simp: free_auto_def allocatable_def)
  then obtain row where row: "select_row ?name True None [] random tbl = Some row"
    using select_row_None [of ?name True None "[]" random tbl] by fastforce
  note in_row = select_row_in [OF row]
  have free: "row_value row \<in> free_auto ?name tbl" using in_row by (auto simp: free_auto_def allocatable_def)
  then obtain u where u: "parse (row_value row) = Ok u" using assms(3) by blast
  define tbl' where "tbl' = snd (allocate to_str parse [] id random now (\<lambda>_. None) pool tbl ot oid None)"
  have al: "allocate to_str parse [] id random now (\<lambda>_. None) pool tbl ot oid None = (Ok u, tbl')"
    using row u by (simp add: tbl'_def allocate_def Let_def)
  have ok': "table_ok tbl'" unfolding tbl'_def by (rule allocate_ok [OF assms(1)]) (simp add: assms(1))
  from assms(1) al obtain pre row' post where s: "rows tbl = pre @ row' # post" "parse (row_value row') = Ok u"
      "allocatable ?name True None row'"
      "tbl' = tbl\<lparr>rows := pre @ row'\<lparr>row_state := Allocated oid (owner_display ot), row_allocated := Some now\<rparr> # post\<rparr>"
    by (rule allocate_OkE) simp
  have other: "row_value r \<noteq> row_value row'" if "r \<in> set pre \<union> set post" "row_name r = ?name" for r
  proof
    assume v: "row_value r = row_value row'"
    have "(row_name row', row_value row') \<notin> (\<lambda>r. (row_name r, row_value r)) ` (set pre \<union> set post)"
    proof -
      have "distinct (map (\<lambda>r. (row_name r, row_value r)) (pre @ row' # post))"
        using assms(1) unfolding table_ok_def s(1) by (elim conjE)
      then show ?thesis unfolding map_append list.map distinct_append distinct.simps by (simp add: image_Un)
    qed
    moreover have "(row_name row', row_value row') = (row_name r, row_value r)"
      using that(2) v s(3) by (simp add: allocatable_def)
    ultimately show False using that(1) by (metis (no_types, lifting) image_eqI)
  qed
  have "free_auto ?name tbl' = free_auto ?name tbl - {row_value row'}"
    using other s(3) by (auto simp: free_auto_def s(1,4) allocatable_def)
  moreover have "row_value row' \<in> free_auto ?name tbl" using s(3) by (auto simp: free_auto_def s(1) allocatable_def)
  ultimately show ?thesis using that [of "row_value row'" u tbl'] s(2) al ok' by blast
qed

lemma finite_free_auto [simp]: "finite (free_auto name tbl)"
  by (simp add: free_auto_def)

lemma allocate_many_drains:
  assumes "table_ok tbl" "\<And>s. s \<in> free_auto (pool_name pool) tbl \<Longrightarrow> \<exists>u. parse s = Ok u"
  shows "\<exists>ss vs. distinct ss \<and> set ss \<subseteq> free_auto (pool_name pool) tbl \<and> list_all2 (\<lambda>s v. parse s = Ok v) ss vs \<and>
    length ss = min (length reqs) (card (free_auto (pool_name pool) tbl)) \<and>
    fst (allocate_many to_str parse pool reqs tbl) =
      map Ok vs @ replicate (length reqs - card (free_auto (pool_name pool) tbl)) (Err (ResourcePool Empty))"
  using assms
proof (induction reqs arbitrary: tbl)
  case (Cons q reqs)
  let ?F = "free_auto (pool_name pool) tbl"
  obtain random now ot oid where q: "q = (random, now, ot, oid)" by (cases q)
  show ?case
  proof (cases "?F = {}")
    case True
    with Cons.IH [OF Cons.prems(1)] obtain rs where
      "fst (allocate_many to_str parse pool reqs tbl) = replicate (length reqs) (Err (ResourcePool Empty))" by auto
    then show ?thesis using allocate_drained [OF True, of to_str parse random now ot oid] True
      by (auto simp: q split: prod.splits)
  next
    case False
    from Cons.prems(1) False Cons.prems(2) obtain s u tbl' where st: "s \<in> ?F" "parse s = Ok u"
        "allocate to_str parse [] id random now (\<lambda>_. None) pool tbl ot oid None = (Ok u, tbl')"
        "free_auto (pool_name pool) tbl' = ?F - {s}" "table_ok tbl'"
      by (rule allocate_takes_free)
    have card: "card (?F - {s}) = card ?F - 1" "0 < card ?F" using st(1) False by (simp_all add: card_gt_0_iff)
    from Cons.IH [OF st(5)] Cons.prems(2) obtain ss vs where ih: "distinct ss" "set ss \<subseteq> ?F - {s}"
        "list_all2 (\<lambda>s v. parse s = Ok v) ss vs" "length ss = min (length reqs) (card ?F - 1)"
        "fst (allocate_many to_str parse pool reqs tbl') =
           map Ok vs @ replicate (length reqs - (card ?F - 1)) (Err (ResourcePool Empty))"
      unfolding st(4) card(1) by blast
    show ?thesis
      using ih st(1,2) card(2)
      by (intro exI [of _ "s # ss"] exI [of _ "u # vs"]) (auto simp: q st(3) split: prod.splits)
  qed
qed simp

lemma populate_chunks_no_fault:
  "(\<And>i. fault i = None) \<Longrightarrow>
    populate_chunks fault i ver pool auto cs tbl = (Ok (), fold (insert_row ver pool auto) (concat cs) tbl)"
  by (induction cs arbitrary: i tbl) simp_all

lemma populate_no_fault:
  "(\<And>i. fault i = None) \<Longrightarrow>
    populate to_str fault ver pool tbl vs auto = (Ok (), fold (insert_row ver pool auto) (map to_str vs) tbl)"
  by (simp add: populate_def populate_chunks_no_fault concat_chunks BIND_LIMIT_def del: fold_map)

lemma free_auto_iff:
  "t \<in> free_auto name tbl \<longleftrightarrow> (\<exists>r\<in>set (rows tbl). row_value r = t \<and> row_name r = name \<and> row_state r = Free \<and> row_auto r)"
  by (auto simp: free_auto_def)

lemma insert_row_free_auto:
  assumes "all_free_auto (pool_name pool) tbl"
  shows "all_free_auto (pool_name pool) (insert_row ver pool True v tbl)"
    "free_auto (pool_name pool) (insert_row ver pool True v tbl) = insert v (free_auto (pool_name pool) tbl)"
proof -
  show "all_free_auto (pool_name pool) (insert_row ver pool True v tbl)"
    using assms by (auto simp: all_free_auto_def insert_row_def)
  have "t \<in> free_auto (pool_name pool) (insert_row ver pool True v tbl) \<longleftrightarrow> t = v \<or> t \<in> free_auto (pool_name pool) tbl" for t
    using assms by (auto simp: all_free_auto_def free_auto_iff insert_row_def list_ex_iff)
  then show "free_auto (pool_name pool) (insert_row ver pool True v tbl) = insert v (free_auto (pool_name pool) tbl)" by blast
qed

lemma fold_insert_free_auto:
  "all_free_auto (pool_name pool) tbl \<Longrightarrow>
    free_auto (pool_name pool) (fold (insert_row ver pool True) vs tbl) = set vs \<union> free_auto (pool_name pool) tbl"
  by (induction vs arbitrary: tbl) (simp_all add: insert_row_free_auto)

lemma define_int_range:
  assumes "parse_int_range s = Ok lo" "parse_int_range e = Ok hi" "hi - lo \<le> int MAX_POOL_SIZE"
    "\<not> pool_has_rows tbl name" "name \<noteq> ''pkey''" "\<And>st. env_fault env st = None"
  shows "\<exists>tbl'. define_pool N env name (int_pool_def s e) tbl = Some (Ok (), tbl') \<and>
    free_auto name tbl' = show_int ` {lo..<hi} \<and> (table_ok tbl \<longrightarrow> table_ok tbl')"
proof -
  let ?pool = "\<lparr>pool_name = name, pool_value_type = value_type.Integer\<rparr>" and ?ver = "env_version env name 0"
  let ?tbl = "fold (insert_row ?ver ?pool True) (map show_int [lo..hi - 1]) tbl"
  have "length [lo..hi - 1] \<le> MAX_POOL_SIZE" using assms(3) by simp
  then have "check_size (expand_int_range s e) = Some (Ok [lo..hi - 1])"
    by (simp add: check_size_def expand_int_range_def assms(1,2))
  then have d: "define_pool N env name (int_pool_def s e) tbl = Some (Ok (), ?tbl)"
    using assms(5,6)
    by (simp add: define_pool_def int_pool_def_def define_by_range_def Let_def default_true_def populate_pool_def populate_no_fault
      del: fold_map)
  have none: "free_auto name tbl = {}" "all_free_auto name tbl"
    using assms(4) by (auto simp: pool_has_rows_iff free_auto_def all_free_auto_def)
  have "set [lo..hi - 1] = {lo..<hi}" by auto
  then have "free_auto name ?tbl = show_int ` {lo..<hi}"
    using fold_insert_free_auto [of ?pool tbl ?ver "map show_int [lo..hi - 1]"] none by (simp del: fold_map)
  then show ?thesis using d fold_insert_row_ok by blast
qed

lemma i64_parse_show: "- (2 ^ 63) \<le> i \<Longrightarrow> i < 2 ^ 63 \<Longrightarrow> i64_parse (show_int i) = Ok i"
  by (simp add: i64_parse_def i64_from_str_show_int)

lemma parse_int_range_bounds: "parse_int_range s = Ok i \<Longrightarrow> - (2 ^ 63) \<le> i \<and> i < 2 ^ 63"
  unfolding parse_int_range_def Let_def by (rule i64_from_str_radix_range)

text \<open>
  C21. Defining an integer range that was not seeded before and then asking for values, in any
  order of draws and by any owners, hands out the numbers of the range: as many requests as
  the range has numbers succeed with pairwise different numbers of the range, and every
  further request is told that the pool is empty.\<close>
theorem seeded_range_is_handed_out:
  assumes "parse_int_range s = Ok lo" "parse_int_range e = Ok hi" "hi - lo \<le> int MAX_POOL_SIZE" "table_ok tbl"
    "\<not> pool_has_rows tbl name" "name \<noteq> ''pkey''" "\<And>st. env_fault env st = None"
  shows "\<exists>tbl' vs. define_pool N env name (int_pool_def s e) tbl = Some (Ok (), tbl') \<and>
    distinct vs \<and> set vs \<subseteq> {lo..<hi} \<and> length vs = min (length reqs) (nat (hi - lo)) \<and>
    fst (allocate_many show_int i64_parse \<lparr>pool_name = name, pool_value_type = value_type.Integer\<rparr> reqs tbl') =
      map Ok vs @ replicate (length reqs - nat (hi - lo)) (Err (ResourcePool Empty))"
proof -
  let ?pool = "\<lparr>pool_name = name, pool_value_type = value_type.Integer\<rparr>"
  from define_int_range [OF assms(1-3,5-7)] obtain tbl' where
    d: "define_pool N env name (int_pool_def s e) tbl = Some (Ok (), tbl')" and
    f: "free_auto name tbl' = show_int ` {lo..<hi}" and "table_ok tbl \<longrightarrow> table_ok tbl'" by blast
  then have ok: "table_ok tbl'" using assms(4) by simp
  have rng: "- (2 ^ 63) \<le> i \<and> i < 2 ^ 63" if "i \<in> {lo..<hi}" for i
    using that parse_int_range_bounds [OF assms(1)] parse_int_range_bounds [OF assms(2)] by auto
  have rt: "i64_parse (show_int i) = Ok i" if "i \<in> {lo..<hi}" for i
    using rng [OF that] by (intro i64_parse_show) simp_all
  have "inj_on show_int {lo..<hi}" by (rule inj_onI) (metis rt Inr_inject)
  then have card: "card (show_int ` {lo..<hi}) = nat (hi - lo)" by (simp add: card_image)
  have parses: "\<exists>u. i64_parse t = Ok u" if "t \<in> free_auto (pool_name ?pool) tbl'" for t using that rt by (auto simp: f)
  from allocate_many_drains [where pool = ?pool and parse = i64_parse and reqs = reqs and to_str = show_int, OF ok parses] obtain ss vs where
    ss: "distinct ss" "set ss \<subseteq> show_int ` {lo..<hi}" "list_all2 (\<lambda>s v. i64_parse s = Ok v) ss vs"
      "length ss = min (length reqs) (nat (hi - lo))"
      "fst (allocate_many show_int i64_parse ?pool reqs tbl') =
         map Ok vs @ replicate (length reqs - nat (hi - lo)) (Err (ResourcePool Empty))"
    by (auto simp: f card)
  have "ss = map show_int vs \<and> set vs \<subseteq> {lo..<hi}"
    using ss(3,2) rt by (induction rule: list_all2_induct) auto
  then show ?thesis using ss d by (intro exI [of _ tbl'] exI [of _ vs]) (auto simp: distinct_map)
qed

theorem seeded_range_is_handed_out_witness:
  "\<exists>tbl' vs. define_pool (ipnetwork_doc (\<lambda>_. Err []) (\<lambda>_. Err [])) demo_env ''vlan-id'' (int_pool_def ''0x2'' ''5'') (db_pool empty_db) = Some (Ok (), tbl') \<and>
    distinct vs \<and> set vs \<subseteq> {2..<5} \<and> length vs = 1 \<and>
    fst (allocate_many show_int i64_parse \<lparr>pool_name = ''vlan-id'', pool_value_type = value_type.Integer\<rparr> [(0, 0, Vpc, ''v'')] tbl') = map Ok vs"
  using seeded_range_is_handed_out [of "''0x2''" 2 "''5''" 5 "db_pool empty_db" "''vlan-id''" demo_env
      "ipnetwork_doc (\<lambda>_. Err []) (\<lambda>_. Err [])" "[(0, 0, Vpc, ''v'')]"]
  by (simp add: parse_int_range_def to_lowercase_def lower_char_def HEX_PRE_def starts_with_def strip_front.simps
      i64_from_str_radix_def to_digit_def Let_def MAX_POOL_SIZE_def table_ok_def empty_db_def pool_has_rows_def demo_env_def)

lemma demo_define:
  "\<exists>tbl'. define_pool N demo_env ''vlan-id'' (int_pool_def ''1'' ''3'') (db_pool empty_db) = Some (Ok (), tbl')"
  using define_int_range [of "''1''" 1 "''3''" 3 "db_pool empty_db" "''vlan-id''" demo_env N]
  by (auto simp: parse_int_range_def to_lowercase_def lower_char_def HEX_PRE_def starts_with_def strip_front.simps
      i64_from_str_radix_def to_digit_def Let_def MAX_POOL_SIZE_def empty_db_def pool_has_rows_def demo_env_def)

lemma demo_reconcile:
  "\<exists>db' ns. reconcile_pool_defs N demo_env [(''vlan-id'', int_pool_def ''1'' ''3'')] empty_db = Some (Ok (), db', ns)"
proof -
  obtain tbl' where "define_pool N demo_env ''vlan-id'' (int_pool_def ''1'' ''3'') (db_pool empty_db) = Some (Ok (), tbl')"
    using demo_define by blast
  then show ?thesis
    by (simp add: reconcile_pool_defs_def all_stored_defs_def reconcile_one_def insert_pool_def_def Let_def pool_has_rows_def
      empty_db_def demo_env_def)
qed

text \<open>
  C30. Defining a pool only ever appends free entries of that pool, at most 250000 for a prefix
  and for each range, whether it succeeds or not; what is already in the table stays.\<close>
theorem define_only_adds:
  assumes "ipnetwork N" "define_pool N env name def tbl = Some (r, tbl')"
  shows "\<exists>new. rows tbl' = rows tbl @ new \<and> length new \<le> max 1 (length (ranges def)) * 250000 \<and>
    (\<forall>r\<in>set new. row_name r = name \<and> row_state r = Free)"
  using ipnetwork.define_pool_adds [OF assms] by (simp add: adds_free_def MAX_POOL_SIZE_def)

theorem define_only_adds_witness:
  "\<exists>tbl'. define_pool (doc6 0 0) demo_env ''vlan-id'' (int_pool_def ''1'' ''3'') (db_pool empty_db) = Some (Ok (), tbl') \<and>
    length (rows tbl') \<le> 250000"
proof -
  obtain tbl' where d: "define_pool (doc6 0 0) demo_env ''vlan-id'' (int_pool_def ''1'' ''3'') (db_pool empty_db) = Some (Ok (), tbl')"
    using demo_define by blast
  from define_only_adds [OF doc6_network d] d show ?thesis by (auto simp: int_pool_def_def empty_db_def)
qed

text \<open>
  C28. Reconciling the declared pools with the database never removes or changes an entry or
  a stored definition.  It adds entries only to declared pools that had neither a stored
  definition nor entries, in particular a changed declaration is never applied.  When it
  succeeds every declared pool has a stored definition: the one it had before, or else the
  declared one.\<close>
theorem reconcile_seeds_only_new_pools:
  assumes "ipnetwork N" "reconcile_pool_defs N env declared db = Some (r, db', ns)" "distinct (map fst declared)"
  shows "reconciles (fst ` set declared) db db' \<and>
    (r = Ok () \<longrightarrow> (\<forall>(n, d)\<in>set declared. stored_def db' n = (case stored_def db n of None \<Rightarrow> Some d | Some s \<Rightarrow> Some s)))"
proof (cases "all_stored_defs env db")
  case (Inl e)
  then show ?thesis using assms(2) by (auto simp: reconcile_pool_defs_def reconciles_refl)
next
  case (Inr stored)
  then have "map_of stored n = stored_def db n" for n
    by (auto simp: all_stored_defs_def stored_def_map_of split: option.splits)
  moreover from Inr assms(2) obtain ns' where "reconcile_all N env stored declared db = Some (r, db', ns')"
    by (auto simp: reconcile_pool_defs_def split: option.splits sum.splits)
  ultimately show ?thesis using ipnetwork.reconcile_all_spec [OF assms(1) _ assms(3)] by blast
qed

theorem reconcile_seeds_only_new_pools_witness:
  "\<exists>db' ns. reconcile_pool_defs (doc6 0 0) demo_env [(''vlan-id'', int_pool_def ''1'' ''3'')] empty_db = Some (Ok (), db', ns) \<and>
    reconciles {''vlan-id''} empty_db db' \<and> stored_def db' ''vlan-id'' = Some (int_pool_def ''1'' ''3'')"
proof -
  obtain db' ns where r: "reconcile_pool_defs (doc6 0 0) demo_env [(''vlan-id'', int_pool_def ''1'' ''3'')] empty_db = Some (Ok (), db', ns)"
    using demo_reconcile by blast
  have "stored_def empty_db ''vlan-id'' = None" by (simp add: stored_def_def empty_db_def)
  then show ?thesis using reconcile_seeds_only_new_pools [OF doc6_network r] r by auto
qed

text \<open>
  Reconciling is idempotent: after a successful run, running it again on the same
  declarations with no failing statement succeeds and changes nothing.\<close>
theorem reconcile_idempotent:
  assumes "ipnetwork N" "reconcile_pool_defs N env declared db = Some (Ok (), db', ns)" "distinct (map fst declared)"
    and "\<And>st. env_fault env' st = None"
  shows "\<exists>ms. reconcile_pool_defs N env' declared db' = Some (Ok (), db', ms)"
proof -
  obtain stored where st: "all_stored_defs env db = Ok stored" "map_of stored = stored_def db"
    using assms(2) by (auto simp: reconcile_pool_defs_def all_stored_defs_def stored_def_map_of fun_eq_iff split: option.splits sum.splits)
  then obtain ns' where "reconcile_all N env stored declared db = Some (Ok (), db', ns')"
    using assms(2) by (auto simp: reconcile_pool_defs_def split: option.splits sum.splits)
  from ipnetwork.reconcile_all_spec [OF assms(1) this assms(3)] st(2)
  have "\<And>n. n \<in> fst ` set declared \<Longrightarrow> stored_def db' n \<noteq> None" by (force split: option.splits)
  then obtain ms where "reconcile_all N env' (map (\<lambda>r. (def_name r, def_definition r)) (db_defs db')) declared db' = Some (Ok (), db', ms)"
    using reconcile_all_stored [of declared "map (\<lambda>r. (def_name r, def_definition r)) (db_defs db')" env' N db'] assms(4) by (auto simp: stored_def_map_of)
  then show ?thesis by (simp add: reconcile_pool_defs_def all_stored_defs_def assms(4))
qed

theorem reconcile_idempotent_witness:
  "\<exists>db' ns ms. reconcile_pool_defs (doc6 0 0) demo_env [(''vlan-id'', int_pool_def ''1'' ''3'')] empty_db = Some (Ok (), db', ns) \<and>
    reconcile_pool_defs (doc6 0 0) demo_env [(''vlan-id'', int_pool_def ''1'' ''3'')] db' = Some (Ok (), db', ms)"
proof -
  obtain db' ns where r: "reconcile_pool_defs (doc6 0 0) demo_env [(''vlan-id'', int_pool_def ''1'' ''3'')] empty_db = Some (Ok (), db', ns)"
    using demo_reconcile by blast
  have "env_fault demo_env st = None" for st by (simp add: demo_env_def)
  from reconcile_idempotent [OF doc6_network r _ this] r show ?thesis by auto
qed

end
