(* ===== verification/Controller_Queue.thy ===== *)
theory Controller_Queue
  imports Resource_Pool
begin

section \<open>The queue of a state controller\<close>

text \<open>
  The tables behind a state controller: the queue of objects that wait for their state handler
  (\<^verbatim>\<open>queue_objects\<close>, \<^verbatim>\<open>acquire_queued_objects\<close>, \<^verbatim>\<open>delete_queued_objects\<close>) and the table of
  iterations, from \<^verbatim>\<open>state-controller/src/controller/db.rs\<close>, with \<^verbatim>\<open>IterationConfig\<close> and the
  \<^verbatim>\<open>Enqueuer\<close>.

  A queue is the list of its rows, keyed by the object id.  The time of a statement, the rows
  that other transactions hold locked and the statements that fail are arguments; rows with
  equal times are taken in table order.
\<close>

subsection \<open>Configuration\<close>

record iteration_config =
  iteration_time :: duration
  max_object_handling_time :: duration
  max_concurrency :: nat
  processor_dispatch_interval :: duration
  processor_log_interval :: duration
  metric_emission_interval :: duration
  metric_hold_time :: duration

definition from_secs :: "nat \<Rightarrow> duration" where
  "from_secs n = int n * 1000000000"

definition iteration_config_default :: iteration_config where
  "iteration_config_default =
     \<lparr>iteration_time = from_secs 30,
      max_object_handling_time = from_secs (3 * 60),
      max_concurrency = 10,
      processor_dispatch_interval = from_secs 2,
      processor_log_interval = from_secs 60,
      metric_emission_interval = from_secs 60,
      metric_hold_time = from_secs (5 * 60)\<rparr>"

subsection \<open>Queued objects\<close>

record queued_object =
  object_id :: string
  processed_by :: "string option"
  processing_started_at :: datetime

type_synonym queue = "queued_object list"

definition OBJECTS_PER_QUERY :: nat where
  "OBJECTS_PER_QUERY = BIND_LIMIT div 32"

text \<open>One row of \<^verbatim>\<open>INSERT ... ON CONFLICT (object_id) DO NOTHING\<close>, with the number of rows it affects.\<close>

definition insert_queued :: "datetime \<Rightarrow> string \<Rightarrow> nat \<times> queue \<Rightarrow> nat \<times> queue" where
  "insert_queued now oid nq =
     (case nq of (n, q) \<Rightarrow>
        if list_ex (\<lambda>r. object_id r = oid) q then (n, q)
        else (Suc n, q @ [\<lparr>object_id = oid, processed_by = None, processing_started_at = now\<rparr>]))"

fun queue_chunks :: "faults \<Rightarrow> nat \<Rightarrow> datetime \<Rightarrow> string list list \<Rightarrow> nat \<times> queue \<Rightarrow> (database_error, nat) result \<times> queue" where
  "queue_chunks fault i now [] nq = (Ok (fst nq), snd nq)"
| "queue_chunks fault i now (c # cs) nq =
     (case fault i of
        Some e \<Rightarrow> (Err (QueryFailed e), snd nq)
      | None \<Rightarrow> queue_chunks fault (Suc i) now cs (fold (insert_queued now) c nq))"

definition queue_objects :: "faults \<Rightarrow> datetime \<Rightarrow> string list \<Rightarrow> queue \<Rightarrow> (database_error, nat) result \<times> queue" where
  "queue_objects fault now queued_objects q =
     queue_chunks fault 0 now (chunks OBJECTS_PER_QUERY (sort queued_objects)) (0, q)"

definition dequeuable :: "datetime \<Rightarrow> duration \<Rightarrow> queued_object \<Rightarrow> bool" where
  "dequeuable now max_outdated r \<longleftrightarrow> processed_by r = None \<or> processing_started_at r + max_outdated < now"

definition dequeued_ids :: "datetime \<Rightarrow> duration \<Rightarrow> string list \<Rightarrow> nat \<Rightarrow> queue \<Rightarrow> string list" where
  "dequeued_ids now max_outdated locked count q =
     map object_id (take count (sort_key processing_started_at
       (filter (\<lambda>r. dequeuable now max_outdated r \<and> object_id r \<notin> set locked) q)))"

definition claim :: "string \<Rightarrow> datetime \<Rightarrow> string list \<Rightarrow> queued_object \<Rightarrow> queued_object" where
  "claim processor now ids r =
     (if object_id r \<in> set ids then r\<lparr>processed_by := Some processor, processing_started_at := now\<rparr> else r)"

definition acquire_queued_objects ::
  "faults \<Rightarrow> datetime \<Rightarrow> string list \<Rightarrow> nat \<Rightarrow> string \<Rightarrow> duration \<Rightarrow> queue
    \<Rightarrow> (database_error, queued_object list) result \<times> queue" where
  "acquire_queued_objects fault now locked count processor max_outdated q =
     (case fault 0 of
        Some e \<Rightarrow> (Err (QueryFailed e), q)
      | None \<Rightarrow>
          (let ids = dequeued_ids now max_outdated locked count q;
               q' = map (claim processor now ids) q
           in (Ok (filter (\<lambda>r. object_id r \<in> set ids) q'), q')))"

fun delete_chunks :: "faults \<Rightarrow> nat \<Rightarrow> string \<Rightarrow> string list list \<Rightarrow> nat \<times> queue \<Rightarrow> (database_error, nat) result \<times> queue" where
  "delete_chunks fault i processor [] nq = (Ok (fst nq), snd nq)"
| "delete_chunks fault i processor (c # cs) nq =
     (case fault i of
        Some e \<Rightarrow> (Err (QueryFailed e), snd nq)
      | None \<Rightarrow>
          (let doomed = (\<lambda>r. object_id r \<in> set c \<and> processed_by r = Some processor);
               q' = filter (\<lambda>r. \<not> doomed r) (snd nq)
           in delete_chunks fault (Suc i) processor cs (fst nq + length (filter doomed (snd nq)), q')))"

definition delete_queued_objects ::
  "faults \<Rightarrow> string list \<Rightarrow> string \<Rightarrow> queue \<Rightarrow> (database_error, nat) result \<times> queue" where
  "delete_queued_objects fault object_ids processor q =
     delete_chunks fault 0 processor (chunks OBJECTS_PER_QUERY object_ids) (0, q)"

text \<open>The \<^verbatim>\<open>Enqueuer\<close>: whether the object was not queued before.\<close>

definition enqueue_object :: "faults \<Rightarrow> datetime \<Rightarrow> string \<Rightarrow> queue \<Rightarrow> (database_error, bool) result \<times> queue" where
  "enqueue_object fault now oid q =
     (let (r, q') = queue_objects fault now [oid] q in (map_sum id (\<lambda>n. n = 1) r, q'))"

subsection \<open>Iterations\<close>

record controller_iteration =
  iteration_id :: int
  started_at :: datetime

record iteration_table =
  iterations :: "controller_iteration list"
  next_iteration_id :: int

definition create_iteration :: "datetime \<Rightarrow> iteration_table \<Rightarrow> controller_iteration \<times> iteration_table" where
  "create_iteration now t =
     (let it = \<lparr>iteration_id = next_iteration_id t, started_at = now\<rparr>
      in (it, t\<lparr>iterations := iterations t @ [it], next_iteration_id := next_iteration_id t + 1\<rparr>))"

definition NUM_RETAINED :: u64 where
  "NUM_RETAINED = 10"

definition saturating_sub :: "u64 \<Rightarrow> u64 \<Rightarrow> u64" where
  "saturating_sub a b = (if a < b then 0 else a - b)"

text \<open>The casts are those of the source: the id is an \<^verbatim>\<open>i64\<close>, the bound is computed on \<^verbatim>\<open>u64\<close>.\<close>

definition last_retained :: "int \<Rightarrow> int" where
  "last_retained current = sint (saturating_sub (word_of_int current) NUM_RETAINED + 1)"

definition delete_old_iterations :: "int \<Rightarrow> iteration_table \<Rightarrow> iteration_table" where
  "delete_old_iterations current t = t\<lparr>iterations := filter (\<lambda>it. \<not> iteration_id it < last_retained current) (iterations t)\<rparr>"

subsection \<open>What the queue guarantees\<close>

definition queue_ok :: "queue \<Rightarrow> bool" where
  "queue_ok q \<longleftrightarrow> distinct (map object_id q)"

definition owns :: "string \<Rightarrow> string \<Rightarrow> datetime \<Rightarrow> queue \<Rightarrow> bool" where
  "owns processor oid since q \<longleftrightarrow>
     \<lparr>object_id = oid, processed_by = Some processor, processing_started_at = since\<rparr> \<in> set q"

lemma queue_ok_key:
  assumes "queue_ok q" "r \<in> set q" "r' \<in> set q" "object_id r = object_id r'"
  shows "r = r'"
  using assms by (auto simp: queue_ok_def distinct_map dest: inj_onD)

lemma owns_unique: "queue_ok q \<Longrightarrow> owns p oid s q \<Longrightarrow> owns p' oid s' q \<Longrightarrow> p = p' \<and> s = s'"
  unfolding owns_def by (drule (2) queue_ok_key) simp_all

lemma insert_queued_ok:
  assumes "queue_ok (snd nq)"
  shows "queue_ok (snd (insert_queued now oid nq))" "set (snd nq) \<subseteq> set (snd (insert_queued now oid nq))"
    "object_id ` set (snd (insert_queued now oid nq)) = insert oid (object_id ` set (snd nq))"
  using assms by (auto simp: insert_queued_def queue_ok_def list_ex_iff image_iff split: prod.splits)

lemma fold_insert_queued:
  assumes "queue_ok (snd nq)"
  shows "queue_ok (snd (fold (insert_queued now) ids nq))" "set (snd nq) \<subseteq> set (snd (fold (insert_queued now) ids nq))"
    "object_id ` set (snd (fold (insert_queued now) ids nq)) = set ids \<union> object_id ` set (snd nq)"
  using assms
proof (induction ids arbitrary: nq)
  case (Cons i ids)
  { case 1 then show ?case using Cons.IH(1) insert_queued_ok(1) by simp }
  { case 2 then show ?case using Cons.IH(2) [OF insert_queued_ok(1)] insert_queued_ok(2) [of nq] by fastforce }
  { case 3 then show ?case using Cons.IH(3) [OF insert_queued_ok(1)] by (simp add: insert_queued_ok(3)) }
qed simp_all

lemma queue_chunks_ok:
  "queue_ok (snd nq) \<Longrightarrow> queue_ok (snd (queue_chunks fault i now cs nq)) \<and> set (snd nq) \<subseteq> set (snd (queue_chunks fault i now cs nq))"
proof (induction fault i now cs nq rule: queue_chunks.induct)
  case (2 fault i now c cs nq)
  show ?case
  proof (cases "fault i")
    case None
    then show ?thesis using 2(1) fold_insert_queued(1,2) [OF 2(2), of now c] by fastforce
  qed (use 2(2) in simp)
qed simp

lemma queue_chunks_Ok:
  "queue_chunks fault i now cs nq = (Ok n, q') \<Longrightarrow> (n, q') = fold (insert_queued now) (concat cs) nq"
  by (induction fault i now cs nq rule: queue_chunks.induct) (auto split: option.splits)

lemma queue_chunks_no_fault:
  "(\<And>i. fault i = None) \<Longrightarrow> \<exists>n q'. queue_chunks fault i now cs nq = (Ok n, q')"
  by (induction cs arbitrary: i nq) simp_all

lemma delete_chunks_Ok:
  "delete_chunks fault i pid cs nq = (Ok n, q') \<Longrightarrow>
    q' = filter (\<lambda>r. \<not> (object_id r \<in> set (concat cs) \<and> processed_by r = Some pid)) (snd nq)"
proof (induction fault i pid cs nq arbitrary: n q' rule: delete_chunks.induct)
  case (2 fault i pid c cs nq)
  then have f: "fault i = None" by (auto split: option.splits)
  let ?doomed = "\<lambda>r. object_id r \<in> set c \<and> processed_by r = Some pid"
  have "delete_chunks fault (Suc i) pid cs (fst nq + length (filter ?doomed (snd nq)), filter (\<lambda>r. \<not> ?doomed r) (snd nq)) = (Ok n, q')"
    using "2.prems" f by (simp add: Let_def)
  from "2.IH" [OF f refl refl this] show ?case by (simp only: snd_conv filter_filter) (rule filter_cong, auto)
qed auto

lemma delete_chunks_no_fault:
  "(\<And>i. fault i = None) \<Longrightarrow> \<exists>n q'. delete_chunks fault i pid cs nq = (Ok n, q')"
  by (induction cs arbitrary: i nq) (simp_all add: Let_def)

lemma OBJECTS_PER_QUERY_pos: "0 < OBJECTS_PER_QUERY"
  by (simp add: OBJECTS_PER_QUERY_def BIND_LIMIT_def)

lemma queue_objects_ok:
  assumes "queue_ok q"
  shows "queue_ok (snd (queue_objects fault now ids q))" "set q \<subseteq> set (snd (queue_objects fault now ids q))"
  using queue_chunks_ok [of "(0, q)"] assms by (auto simp: queue_objects_def)

lemma dequeued_ids_in: "oid \<in> set (dequeued_ids now mo locked count q) \<Longrightarrow>
    oid \<notin> set locked \<and> (\<exists>r\<in>set q. object_id r = oid \<and> dequeuable now mo r)"
  by (auto simp: dequeued_ids_def dest!: in_set_takeD)

lemma dequeued_ids_distinct: "queue_ok q \<Longrightarrow> distinct (dequeued_ids now mo locked count q)"
proof -
  assume "queue_ok q"
  then have "distinct (map object_id (filter (\<lambda>r. dequeuable now mo r \<and> object_id r \<notin> set locked) q))"
    by (simp add: queue_ok_def distinct_map_filter)
  then have "distinct (map object_id (sort_key processing_started_at (filter (\<lambda>r. dequeuable now mo r \<and> object_id r \<notin> set locked) q)))"
    by (simp add: distinct_map)
  then show ?thesis unfolding dequeued_ids_def take_map [symmetric] by (rule distinct_take)
qed

lemma object_id_claim [simp]: "object_id (claim p now ids r) = object_id r"
  by (simp add: claim_def)

lemma acquire_ok: "queue_ok q \<Longrightarrow> queue_ok (snd (acquire_queued_objects fault now locked n p mo q))"
  by (auto simp: acquire_queued_objects_def queue_ok_def Let_def comp_def split: option.split)

lemma acquire_ids:
  assumes "acquire_queued_objects fault now locked n p mo q = (Ok rs, q')"
  shows "object_id ` set rs = set (dequeued_ids now mo locked n q)" "q' = map (claim p now (dequeued_ids now mo locked n q)) q"
proof -
  let ?ids = "dequeued_ids now mo locked n q"
  have r: "rs = filter (\<lambda>r. object_id r \<in> set ?ids) q'" and q': "q' = map (claim p now ?ids) q"
    using assms by (auto simp: acquire_queued_objects_def Let_def split: option.splits)
  have "object_id ` set q' = object_id ` set q" unfolding q' by (simp add: image_image)
  moreover have "set ?ids \<subseteq> object_id ` set q" by (auto dest!: dequeued_ids_in)
  ultimately show "object_id ` set rs = set ?ids" unfolding r by auto
  show "q' = map (claim p now ?ids) q" by (rule q')
qed

lemma queue_objects_Ok:
  "queue_objects fault now ids q = (Ok n, q') \<Longrightarrow> q' = snd (fold (insert_queued now) (sort ids) (0, q))"
  unfolding queue_objects_def by (drule queue_chunks_Ok) (metis OBJECTS_PER_QUERY_pos concat_chunks snd_conv)

lemma delete_queued_objects_Ok:
  "delete_queued_objects fault ids pid q = (Ok n, q') \<Longrightarrow>
    q' = filter (\<lambda>r. \<not> (object_id r \<in> set ids \<and> processed_by r = Some pid)) q"
  unfolding delete_queued_objects_def by (drule delete_chunks_Ok) (simp add: concat_chunks OBJECTS_PER_QUERY_pos)

lemma insert_queued_new:
  "r \<in> set (snd (insert_queued now oid nq)) \<Longrightarrow> r \<in> set (snd nq) \<or> r = \<lparr>object_id = oid, processed_by = None, processing_started_at = now\<rparr>"
  by (auto simp: insert_queued_def split: prod.splits if_splits)

lemma fold_insert_queued_new:
  "r \<in> set (snd (fold (insert_queued now) ids nq)) \<Longrightarrow>
    r \<in> set (snd nq) \<or> (\<exists>oid\<in>set ids. r = \<lparr>object_id = oid, processed_by = None, processing_started_at = now\<rparr>)"
proof (induction ids arbitrary: nq)
  case (Cons i ids)
  show ?case using Cons.IH [OF Cons.prems [simplified fold_Cons comp_apply]] insert_queued_new by fastforce
qed simp

lemma fold_insert_queued_keeps: "set (snd nq) \<subseteq> set (snd (fold (insert_queued now) ids nq))"
proof (induction ids arbitrary: nq)
  case (Cons i ids)
  have "set (snd nq) \<subseteq> set (snd (insert_queued now i nq))" by (auto simp: insert_queued_def split: prod.splits)
  then show ?case using Cons.IH [of "insert_queued now i nq"] by auto
qed simp

lemma chunks_single: "chunks OBJECTS_PER_QUERY [x] = [[x]]"
  using OBJECTS_PER_QUERY_pos by (simp add: chunks.simps [of _ "[x]"] chunks.simps [of _ "[]"])

text \<open>
  An enqueued object waits in the queue afterwards: if the insert succeeds, the object has a row,
  a row it had before is kept as it was (with the processor working on it), and the answer
  says whether the object was absent before.\<close>
theorem enqueue_object_spec:
  assumes "queue_ok q" "enqueue_object fault now oid q = (Ok fresh, q')"
  shows "queue_ok q' \<and> fresh = (oid \<notin> object_id ` set q) \<and>
    set q' = set q \<union> (if fresh then {\<lparr>object_id = oid, processed_by = None, processing_started_at = now\<rparr>} else {})"
  using assms by (auto simp: enqueue_object_def queue_objects_def chunks_single insert_queued_def queue_ok_def list_ex_iff
    split: option.splits if_splits)

theorem enqueue_object_spec_witness:
  "enqueue_object (\<lambda>_. None) 5 ''a'' [] = (Ok True, [\<lparr>object_id = ''a'', processed_by = None, processing_started_at = 5\<rparr>]) \<and>
   queue_ok [\<lparr>object_id = ''a'', processed_by = None, processing_started_at = 5\<rparr>]"
proof -
  have e: "enqueue_object (\<lambda>_. None) 5 ''a'' [] = (Ok True, [\<lparr>object_id = ''a'', processed_by = None, processing_started_at = 5\<rparr>])"
    by (simp add: enqueue_object_def queue_objects_def chunks_single insert_queued_def)
  show ?thesis using enqueue_object_spec [OF _ e] e by (simp add: queue_ok_def)
qed

end
