(* ===== verification/State_Handler.thy ===== *)
theory State_Handler
  imports Resource_Pool
begin

section \<open>State handlers: outcomes, errors, service levels, metrics\<close>

text \<open>
  The vocabulary of \<^verbatim>\<open>state-controller/src/state_handler.rs\<close>, of \<^verbatim>\<open>controller_outcome.rs\<close> and
  \<^verbatim>\<open>StateSla\<close> of the model crate, and the aggregation of handler metrics per state from
  \<^verbatim>\<open>state-controller/src/metrics.rs\<close>.  An open transaction travels inside an outcome; its type
  is a parameter.  Errors of other crates inside \<^verbatim>\<open>StateHandlerError\<close> are their printed form.
\<close>

subsection \<open>Errors\<close>

record external_service_error =
  es_service :: string
  es_operation :: string
  es_details :: string
  es_metric_label :: string

definition external_service_display :: "external_service_error \<Rightarrow> string" where
  "external_service_display e =
     (if es_operation e = [] then
        ''Failed '' @ es_service e @ '' operation. Details: '' @ es_details e @ ''.''
      else
        ''Failed '' @ es_service e @ '' operation: '' @ es_operation e @ ''. Details: '' @ es_details e @ ''.'')"

datatype state_handler_error =
    TransactionError string
  | GenericError string
  | MissingData (missing_object_id: string) (missing: string)
  | DBError database_error
  | PoolReleaseError resource_pool_error
  | InvalidHostState string string
  | ExternalServiceError external_service_error
  | Timeout (timeout_object_id: string) (timeout_state: string)
  | FirmwareUpdateError string
  | ManualInterventionRequired string
  | InvalidStateError string
  | HealthProbeAlert
  | TimeInStateAboveSla string
  | ResourceCleanupError (cleanup_resource: string) (cleanup_error: string)
  | SpdmError string

fun metric_label :: "state_handler_error \<Rightarrow> string" where
  "metric_label (TransactionError _) = ''transaction_error''"
| "metric_label (GenericError _) = ''generic_error''"
| "metric_label (FirmwareUpdateError _) = ''firware_update_error''"
| "metric_label (MissingData _ _) = ''missing_data''"
| "metric_label (DBError _) = ''db_error''"
| "metric_label (Timeout _ _) = ''timeout''"
| "metric_label (PoolReleaseError _) = ''pool_release_error''"
| "metric_label (InvalidHostState _ _) = ''invalid_host_state''"
| "metric_label (InvalidStateError _) = ''invalid_state''"
| "metric_label (ExternalServiceError e) = es_metric_label e"
| "metric_label (ManualInterventionRequired _) = ''manual_intervention_required''"
| "metric_label HealthProbeAlert = ''health_probe_alert''"
| "metric_label (TimeInStateAboveSla _) = ''time_in_state_above_sla''"
| "metric_label (ResourceCleanupError r _) =
     (if r = ''VpcLoopbackIp'' then ''vpcloopback_release_failed''
      else if r = ''network_segment'' then ''network_segment_cleanup_failed''
      else ''resource_cleanup_failed'')"
| "metric_label (SpdmError _) = ''spdm_attestation_error''"

subsection \<open>Outcomes\<close>

record source_location =
  loc_file :: string
  loc_line :: u32

datatype ('s, 't) state_handler_outcome =
    Wait (wait_reason: string) (source_ref: source_location) (outcome_txn: "'t option")
  | Transition (target: 's) (source_ref: source_location) (outcome_txn: "'t option")
  | DoNothing (source_ref: source_location) (outcome_txn: "'t option")
  | Deleted (source_ref: source_location) (outcome_txn: "'t option")

fun replace_txn :: "('s, 't) state_handler_outcome \<Rightarrow> 't option \<Rightarrow> ('s, 't) state_handler_outcome" where
  "replace_txn (Wait reason src _) txn = Wait reason src txn"
| "replace_txn (Transition s src _) txn = Transition s src txn"
| "replace_txn (DoNothing src _) txn = DoNothing src txn"
| "replace_txn (Deleted src _) txn = Deleted src txn"

text \<open>
  \<open>None\<close>: the \<^verbatim>\<open>debug_assert\<close> fails, because the outcome has a transaction already; the release profile keeps
  debug assertions.
\<close>

definition with_txn_opt :: "('s, 't) state_handler_outcome \<Rightarrow> 't option \<Rightarrow> ('s, 't) state_handler_outcome option" where
  "with_txn_opt outcome txn = (if outcome_txn outcome = None then Some (replace_txn outcome txn) else None)"

definition with_txn :: "('s, 't) state_handler_outcome \<Rightarrow> 't \<Rightarrow> ('s, 't) state_handler_outcome option" where
  "with_txn outcome txn = with_txn_opt outcome (Some txn)"

definition do_nothing :: "source_location \<Rightarrow> ('s, 't) state_handler_outcome" where
  "do_nothing caller = DoNothing caller None"

definition transition :: "source_location \<Rightarrow> 's \<Rightarrow> ('s, 't) state_handler_outcome" where
  "transition caller s = Transition s caller None"

definition wait :: "source_location \<Rightarrow> string \<Rightarrow> ('s, 't) state_handler_outcome" where
  "wait caller reason = Wait reason caller None"

definition deleted :: "source_location \<Rightarrow> ('s, 't) state_handler_outcome" where
  "deleted caller = Deleted caller None"

definition take_transaction :: "('s, 't) state_handler_outcome \<Rightarrow> 't option \<times> ('s, 't) state_handler_outcome" where
  "take_transaction outcome = (outcome_txn outcome, replace_txn outcome None)"

fun outcome_display :: "('s, 't) state_handler_outcome \<Rightarrow> string" where
  "outcome_display (Wait reason _ _) = reason"
| "outcome_display (Transition _ _ _) = ''Transition to next state''"
| "outcome_display (DoNothing _ _) = ''Do nothing''"
| "outcome_display (Deleted _ _) = ''Deleted''"

datatype persistent_outcome =
    PWait string "source_location option"
  | PError string "source_location option"
  | PTransition "source_location option"
  | PDoNothing "source_location option"
  | PDoNothingWithDetails

text \<open>\<open>None\<close> is the \<^verbatim>\<open>unreachable!()\<close> of the arm for \<^verbatim>\<open>Deleted\<close>; \<open>err_text\<close> is \<^verbatim>\<open>to_string\<close> of an error.\<close>

fun from_result ::
  "(state_handler_error \<Rightarrow> string) \<Rightarrow> (state_handler_error, ('s, 't) state_handler_outcome) result \<Rightarrow> persistent_outcome option" where
  "from_result err_text (Inr (Wait reason src _)) = Some (PWait reason (Some src))"
| "from_result err_text (Inr (Transition _ src _)) = Some (PTransition (Some src))"
| "from_result err_text (Inr (DoNothing src _)) = Some (PDoNothing (Some src))"
| "from_result err_text (Inr (Deleted _ _)) = None"
| "from_result err_text (Inl e) = Some (PError (err_text e) None)"

subsection \<open>Service levels\<close>

record state_sla =
  sla :: "duration option"
  time_in_state_above_sla :: bool

definition no_sla :: state_sla where
  "no_sla = \<lparr>sla = None, time_in_state_above_sla = False\<rparr>"

definition with_sla :: "duration \<Rightarrow> duration \<Rightarrow> state_sla" where
  "with_sla s time_in_state = \<lparr>sla = Some s, time_in_state_above_sla = (time_in_state > s)\<rparr>"

subsection \<open>Metrics of one invocation and their aggregation\<close>

record 's handler_metrics =
  initial_state :: "'s option"
  next_state :: "'s option"
  transition_conflict :: bool
  time_in_state :: duration
  above_sla :: bool
  metrics_sla :: "duration option"
  state_entered_at :: "datetime option"
  handler_latency :: duration
  error :: "state_handler_error option"

definition handler_metrics_default :: "'s handler_metrics" where
  "handler_metrics_default =
     \<lparr>initial_state = None, next_state = None, transition_conflict = False, time_in_state = 0, above_sla = False,
      metrics_sla = None, state_entered_at = None, handler_latency = 0, error = None\<rparr>"

type_synonym full_state = "string \<times> string"

record state_metrics =
  num_objects :: nat
  num_objects_above_sla :: nat
  handling_errors_per_type :: "(string \<times> nat) list"

definition state_metrics_default :: state_metrics where
  "state_metrics_default = \<lparr>num_objects = 0, num_objects_above_sla = 0, handling_errors_per_type = []\<rparr>"

text \<open>\<^verbatim>\<open>HashMap::entry(k).or_default()\<close> followed by an update in place.\<close>

fun upsert :: "'k \<Rightarrow> 'v \<Rightarrow> ('v \<Rightarrow> 'v) \<Rightarrow> ('k \<times> 'v) list \<Rightarrow> ('k \<times> 'v) list" where
  "upsert k d f [] = [(k, f d)]"
| "upsert k d f ((k', v) # xs) = (if k = k' then (k', f v) # xs else (k', v) # upsert k d f xs)"

definition merge_object_handling_metrics ::
  "('s \<Rightarrow> full_state) \<Rightarrow> 's handler_metrics \<Rightarrow> (full_state \<times> state_metrics) list \<Rightarrow> (full_state \<times> state_metrics) list" where
  "merge_object_handling_metrics metric_state_names m acc =
     (let full = (case initial_state m of Some s \<Rightarrow> metric_state_names s | None \<Rightarrow> (''unknown'', []));
          acc1 = upsert full state_metrics_default
            (\<lambda>sm. let sm1 = (case error m of
                               None \<Rightarrow> sm
                             | Some e \<Rightarrow> sm\<lparr>handling_errors_per_type := upsert (metric_label e) 0 Suc (handling_errors_per_type sm)\<rparr>)
                  in if next_state m = None
                     then sm1\<lparr>num_objects := num_objects sm1 + 1,
                              num_objects_above_sla := num_objects_above_sla sm1 + (if above_sla m then 1 else 0)\<rparr>
                     else sm1) acc
      in case next_state m of
           None \<Rightarrow> acc1
         | Some s \<Rightarrow> upsert (metric_state_names s) state_metrics_default (\<lambda>sm. sm\<lparr>num_objects := num_objects sm + 1\<rparr>) acc1)"

definition total_objects :: "(full_state \<times> state_metrics) list \<Rightarrow> nat" where
  "total_objects acc = sum_list (map (num_objects \<circ> snd) acc)"

lemma total_upsert:
  assumes "\<And>sm. num_objects (f sm) = num_objects sm + k"
  shows "total_objects (upsert key state_metrics_default f acc) = total_objects acc + k"
  using assms by (induction acc) (auto simp: total_objects_def state_metrics_default_def)

lemma replace_txn_simps [simp]: "outcome_txn (replace_txn x t) = t" "source_ref (replace_txn x t) = source_ref x"
  by (cases x; simp)+

text \<open>The assertion holds for every outcome a handler has just built.\<close>

lemma with_txn_fresh [simp]:
  "with_txn (do_nothing caller) t = Some (DoNothing caller (Some t))"
  "with_txn (transition caller s) t = Some (Transition s caller (Some t))"
  "with_txn (wait caller reason) t = Some (Wait reason caller (Some t))"
  "with_txn (deleted caller) t = Some (Deleted caller (Some t))"
  by (simp_all add: with_txn_def with_txn_opt_def do_nothing_def transition_def wait_def deleted_def)

lemma from_result_None: "from_result txt r = None \<longleftrightarrow> (\<exists>src t. r = Ok (Deleted src t))"
proof (cases r)
  case (Inr x)
  then show ?thesis by (cases x) simp_all
qed simp

text \<open>
  Whatever the metrics of one handler invocation are, merging them counts the object in
  exactly one state.\<close>
theorem merge_counts_once:
  "total_objects (merge_object_handling_metrics names m acc) = total_objects acc + 1"
proof (cases "next_state m")
  case None
  then show ?thesis unfolding merge_object_handling_metrics_def Let_def
    by (simp only: option.case refl if_True) (rule total_upsert, simp split: option.split)
next
  case (Some s)
  have "total_objects (upsert (names s) state_metrics_default (\<lambda>sm. sm\<lparr>num_objects := num_objects sm + 1\<rparr>) acc') = total_objects acc' + 1" for acc'
    by (rule total_upsert) simp
  moreover have "total_objects (upsert (case initial_state m of Some s \<Rightarrow> names s | None \<Rightarrow> (''unknown'', [])) state_metrics_default
      (\<lambda>sm. case error m of None \<Rightarrow> sm
         | Some e \<Rightarrow> sm\<lparr>handling_errors_per_type := upsert (metric_label e) 0 Suc (handling_errors_per_type sm)\<rparr>) acc) = total_objects acc + 0"
    by (rule total_upsert) (simp split: option.split)
  ultimately show ?thesis using Some by (simp add: merge_object_handling_metrics_def Let_def)
qed

end
