(* ===== verification/State_Processor.thy ===== *)
theory State_Processor
  imports Controller_Queue State_Handler "HOL-Library.AList"
begin

section \<open>The state processor\<close>

text \<open>
  \<^verbatim>\<open>StateProcessor\<close> of \<^verbatim>\<open>state-controller/src/controller/processor.rs\<close>: claiming queued objects,
  running a task for each, collecting what finished, and settling the queue.

  A task is its object with the time it was started and, once the state handler has returned,
  the metrics of that invocation.  The time, the tasks that have finished and the database
  statements that fail are arguments.  Logging and the emission of metrics to OpenTelemetry
  are left out.
\<close>

subsection \<open>State of a processor\<close>

record ('o, 's) object_task =
  task_object :: 'o
  task_started :: datetime
  task_result :: "'s handler_metrics option"

record stats_since_last_log =
  num_dispatched_tasks :: nat
  num_completed_tasks :: nat
  num_errored_tasks :: nat
  num_deleted_queued_objects :: nat
  num_requeued_objects :: nat

definition stats_default :: stats_since_last_log where
  "stats_default = \<lparr>num_dispatched_tasks = 0, num_completed_tasks = 0, num_errored_tasks = 0,
     num_deleted_queued_objects = 0, num_requeued_objects = 0\<rparr>"

record ('o, 's) state_processor =
  processor_id :: string
  iteration_config :: iteration_config
  object_tasks :: "('o, 's) object_task list"
  completed_objects :: "'o list"
  requeue_objects :: "'o list"
  object_metrics :: "('o \<times> 's handler_metrics \<times> datetime) list"
  last_log_time :: datetime
  last_metric_emission_time :: datetime
  stats_since :: stats_since_last_log

definition new_processor :: "string \<Rightarrow> iteration_config \<Rightarrow> datetime \<Rightarrow> ('o, 's) state_processor" where
  "new_processor pid cfg now =
     \<lparr>processor_id = pid, iteration_config = cfg, object_tasks = [], completed_objects = [], requeue_objects = [],
      object_metrics = [], last_log_time = now, last_metric_emission_time = now, stats_since = stats_default\<rparr>"

subsection \<open>Claiming and dispatching\<close>

definition remaining_capacity :: "('o, 's) state_processor \<Rightarrow> nat" where
  "remaining_capacity p = max_concurrency (iteration_config p) - length (object_tasks p)"

definition dispatch_object_handling_task :: "datetime \<Rightarrow> 'o \<Rightarrow> ('o, 's) state_processor \<Rightarrow> ('o, 's) state_processor" where
  "dispatch_object_handling_task now oid p =
     p\<lparr>object_tasks := object_tasks p @ [\<lparr>task_object = oid, task_started = now, task_result = None\<rparr>]\<rparr>"

definition lease :: "iteration_config \<Rightarrow> duration" where
  "lease cfg = max_object_handling_time cfg * 3"

text \<open>
  One transaction against the queue: the fault of its begin, the faults of each call made in it and
  what became of the commit.  A commit can report an error although it took effect, when the answer
  of the database is lost.
\<close>

datatype commit_outcome = Committed | NotCommitted string | AppliedButFailed string

record txn_env =
  begin_fault :: "string option"
  call_fault :: "nat \<Rightarrow> faults"
  commit_outcome :: commit_outcome

definition txn_ok :: txn_env where
  "txn_ok = \<lparr>begin_fault = None, call_fault = (\<lambda>_ _. None), commit_outcome = Committed\<rparr>"

definition commit :: "txn_env \<Rightarrow> 'a \<Rightarrow> queue \<Rightarrow> queue \<Rightarrow> (database_error, 'a) result \<times> queue" where
  "commit env x before after =
     (case commit_outcome env of
        Committed \<Rightarrow> (Ok x, after)
      | NotCommitted e \<Rightarrow> (Err (QueryFailed e), before)
      | AppliedButFailed e \<Rightarrow> (Err (QueryFailed e), after))"

definition acquire_txn ::
  "txn_env \<Rightarrow> datetime \<Rightarrow> string list \<Rightarrow> nat \<Rightarrow> string \<Rightarrow> duration \<Rightarrow> queue
    \<Rightarrow> (database_error, queued_object list) result \<times> queue" where
  "acquire_txn env now locked capacity pid max_outdated q =
     (if capacity > 0 then
        case begin_fault env of
          Some e \<Rightarrow> (Err (QueryFailed e), q)
        | None \<Rightarrow>
            (case acquire_queued_objects (call_fault env 0) now locked (min capacity (2 ^ 32 - 1)) pid max_outdated q of
               (Inl e, _) \<Rightarrow> (Err e, q)
             | (Inr rs, q') \<Rightarrow> commit env rs q q')
      else (Ok [], q))"

definition dequeue_and_dispatch ::
  "(string \<Rightarrow> 'o option) \<Rightarrow> txn_env \<Rightarrow> datetime \<Rightarrow> string list \<Rightarrow> ('o, 's) state_processor \<Rightarrow> queue
    \<Rightarrow> (database_error, nat) result \<times> ('o, 's) state_processor \<times> queue" where
  "dequeue_and_dispatch parse_id env now locked p q =
     (case acquire_txn env now locked (remaining_capacity p) (processor_id p) (lease (iteration_config p)) q of
        (Inl e, q') \<Rightarrow> (Err e, p, q')
      | (Inr rs, q') \<Rightarrow>
          (let objects = List.map_filter (\<lambda>r. parse_id (object_id r)) rs;
               n = length objects;
               p1 = p\<lparr>stats_since := (stats_since p)\<lparr>num_dispatched_tasks := num_dispatched_tasks (stats_since p) + n\<rparr>\<rparr>
           in (Ok n, fold (dispatch_object_handling_task now) objects p1, q')))"

subsection \<open>Collecting results\<close>

definition process_object_handling_task_result ::
  "bool \<Rightarrow> datetime \<Rightarrow> 'o \<times> 's handler_metrics \<Rightarrow> ('o, 's) state_processor \<Rightarrow> ('o, 's) state_processor" where
  "process_object_handling_task_result allow_requeue collected_at r p =
     (case r of (oid, m) \<Rightarrow>
        (let p1 = p\<lparr>completed_objects := List.insert oid (completed_objects p)\<rparr>;
             p2 = (if allow_requeue \<and> (next_state m \<noteq> None \<or> transition_conflict m)
                   then p1\<lparr>requeue_objects := List.insert oid (requeue_objects p1)\<rparr> else p1);
             st = stats_since p2;
             p3 = p2\<lparr>stats_since := st\<lparr>num_completed_tasks := num_completed_tasks st + 1,
                        num_errored_tasks := num_errored_tasks st + (if error m \<noteq> None then 1 else 0)\<rparr>\<rparr>
         in p3\<lparr>object_metrics := AList.update oid (m, collected_at) (object_metrics p3)\<rparr>))"

text \<open>\<^verbatim>\<open>join_many\<close> removes the tasks that have finished; it has waited for at least one, or timed out.\<close>

definition wait_and_process ::
  "bool \<Rightarrow> datetime \<Rightarrow> ('o, 's) state_processor \<Rightarrow> nat \<times> ('o, 's) state_processor" where
  "wait_and_process allow_requeue now p =
     (let results = List.map_filter (\<lambda>t. map_option (Pair (task_object t)) (task_result t)) (object_tasks p);
          p1 = p\<lparr>object_tasks := filter (\<lambda>t. task_result t = None) (object_tasks p)\<rparr>
      in (length results, fold (process_object_handling_task_result allow_requeue now) results p1))"

subsection \<open>Settling the queue\<close>

definition finalize_txn ::
  "txn_env \<Rightarrow> datetime \<Rightarrow> string list \<Rightarrow> string list \<Rightarrow> string \<Rightarrow> queue \<Rightarrow> (database_error, nat \<times> nat) result \<times> queue" where
  "finalize_txn env now object_ids requeue_ids pid q =
     (case begin_fault env of
        Some e \<Rightarrow> (Err (QueryFailed e), q)
      | None \<Rightarrow>
          (case delete_queued_objects (call_fault env 0) object_ids pid q of
             (Inl e, _) \<Rightarrow> (Err e, q)
           | (Inr num_deleted, q1) \<Rightarrow>
               (case queue_objects (call_fault env 1) now requeue_ids q1 of
                  (Inl e, _) \<Rightarrow> (Err e, q)
                | (Inr num_requeued, q2) \<Rightarrow> commit env (num_deleted, num_requeued) q q2)))"

definition finalize_completed_objects ::
  "('o \<Rightarrow> string) \<Rightarrow> txn_env \<Rightarrow> datetime \<Rightarrow> ('o, 's) state_processor \<Rightarrow> queue
    \<Rightarrow> (database_error, unit) result \<times> ('o, 's) state_processor \<times> queue" where
  "finalize_completed_objects show_id env now p q =
     (if completed_objects p = [] then (Ok (), p, q)
      else case finalize_txn env now (map show_id (completed_objects p)) (map show_id (requeue_objects p)) (processor_id p) q of
             (Inl e, q') \<Rightarrow> (Err e, p, q')
           | (Inr (num_deleted, num_requeued), q') \<Rightarrow>
               (let st = stats_since p
                in (Ok (), p\<lparr>completed_objects := [], requeue_objects := [],
                      stats_since := st\<lparr>num_deleted_queued_objects := num_deleted_queued_objects st + num_deleted,
                        num_requeued_objects := num_requeued_objects st + num_requeued\<rparr>\<rparr>, q')))"

subsection \<open>Metrics\<close>

text \<open>
  The aggregate of the collected metrics and the eviction of old ones.  Points in time are
  unbounded here, so \<^verbatim>\<open>checked_add\<close> and \<^verbatim>\<open>checked_sub\<close> always have a value.
\<close>

definition emit_metrics ::
  "('s \<Rightarrow> full_state) \<Rightarrow> datetime \<Rightarrow> ('o, 's) state_processor \<Rightarrow> (full_state \<times> state_metrics) list \<times> ('o, 's) state_processor" where
  "emit_metrics names now p =
     (let aggregate = fold (\<lambda>(_, m, _). merge_object_handling_metrics names m) (object_metrics p) [];
          min_age = now - metric_hold_time (iteration_config p)
      in (aggregate, p\<lparr>last_metric_emission_time := now,
                       object_metrics := filter (\<lambda>(_, _, collected_at). collected_at \<ge> min_age) (object_metrics p)\<rparr>))"

definition emit_metrics_if_necessary :: "('s \<Rightarrow> full_state) \<Rightarrow> datetime \<Rightarrow> ('o, 's) state_processor \<Rightarrow> ('o, 's) state_processor" where
  "emit_metrics_if_necessary names now p =
     (if now < last_metric_emission_time p + metric_emission_interval (iteration_config p) then p
      else snd (emit_metrics names now p))"

definition emit_periodic_log_if_necessary :: "datetime \<Rightarrow> ('o, 's) state_processor \<Rightarrow> ('o, 's) state_processor" where
  "emit_periodic_log_if_necessary now p =
     (if now < last_log_time p + processor_log_interval (iteration_config p) then p
      else p\<lparr>last_log_time := now, stats_since := stats_default\<rparr>)"

subsection \<open>One iteration and the shutdown\<close>

text \<open>
  The tasks that have finished by the time the iteration collects results; a finished task keeps
  its result.
\<close>

definition finish_tasks ::
  "(('o, 's) object_task \<Rightarrow> 's handler_metrics option) \<Rightarrow> ('o, 's) state_processor \<Rightarrow> ('o, 's) state_processor" where
  "finish_tasks finish p =
     p\<lparr>object_tasks := map (\<lambda>t. if task_result t = None then t\<lparr>task_result := finish t\<rparr> else t) (object_tasks p)\<rparr>"

record ('o, 's) iteration_env =
  it_acquire :: txn_env
  it_finalize :: txn_env
  it_locked :: "string list"
  it_finish :: "('o, 's) object_task \<Rightarrow> 's handler_metrics option"
  it_start :: datetime
  it_end :: datetime

definition run_single_iteration ::
  "('o \<Rightarrow> string) \<Rightarrow> (string \<Rightarrow> 'o option) \<Rightarrow> ('s \<Rightarrow> full_state) \<Rightarrow> bool \<Rightarrow> ('o, 's) iteration_env
    \<Rightarrow> ('o, 's) state_processor \<Rightarrow> queue
    \<Rightarrow> (database_error, nat \<times> nat) result \<times> ('o, 's) state_processor \<times> queue" where
  "run_single_iteration show_id parse_id names allow_requeue env p q =
     (case dequeue_and_dispatch parse_id (it_acquire env) (it_start env) (it_locked env) p q of
        (Inl e, p1, q1) \<Rightarrow> (Err e, p1, q1)
      | (Inr num_dispatched, p1, q1) \<Rightarrow>
          (case wait_and_process allow_requeue (it_end env) (finish_tasks (it_finish env) p1) of
             (num_completed, p2) \<Rightarrow>
               (case finalize_completed_objects show_id (it_finalize env) (it_end env) p2 q1 of
                  (Inl e, p3, q3) \<Rightarrow> (Err e, p3, q3)
                | (Inr _, p3, q3) \<Rightarrow>
                    (Ok (num_dispatched, num_completed),
                     emit_periodic_log_if_necessary (it_end env) (emit_metrics_if_necessary names (it_end env) p3), q3))))"

text \<open>
  The loop of \<^verbatim>\<open>drain\<close>.  The tasks that have finished by the \<open>i\<close>-th look at the set are
  \<open>finish i\<close>; a look that finds none finished is a wait that goes on.  \<open>None\<close>: the loop never ends.
\<close>

partial_function (option) drain_loop ::
  "(nat \<Rightarrow> ('o, 's) object_task \<Rightarrow> 's handler_metrics option) \<Rightarrow> (nat \<Rightarrow> datetime) \<Rightarrow> nat \<Rightarrow> ('o, 's) state_processor
    \<Rightarrow> ('o, 's) state_processor option" where
  "drain_loop finish now i p =
     (if object_tasks p = [] then Some p
      else drain_loop finish now (Suc i) (snd (wait_and_process True (now i) (finish_tasks (finish i) p))))"

definition drain ::
  "('o \<Rightarrow> string) \<Rightarrow> ('s \<Rightarrow> full_state) \<Rightarrow> (nat \<Rightarrow> ('o, 's) object_task \<Rightarrow> 's handler_metrics option) \<Rightarrow> (nat \<Rightarrow> datetime)
    \<Rightarrow> txn_env \<Rightarrow> datetime \<Rightarrow> ('o, 's) state_processor \<Rightarrow> queue \<Rightarrow> (('o, 's) state_processor \<times> queue) option" where
  "drain show_id names finish now env finished p q =
     map_option (\<lambda>p1. case finalize_completed_objects show_id env finished p1 q of
                        (_, p2, q2) \<Rightarrow> (snd (emit_metrics names finished p2), q2))
       (drain_loop finish now 0 p)"

subsection \<open>Well-formed processors\<close>

text \<open>
  The sets and the map of a processor have no duplicates, an object to requeue has completed and is
  not settled yet, and the tasks fit the configured concurrency.
\<close>

definition processor_ok :: "('o, 's) state_processor \<Rightarrow> bool" where
  "processor_ok p \<longleftrightarrow>
     distinct (completed_objects p) \<and> distinct (requeue_objects p) \<and> distinct (map fst (object_metrics p)) \<and>
     set (requeue_objects p) \<subseteq> set (completed_objects p) \<and>
     length (object_tasks p) \<le> max_concurrency (iteration_config p)"

definition running_objects :: "('o, 's) state_processor \<Rightarrow> 'o list" where
  "running_objects p = map task_object (filter (\<lambda>t. task_result t = None) (object_tasks p))"

definition finished_objects :: "('o, 's) state_processor \<Rightarrow> 'o list" where
  "finished_objects p = map task_object (filter (\<lambda>t. task_result t \<noteq> None) (object_tasks p))"

text \<open>
  The claimed rows of the queue after a processor has settled some objects: those of before, without the rows of
  these objects in its name.
\<close>

definition settled :: "string \<Rightarrow> string set \<Rightarrow> queue \<Rightarrow> queue \<Rightarrow> bool" where
  "settled pid ids q q' \<longleftrightarrow>
     (\<forall>r. processed_by r \<noteq> None \<longrightarrow> (r \<in> set q' \<longleftrightarrow> r \<in> set q \<and> \<not> (processed_by r = Some pid \<and> object_id r \<in> ids)))"

definition demo_processor :: "(string, nat) state_processor" where
  "demo_processor = (new_processor ''p'' iteration_config_default 0)
     \<lparr>object_tasks := [\<lparr>task_object = ''a'', task_started = 1, task_result = None\<rparr>]\<rparr>"

lemma dispatch_fields [simp]:
  "completed_objects (dispatch_object_handling_task now x p) = completed_objects p"
  "requeue_objects (dispatch_object_handling_task now x p) = requeue_objects p"
  "object_metrics (dispatch_object_handling_task now x p) = object_metrics p"
  "iteration_config (dispatch_object_handling_task now x p) = iteration_config p"
  "processor_id (dispatch_object_handling_task now x p) = processor_id p"
  by (simp_all add: dispatch_object_handling_task_def)

lemma fold_dispatch [simp]:
  "completed_objects (fold (dispatch_object_handling_task now) xs p) = completed_objects p"
  "requeue_objects (fold (dispatch_object_handling_task now) xs p) = requeue_objects p"
  "object_metrics (fold (dispatch_object_handling_task now) xs p) = object_metrics p"
  "iteration_config (fold (dispatch_object_handling_task now) xs p) = iteration_config p"
  "processor_id (fold (dispatch_object_handling_task now) xs p) = processor_id p"
  "object_tasks (fold (dispatch_object_handling_task now) xs p) =
     object_tasks p @ map (\<lambda>x. \<lparr>task_object = x, task_started = now, task_result = None\<rparr>) xs"
  by (induction xs arbitrary: p) (simp_all add: dispatch_object_handling_task_def)

lemma map_filter_length: "length (List.map_filter f xs) \<le> length xs"
  by (simp add: map_filter_def)

lemma filter_sublist_length:
  assumes "distinct (map f xs)"
  shows "length (filter (\<lambda>x. f x \<in> set ys) xs) \<le> length ys"
proof -
  have "length (filter (\<lambda>x. f x \<in> set ys) xs) = card (f ` set (filter (\<lambda>x. f x \<in> set ys) xs))"
    using assms by (metis distinct_card distinct_map_filter length_map list.set_map)
  also have "\<dots> \<le> card (set ys)" by (rule card_mono) auto
  also have "\<dots> \<le> length ys" by (rule card_length)
  finally show ?thesis .
qed

lemma acquire_length:
  assumes "queue_ok q" "acquire_queued_objects fault now locked n pid mo q = (Ok rs, q')"
  shows "length rs \<le> n"
proof -
  have "queue_ok q'" using acquire_ok [OF assms(1), of fault now locked n pid mo] assms(2) by simp
  then have "length (filter (\<lambda>r. object_id r \<in> set (dequeued_ids now mo locked n q)) q') \<le> length (dequeued_ids now mo locked n q)"
    unfolding queue_ok_def by (rule filter_sublist_length)
  moreover have "rs = filter (\<lambda>r. object_id r \<in> set (dequeued_ids now mo locked n q)) q'"
    using assms(2) by (auto simp: acquire_queued_objects_def Let_def split: option.splits)
  moreover have "length (dequeued_ids now mo locked n q) \<le> n" by (simp add: dequeued_ids_def)
  ultimately show ?thesis by (metis order_trans)
qed

lemma acquire_txn_Ok:
  assumes "acquire_txn env now locked cap pid mo q = (Ok rs, q')"
  shows "rs = [] \<and> q' = q \<or> acquire_queued_objects (call_fault env 0) now locked (min cap (2 ^ 32 - 1)) pid mo q = (Ok rs, q')"
  using assms by (auto simp: acquire_txn_def commit_def split: if_splits option.splits sum.splits prod.splits commit_outcome.splits)

lemma acquire_txn_length:
  assumes "queue_ok q" "acquire_txn env now locked cap pid mo q = (Ok rs, q')"
  shows "length rs \<le> cap"
  using acquire_txn_Ok [OF assms(2)] acquire_length [OF assms(1)] by fastforce

lemma dequeue_tasks:
  assumes "queue_ok q" "dequeue_and_dispatch parse_id env now locked p q = (res, p', q')"
  shows "length (object_tasks p') \<le> max (max_concurrency (iteration_config p)) (length (object_tasks p))"
proof (cases "acquire_txn env now locked (remaining_capacity p) (processor_id p) (lease (iteration_config p)) q")
  case (Pair r q1)
  show ?thesis
  proof (cases r)
    case (Inr rs)
    have "length rs \<le> remaining_capacity p" using acquire_txn_length [OF assms(1)] Pair Inr by blast
    then have "length (List.map_filter (\<lambda>r. parse_id (object_id r)) rs) \<le> remaining_capacity p"
      using map_filter_length order_trans by blast
    then show ?thesis using assms(2) Pair Inr
      by (auto simp: dequeue_and_dispatch_def Let_def remaining_capacity_def)
  qed (use assms(2) Pair in \<open>auto simp: dequeue_and_dispatch_def\<close>)
qed

lemma dequeue_fields:
  assumes "dequeue_and_dispatch parse_id env now locked p q = (res, p', q')"
  shows "completed_objects p' = completed_objects p" "requeue_objects p' = requeue_objects p"
    "object_metrics p' = object_metrics p" "iteration_config p' = iteration_config p" "processor_id p' = processor_id p"
  using assms by (auto simp: dequeue_and_dispatch_def Let_def split: prod.splits sum.splits)

lemma process_result_fields [simp]:
  "object_tasks (process_object_handling_task_result b at r p) = object_tasks p"
  "iteration_config (process_object_handling_task_result b at r p) = iteration_config p"
  "processor_id (process_object_handling_task_result b at r p) = processor_id p"
  "set (completed_objects (process_object_handling_task_result b at r p)) = insert (fst r) (set (completed_objects p))"
  by (cases r; simp add: process_object_handling_task_result_def Let_def)+

lemma fold_process_result [simp]:
  "object_tasks (fold (process_object_handling_task_result b at) rs p) = object_tasks p"
  "iteration_config (fold (process_object_handling_task_result b at) rs p) = iteration_config p"
  "processor_id (fold (process_object_handling_task_result b at) rs p) = processor_id p"
  "set (completed_objects (fold (process_object_handling_task_result b at) rs p)) = fst ` set rs \<union> set (completed_objects p)"
  by (induction rs arbitrary: p) auto

lemma process_result_ok: "processor_ok p \<Longrightarrow> processor_ok (process_object_handling_task_result b at r p)"
  by (cases r) (auto simp: process_object_handling_task_result_def Let_def processor_ok_def distinct_update)

lemma fold_process_result_ok: "processor_ok p \<Longrightarrow> processor_ok (fold (process_object_handling_task_result b at) rs p)"
  by (induction rs arbitrary: p) (auto simp: process_result_ok)

lemma wait_and_process_tasks [simp]:
  "object_tasks (snd (wait_and_process b now p)) = filter (\<lambda>t. task_result t = None) (object_tasks p)"
  "iteration_config (snd (wait_and_process b now p)) = iteration_config p"
  "processor_id (snd (wait_and_process b now p)) = processor_id p"
  by (simp_all add: wait_and_process_def Let_def)

lemma wait_and_process_completed:
  "set (completed_objects (snd (wait_and_process b now p))) = set (finished_objects p) \<union> set (completed_objects p)"
  by (force simp: wait_and_process_def Let_def finished_objects_def map_filter_def)

lemma wait_and_process_objects:
  "set (completed_objects (snd (wait_and_process b now p))) \<union> task_object ` set (object_tasks (snd (wait_and_process b now p))) =
    set (completed_objects p) \<union> task_object ` set (object_tasks p)"
  unfolding wait_and_process_completed finished_objects_def wait_and_process_tasks set_map set_filter by blast

lemma wait_and_process_ok: "processor_ok p \<Longrightarrow> processor_ok (snd (wait_and_process b now p))"
  unfolding wait_and_process_def Let_def snd_conv
  by (rule fold_process_result_ok) (auto simp: processor_ok_def intro: order_trans [OF length_filter_le])

lemma finish_tasks_fields [simp]:
  "completed_objects (finish_tasks f p) = completed_objects p" "requeue_objects (finish_tasks f p) = requeue_objects p"
  "object_metrics (finish_tasks f p) = object_metrics p" "iteration_config (finish_tasks f p) = iteration_config p"
  "processor_id (finish_tasks f p) = processor_id p" "length (object_tasks (finish_tasks f p)) = length (object_tasks p)"
  by (simp_all add: finish_tasks_def)

lemma finish_tasks_objects [simp]: "task_object ` set (object_tasks (finish_tasks f p)) = task_object ` set (object_tasks p)"
proof -
  have "map task_object (object_tasks (finish_tasks f p)) = map task_object (object_tasks p)" by (simp add: finish_tasks_def)
  then show ?thesis by (metis list.set_map)
qed

lemma finalize_fields:
  assumes "finalize_completed_objects show_id env now p q = (res, p', q')"
  shows "object_tasks p' = object_tasks p" "iteration_config p' = iteration_config p" "processor_id p' = processor_id p"
    "object_metrics p' = object_metrics p"
    "completed_objects p' = completed_objects p \<and> requeue_objects p' = requeue_objects p \<or> completed_objects p' = [] \<and> requeue_objects p' = []"
  using assms by (auto simp: finalize_completed_objects_def Let_def split: if_splits prod.splits sum.splits)

lemma finalize_ok:
  assumes "processor_ok p" "finalize_completed_objects show_id env now p q = (res, p', q')"
  shows "processor_ok p'"
  using assms(1) finalize_fields [OF assms(2)] by (auto simp: processor_ok_def)

lemma dequeue_ok:
  assumes "processor_ok p" "queue_ok q" "dequeue_and_dispatch parse_id env now locked p q = (res, p', q')"
  shows "processor_ok p'"
  using assms(1) dequeue_fields [OF assms(3)] dequeue_tasks [OF assms(2,3)] by (auto simp: processor_ok_def)

lemma emit_metrics_ok: "processor_ok p \<Longrightarrow> processor_ok (snd (emit_metrics names now p))"
  by (auto simp: processor_ok_def emit_metrics_def Let_def distinct_map_filter)

lemma emit_ok:
  assumes "processor_ok p"
  shows "processor_ok (emit_periodic_log_if_necessary at (emit_metrics_if_necessary names now p))"
proof -
  have "processor_ok (emit_metrics_if_necessary names now p)"
    using assms by (simp add: emit_metrics_if_necessary_def emit_metrics_ok)
  then show ?thesis by (auto simp: emit_periodic_log_if_necessary_def processor_ok_def)
qed

lemma finish_tasks_ok: "processor_ok p \<Longrightarrow> processor_ok (finish_tasks f p)"
  by (simp add: processor_ok_def)

text \<open>
  C32. A well-formed processor stays well-formed through an iteration, whatever fails in it: its
  sets have no duplicates, every object to requeue is an object to settle, and there are never more
  tasks than \<^verbatim>\<open>max_concurrency\<close>.\<close>
theorem iteration_keeps_processor_ok:
  assumes "processor_ok p" "queue_ok q" "run_single_iteration show_id parse_id names allow_requeue env p q = (res, p', q')"
  shows "processor_ok p'"
proof -
  obtain r1 p1 q1 where d: "dequeue_and_dispatch parse_id (it_acquire env) (it_start env) (it_locked env) p q = (r1, p1, q1)"
    by (rule prod_cases3)
  let ?p2 = "snd (wait_and_process allow_requeue (it_end env) (finish_tasks (it_finish env) p1))"
  obtain r3 p3 q3 where f: "finalize_completed_objects show_id (it_finalize env) (it_end env) ?p2 q1 = (r3, p3, q3)"
    by (rule prod_cases3)
  have "processor_ok p1" by (rule dequeue_ok [OF assms(1,2) d])
  moreover from this have "processor_ok p3" using finalize_ok [OF _ f] by (simp add: wait_and_process_ok finish_tasks_ok)
  moreover have "p' = p1 \<or> p' = p3 \<or> p' = emit_periodic_log_if_necessary (it_end env) (emit_metrics_if_necessary names (it_end env) p3)"
    using assms(3) f unfolding run_single_iteration_def d
    by (cases "wait_and_process allow_requeue (it_end env) (finish_tasks (it_finish env) p1)")
      (auto split: sum.splits)
  ultimately show ?thesis using emit_ok by blast
qed

theorem iteration_keeps_processor_ok_witness:
  "processor_ok (new_processor ''p'' iteration_config_default 0 :: (string, nat) state_processor) \<and> queue_ok [] \<and>
   (case run_single_iteration (\<lambda>s. s) Some (\<lambda>_. (''s'', []))  True
      \<lparr>it_acquire = txn_ok, it_finalize = txn_ok, it_locked = [], it_finish = (\<lambda>_. None), it_start = 1, it_end = 2\<rparr>
      (new_processor ''p'' iteration_config_default 0 :: (string, nat) state_processor) [] of (_, p', _) \<Rightarrow> processor_ok p')"
proof -
  let ?p = "new_processor ''p'' iteration_config_default 0 :: (string, nat) state_processor"
  let ?r = "run_single_iteration (\<lambda>s. s) Some (\<lambda>_. (''s'', []))  True
      \<lparr>it_acquire = txn_ok, it_finalize = txn_ok, it_locked = [], it_finish = (\<lambda>_. None), it_start = 1, it_end = 2\<rparr> ?p []"
  have p: "processor_ok ?p" by (simp add: processor_ok_def new_processor_def)
  moreover have q: "queue_ok []" by (simp add: queue_ok_def)
  moreover have "processor_ok (fst (snd ?r))" by (rule iteration_keeps_processor_ok [OF p q, of _ _ _ _ _ "fst ?r" _ "snd (snd ?r)"]) simp
  ultimately show ?thesis by (simp add: case_prod_beta)
qed

subsection \<open>Settling and draining\<close>

lemma finalize_txn_queue:
  assumes "finalize_txn env now ids req pid q = (res, q')"
  shows "q' = q \<or> q' = snd (fold (insert_queued now) (sort req) (0, filter (\<lambda>r. \<not> (object_id r \<in> set ids \<and> processed_by r = Some pid)) q))"
proof -
  obtain d q1 where d: "delete_queued_objects (call_fault env 0) ids pid q = (d, q1)" by fastforce
  obtain r q2 where r: "queue_objects (call_fault env 1) now req q1 = (r, q2)" by fastforce
  show ?thesis
  proof (cases "(\<exists>n. d = Ok n) \<and> (\<exists>m. r = Ok m)")
    case True
    then have "q2 = snd (fold (insert_queued now) (sort req) (0, filter (\<lambda>r. \<not> (object_id r \<in> set ids \<and> processed_by r = Some pid)) q))"
      using delete_queued_objects_Ok queue_objects_Ok d r by blast
    moreover have "q' = q \<or> q' = q2" using assms d r True
      by (auto simp: finalize_txn_def commit_def split: option.splits commit_outcome.splits)
    ultimately show ?thesis by simp
  next
    case False
    then show ?thesis using assms d r by (auto simp: finalize_txn_def split: option.splits sum.splits)
  qed
qed

lemma finalize_txn_done:
  assumes "finalize_txn env now ids req pid q = (Ok n, q')"
  shows "q' = snd (fold (insert_queued now) (sort req) (0, filter (\<lambda>r. \<not> (object_id r \<in> set ids \<and> processed_by r = Some pid)) q))"
proof -
  obtain d q1 where d: "delete_queued_objects (call_fault env 0) ids pid q = (d, q1)" by fastforce
  obtain r where r: "queue_objects (call_fault env 1) now req q1 = (r, q')" "\<exists>m. d = Ok m" "\<exists>m. r = Ok m"
    using assms d by (auto simp: finalize_txn_def commit_def split: option.splits sum.splits prod.splits commit_outcome.splits)
  then show ?thesis using delete_queued_objects_Ok queue_objects_Ok d by blast
qed

lemma finalize_txn_ok:
  "\<exists>n. finalize_txn txn_ok now ids req pid q =
    (Ok n, snd (fold (insert_queued now) (sort req) (0, filter (\<lambda>r. \<not> (object_id r \<in> set ids \<and> processed_by r = Some pid)) q)))"
proof -
  obtain d q1 where d: "delete_queued_objects (\<lambda>_. None) ids pid q = (Ok d, q1)"
    unfolding delete_queued_objects_def using delete_chunks_no_fault [of "\<lambda>_. None"] by blast
  obtain n q2 where n: "queue_objects (\<lambda>_. None) now req q1 = (Ok n, q2)"
    unfolding queue_objects_def using queue_chunks_no_fault [of "\<lambda>_. None"] by blast
  show ?thesis using delete_queued_objects_Ok [OF d] queue_objects_Ok [OF n] d n
    by (simp add: finalize_txn_def txn_ok_def commit_def)
qed

lemma settled_rows:
  "processed_by r \<noteq> None \<Longrightarrow> r \<in> set (snd (fold (insert_queued now) ids (n, q))) \<longleftrightarrow> r \<in> set q"
  using fold_insert_queued_new [of r now ids "(n, q)"] fold_insert_queued_keeps [of "(n, q)" now ids] by auto

lemma finalize_settles:
  assumes "finalize_completed_objects show_id env now p q = (res, p', q')"
  shows "q' = q \<or> settled (processor_id p) (show_id ` set (completed_objects p)) q q'"
    and "completed_objects p' = [] \<Longrightarrow> settled (processor_id p) (show_id ` set (completed_objects p)) q q'"
    and "completed_objects p' = [] \<or> completed_objects p' = completed_objects p"
    and "env = txn_ok \<Longrightarrow> completed_objects p' = []"
proof -
  let ?ids = "map show_id (completed_objects p)" and ?req = "map show_id (requeue_objects p)"
  let ?q = "snd (fold (insert_queued now) (sort ?req) (0, filter (\<lambda>r. \<not> (object_id r \<in> set ?ids \<and> processed_by r = Some (processor_id p))) q))"
  have q: "settled (processor_id p) (show_id ` set (completed_objects p)) q ?q" by (auto simp: settled_def settled_rows)
  obtain r q1 where f: "finalize_txn env now ?ids ?req (processor_id p) q = (r, q1)" by fastforce
  have "q1 = q \<or> q1 = ?q" by (rule finalize_txn_queue [OF f])
  then show "q' = q \<or> settled (processor_id p) (show_id ` set (completed_objects p)) q q'"
    using assms f q by (auto simp: finalize_completed_objects_def Let_def split: if_splits sum.splits)
  have "q1 = ?q" if "r = Ok n" for n using f that by (intro finalize_txn_done) simp
  then show "settled (processor_id p) (show_id ` set (completed_objects p)) q q'" if "completed_objects p' = []"
    using assms f q that by (cases "completed_objects p = []") (auto simp: finalize_completed_objects_def settled_def Let_def split: sum.splits)
  show "completed_objects p' = [] \<or> completed_objects p' = completed_objects p" using finalize_fields(5) [OF assms] by blast
  show "completed_objects p' = []" if "env = txn_ok"
    using assms finalize_txn_ok [of now ?ids ?req "processor_id p" q] that by (auto simp: finalize_completed_objects_def Let_def split: if_splits)
qed

lemma unchanged_result: "task_result (t :: ('o, 's) object_task) = None \<Longrightarrow> t\<lparr>task_result := None\<rparr> = t"
  by simp

lemma drain_loop_completes:
  assumes "\<And>i t. N \<le> i \<Longrightarrow> t \<in> set (object_tasks p) \<Longrightarrow> task_result t = None \<Longrightarrow> finish i t \<noteq> None"
  shows "\<exists>p'. drain_loop finish now i p = Some p' \<and> object_tasks p' = [] \<and> processor_id p' = processor_id p \<and>
    set (completed_objects p') = set (completed_objects p) \<union> task_object ` set (object_tasks p)"
  using assms
proof (induction "Suc N - i" arbitrary: i p)
  case (0 i p)
  show ?case
  proof (cases "object_tasks p = []")
    case True
    then show ?thesis by (simp add: drain_loop.simps)
  next
    case False
    let ?p = "snd (wait_and_process True (now i) (finish_tasks (finish i) p))"
    have "task_result t \<noteq> None" if "t \<in> set (object_tasks (finish_tasks (finish i) p))" for t
      using that 0 by (auto simp: finish_tasks_def split: if_splits)
    then have "object_tasks ?p = []" and "set (completed_objects ?p) = task_object ` set (object_tasks (finish_tasks (finish i) p)) \<union> set (completed_objects p)"
      by (auto simp: wait_and_process_completed finished_objects_def)
    then show ?thesis using False by (subst drain_loop.simps) (simp add: drain_loop.simps Un_commute)
  qed
next
  case (Suc n i p)
  show ?case
  proof (cases "object_tasks p = []")
    case True
    then show ?thesis by (simp add: drain_loop.simps)
  next
    case False
    let ?p = "snd (wait_and_process True (now i) (finish_tasks (finish i) p))"
    have sub: "t \<in> set (object_tasks p) \<and> task_result t = None" if "t \<in> set (object_tasks ?p)" for t
      using that by (auto simp: finish_tasks_def unchanged_result split: if_splits)
    have "finish j t \<noteq> None" if "N \<le> j" "t \<in> set (object_tasks ?p)" for j t
      using Suc.prems [OF that(1)] sub [OF that(2)] by blast
    moreover have "n = Suc N - Suc i" using Suc.hyps(2) by linarith
    ultimately obtain p' where p': "drain_loop finish now (Suc i) ?p = Some p'" "object_tasks p' = []" "processor_id p' = processor_id ?p"
        "set (completed_objects p') = set (completed_objects ?p) \<union> task_object ` set (object_tasks ?p)"
      using Suc.hyps(1) by blast
    have "set (completed_objects p') = set (completed_objects p) \<union> task_object ` set (object_tasks p)" 
      unfolding p'(4) wait_and_process_objects by simp
    moreover have "drain_loop finish now i p = Some p'" using False p'(1) by (subst drain_loop.simps) simp
    ultimately show ?thesis using p'(2,3) by simp
  qed
qed

text \<open>
  C27. A processor that is asked to stop does stop once every handler it started has returned, whatever
  becomes of its last settlement.  No task is left.  If the settlement succeeds, the claimed rows of the
  queue are those of before except the ones in its name of the objects it had in its tasks or had
  completed: a row it claimed without starting a task for it stays in its name.  If the settlement fails, the
  queue is unchanged or settled in the same way.\<close>
theorem drain_terminates:
  assumes "\<And>i t. N \<le> i \<Longrightarrow> t \<in> set (object_tasks p) \<Longrightarrow> finish i t \<noteq> None"
  defines "worked \<equiv> set (completed_objects p) \<union> task_object ` set (object_tasks p)"
  shows "\<exists>p' q'. drain show_id names finish now env finished p q = Some (p', q') \<and> object_tasks p' = [] \<and>
    (q' = q \<or> settled (processor_id p) (show_id ` worked) q q') \<and>
    (completed_objects p' = [] \<and> settled (processor_id p) (show_id ` worked) q q' \<or> set (completed_objects p') = worked \<and> env \<noteq> txn_ok)"
proof -
  obtain p1 where p1: "drain_loop finish now 0 p = Some p1" "object_tasks p1 = []" "processor_id p1 = processor_id p"
    "set (completed_objects p1) = worked"
    using drain_loop_completes [of N p finish now 0] assms(1) unfolding worked_def by blast
  obtain res p2 q2 where f: "finalize_completed_objects show_id env finished p1 q = (res, p2, q2)" by (rule prod_cases3)
  note settles = finalize_settles [OF f, unfolded p1(3,4)]
  have "object_tasks p2 = []" using finalize_fields(1) [OF f] p1(2) by simp
  moreover have "completed_objects p2 = [] \<or> set (completed_objects p2) = worked \<and> env \<noteq> txn_ok" using settles(3,4) p1(4) by metis
  ultimately show ?thesis using settles(1,2)
    by (intro exI [of _ "snd (emit_metrics names finished p2)"] exI [of _ q2])
      (auto simp: drain_def p1(1) f emit_metrics_def Let_def)
qed

theorem drain_terminates_witness:
  "\<exists>p' q'. drain (\<lambda>s. s) (\<lambda>_. (''s'', [])) (\<lambda>_ _. Some handler_metrics_default) (\<lambda>i. int i) txn_ok 9 demo_processor
       [\<lparr>object_id = ''a'', processed_by = Some ''p'', processing_started_at = 1\<rparr>,
        \<lparr>object_id = ''?'', processed_by = Some ''p'', processing_started_at = 1\<rparr>] = Some (p', q') \<and>
     object_tasks p' = [] \<and> completed_objects p' = [] \<and> \<lparr>object_id = ''?'', processed_by = Some ''p'', processing_started_at = 1\<rparr> \<in> set q' \<and>
     \<lparr>object_id = ''a'', processed_by = Some ''p'', processing_started_at = 1\<rparr> \<notin> set q'"
proof -
  let ?q = "[\<lparr>object_id = ''a'', processed_by = Some ''p'', processing_started_at = 1\<rparr>,
        \<lparr>object_id = ''?'', processed_by = Some ''p'', processing_started_at = 1\<rparr>]"
  have w: "processor_id demo_processor = ''p''" "set (completed_objects demo_processor) \<union> task_object ` set (object_tasks demo_processor) = {''a''}"
    by (simp_all add: demo_processor_def new_processor_def)
  obtain p' q' where d: "drain (\<lambda>s. s) (\<lambda>_. (''s'', [])) (\<lambda>_ _. Some handler_metrics_default) (\<lambda>i. int i) txn_ok 9 demo_processor ?q = Some (p', q')"
      "object_tasks p' = []" "completed_objects p' = []" and "settled ''p'' {''a''} ?q q'"
    using drain_terminates [of 0 demo_processor "\<lambda>_ _. Some handler_metrics_default" "\<lambda>s. s" "\<lambda>_. (''s'', [])" "\<lambda>i. int i" txn_ok 9 ?q]
    unfolding w by auto
  then have "r \<in> set q' \<longleftrightarrow> r \<in> set ?q \<and> object_id r \<noteq> ''a''" if "processed_by r = Some ''p''" for r
    using that by (simp add: settled_def)
  then show ?thesis using d by (intro exI [of _ p'] exI [of _ q']) simp
qed

end
