(* ===== verification/Controller_World.thy ===== *)
theory Controller_World
  imports State_Processor Device_Ids
begin

section \<open>Several state controllers on one queue\<close>

text \<open>
  Every API server runs a processor for each type of object; all of them work on one queue
  (\<^verbatim>\<open>state-controller/src/controller.rs\<close>).  This theory interleaves the operations of the
  processors: a step is one operation of one processor, of the enqueuer, a handler that returns,
  a server that starts or dies, or time that passes.

  Time is one clock for the database and the servers.  It does not pass the point at which
  the timeout of a running handler fires (\<^verbatim>\<open>tokio::time::timeout\<close> in \<^verbatim>\<open>process_object\<close>), which is all
  that is assumed of handlers.  All servers have the same configuration.
\<close>

subsection \<open>States and steps\<close>

record ('o, 's) world =
  w_clock :: datetime
  w_queue :: queue
  w_processors :: "('o, 's) state_processor list"

definition init_world :: "('o, 's) world" where
  "init_world = \<lparr>w_clock = 0, w_queue = [], w_processors = []\<rparr>"

definition may_run_until :: "iteration_config \<Rightarrow> ('o, 's) world \<Rightarrow> datetime \<Rightarrow> bool" where
  "may_run_until cfg w time \<longleftrightarrow>
     (\<forall>p\<in>set (w_processors w). \<forall>t\<in>set (object_tasks p). task_result t = None \<longrightarrow> time \<le> task_started t + max_object_handling_time cfg)"

text \<open>
  \<open>claim_ok\<close> is a condition on a processor that is about to claim objects; the program claims
  under no condition.
\<close>

inductive step ::
  "('o \<Rightarrow> string) \<Rightarrow> (string \<Rightarrow> 'o option) \<Rightarrow> ('o \<Rightarrow> bool) \<Rightarrow> iteration_config \<Rightarrow> (('o, 's) world \<Rightarrow> ('o, 's) state_processor \<Rightarrow> bool)
    \<Rightarrow> ('o, 's) world \<Rightarrow> ('o, 's) world \<Rightarrow> bool"
  for show_id parse_id valid_id cfg claim_ok where
  tick: "0 \<le> d \<Longrightarrow> may_run_until cfg w (w_clock w + d) \<Longrightarrow>
    step show_id parse_id valid_id cfg claim_ok w (w\<lparr>w_clock := w_clock w + d\<rparr>)"
| enqueue: "list_all valid_id xs \<Longrightarrow> queue_objects fault (w_clock w) (map show_id xs) (w_queue w) = (Ok n, q') \<Longrightarrow>
    step show_id parse_id valid_id cfg claim_ok w (w\<lparr>w_queue := q'\<rparr>)"
| start: "pid \<notin> processor_id ` set (w_processors w) \<Longrightarrow>
    step show_id parse_id valid_id cfg claim_ok w (w\<lparr>w_processors := w_processors w @ [new_processor pid cfg (w_clock w)]\<rparr>)"
| dispatch: "w_processors w = ps @ p # ps' \<Longrightarrow> claim_ok w p \<Longrightarrow>
    dequeue_and_dispatch parse_id env (w_clock w) locked p (w_queue w) = (res, p', q') \<Longrightarrow>
    step show_id parse_id valid_id cfg claim_ok w (w\<lparr>w_processors := ps @ p' # ps', w_queue := q'\<rparr>)"
| finish: "w_processors w = ps @ p # ps' \<Longrightarrow>
    step show_id parse_id valid_id cfg claim_ok w (w\<lparr>w_processors := ps @ finish_tasks f p # ps'\<rparr>)"
| collect: "w_processors w = ps @ p # ps' \<Longrightarrow> wait_and_process allow_requeue (w_clock w) p = (n, p') \<Longrightarrow>
    step show_id parse_id valid_id cfg claim_ok w (w\<lparr>w_processors := ps @ p' # ps'\<rparr>)"
| finalize: "w_processors w = ps @ p # ps' \<Longrightarrow>
    finalize_completed_objects show_id env (w_clock w) p (w_queue w) = (res, p', q') \<Longrightarrow>
    step show_id parse_id valid_id cfg claim_ok w (w\<lparr>w_processors := ps @ p' # ps', w_queue := q'\<rparr>)"
| report: "w_processors w = ps @ p # ps' \<Longrightarrow> p' = emit_periodic_log_if_necessary (w_clock w) (emit_metrics_if_necessary names (w_clock w) p) \<Longrightarrow>
    step show_id parse_id valid_id cfg claim_ok w (w\<lparr>w_processors := ps @ p' # ps'\<rparr>)"
| crash: "w_processors w = ps @ p # ps' \<Longrightarrow>
    step show_id parse_id valid_id cfg claim_ok w (w\<lparr>w_processors := ps @ ps'\<rparr>)"

inductive reachable ::
  "('o \<Rightarrow> string) \<Rightarrow> (string \<Rightarrow> 'o option) \<Rightarrow> ('o \<Rightarrow> bool) \<Rightarrow> iteration_config \<Rightarrow> (('o, 's) world \<Rightarrow> ('o, 's) state_processor \<Rightarrow> bool)
    \<Rightarrow> ('o, 's) world \<Rightarrow> bool"
  for show_id parse_id valid_id cfg claim_ok where
  init: "reachable show_id parse_id valid_id cfg claim_ok init_world"
| step: "reachable show_id parse_id valid_id cfg claim_ok w \<Longrightarrow> step show_id parse_id valid_id cfg claim_ok w w' \<Longrightarrow>
    reachable show_id parse_id valid_id cfg claim_ok w'"

subsection \<open>What the controllers owe\<close>

text \<open>
  The objects whose handler runs somewhere, with repetitions; the objects a processor has handled
  and not yet settled; and the condition that it still has the lease of all of these.
\<close>

definition running :: "('o, 's) world \<Rightarrow> 'o list" where
  "running w = concat (map running_objects (w_processors w))"

definition unsettled :: "('o, 's) state_processor \<Rightarrow> 'o set" where
  "unsettled p = set (completed_objects p) \<union> set (finished_objects p)"

definition leases_unsettled :: "('o \<Rightarrow> string) \<Rightarrow> iteration_config \<Rightarrow> ('o, 's) world \<Rightarrow> ('o, 's) state_processor \<Rightarrow> bool" where
  "leases_unsettled show_id cfg w p \<longleftrightarrow>
     (\<forall>x\<in>unsettled p. \<exists>since. owns (processor_id p) (show_id x) since (w_queue w) \<and> w_clock w \<le> since + lease cfg)"

definition processor_inv ::
  "('o \<Rightarrow> string) \<Rightarrow> ('o \<Rightarrow> bool) \<Rightarrow> iteration_config \<Rightarrow> datetime \<Rightarrow> queue \<Rightarrow> ('o, 's) state_processor \<Rightarrow> bool" where
  "processor_inv show_id valid_id cfg now q p \<longleftrightarrow>
     iteration_config p = cfg \<and>
     (\<forall>t\<in>set (object_tasks p). valid_id (task_object t)) \<and> (\<forall>x\<in>set (completed_objects p). valid_id x) \<and>
     set (requeue_objects p) \<subseteq> set (completed_objects p) \<and>
     (\<forall>t\<in>set (object_tasks p). task_result t = None \<longrightarrow>
        now \<le> task_started t + max_object_handling_time cfg \<and> owns (processor_id p) (show_id (task_object t)) (task_started t) q) \<and>
     distinct (running_objects p) \<and> set (running_objects p) \<inter> unsettled p = {}"

definition world_inv :: "('o \<Rightarrow> string) \<Rightarrow> ('o \<Rightarrow> bool) \<Rightarrow> iteration_config \<Rightarrow> ('o, 's) world \<Rightarrow> bool" where
  "world_inv show_id valid_id cfg w \<longleftrightarrow>
     queue_ok (w_queue w) \<and> (\<forall>r\<in>set (w_queue w). \<exists>x. valid_id x \<and> object_id r = show_id x) \<and>
     distinct (map processor_id (w_processors w)) \<and>
     (\<forall>p\<in>set (w_processors w). processor_inv show_id valid_id cfg (w_clock w) (w_queue w) p)"

text \<open>A small instance: one processor, one rack.\<close>

definition rack_row :: "string option \<Rightarrow> queued_object" where
  "rack_row by = \<lparr>object_id = ''r1'', processed_by = by, processing_started_at = 0\<rparr>"

definition demo_p :: "(rack_id, nat) state_processor" where
  "demo_p = new_processor ''p'' iteration_config_default 0"

definition solo :: "queue \<Rightarrow> ('o, 's) state_processor \<Rightarrow> ('o, 's) world" where
  "solo q p = \<lparr>w_clock = 0, w_queue = q, w_processors = [p]\<rparr>"

definition run_task :: "(rack_id, nat) object_task" where
  "run_task = \<lparr>task_object = RackId ''r1'', task_started = 0, task_result = None\<rparr>"



lemma owns_in: "owns pid oid since q \<longleftrightarrow> (\<exists>r\<in>set q. object_id r = oid \<and> processed_by r = Some pid \<and> processing_started_at r = since)"
proof
  assume "owns pid oid since q"
  then show "\<exists>r\<in>set q. object_id r = oid \<and> processed_by r = Some pid \<and> processing_started_at r = since"
    unfolding owns_def by (rule rev_bexI) simp
next
  assume "\<exists>r\<in>set q. object_id r = oid \<and> processed_by r = Some pid \<and> processing_started_at r = since"
  then obtain r where r: "r \<in> set q" "object_id r = oid" "processed_by r = Some pid" "processing_started_at r = since" by blast
  have "r = \<lparr>object_id = oid, processed_by = Some pid, processing_started_at = since\<rparr>" using r(2-4) by (cases r) simp
  with r(1) show "owns pid oid since q" by (simp add: owns_def)
qed

lemma owns_not_dequeued:
  assumes "queue_ok q" "owns pid oid since q" "now \<le> since + mo"
  shows "oid \<notin> set (dequeued_ids now mo locked n q)"
proof
  assume "oid \<in> set (dequeued_ids now mo locked n q)"
  then obtain r where r: "r \<in> set q" "object_id r = oid" "dequeuable now mo r" using dequeued_ids_in by blast
  from assms(2) r(1,2) queue_ok_key [OF assms(1)] have "processed_by r = Some pid" "processing_started_at r = since"
    by (auto simp: owns_in)
  with r(3) assms(3) show False by (simp add: dequeuable_def)
qed

lemma owns_claim:
  assumes "owns pid oid since q" "oid \<notin> set ids"
  shows "owns pid oid since (map (claim pid' now ids) q)"
proof -
  obtain r where "r \<in> set q" "object_id r = oid" "processed_by r = Some pid" "processing_started_at r = since"
    using assms(1) by (auto simp: owns_in)
  then show ?thesis using assms(2) unfolding owns_in set_map by (intro bexI [of _ "claim pid' now ids r"]) (auto simp: claim_def)
qed

lemma owns_claimed:
  assumes "oid \<in> set ids" "oid \<in> object_id ` set q"
  shows "owns pid oid now (map (claim pid now ids) q)"
proof -
  obtain r where "r \<in> set q" "object_id r = oid" using assms(2) by auto
  then show ?thesis using assms(1) unfolding owns_in set_map by (intro bexI [of _ "claim pid now ids r"]) (auto simp: claim_def)
qed

lemma running_objects_set: "x \<in> set (running_objects p) \<longleftrightarrow> (\<exists>t\<in>set (object_tasks p). task_result t = None \<and> task_object t = x)"
  by (auto simp: running_objects_def)

lemma finished_objects_set: "x \<in> set (finished_objects p) \<longleftrightarrow> (\<exists>t\<in>set (object_tasks p). task_result t \<noteq> None \<and> task_object t = x)"
  by (auto simp: finished_objects_def)

text \<open>A processor keeps its part of the invariant when the queue changes but its rows stay.\<close>

lemma processor_inv_queue:
  assumes "processor_inv show_id valid_id cfg now q p"
    and "\<And>oid since. owns (processor_id p) oid since q \<Longrightarrow> (\<exists>x\<in>set (running_objects p). oid = show_id x) \<Longrightarrow>
      now \<le> since + max_object_handling_time cfg \<Longrightarrow> owns (processor_id p) oid since q'"
  shows "processor_inv show_id valid_id cfg now q' p"
proof -
  have "owns (processor_id p) (show_id (task_object t)) (task_started t) q'" if "t \<in> set (object_tasks p)" "task_result t = None" for t
  proof (rule assms(2))
    show "owns (processor_id p) (show_id (task_object t)) (task_started t) q" "now \<le> task_started t + max_object_handling_time cfg"
      using assms(1) that by (auto simp: processor_inv_def)
    show "\<exists>x\<in>set (running_objects p). show_id (task_object t) = show_id x"
      using that by (intro bexI [of _ "task_object t"]) (auto simp: running_objects_set)
  qed
  with assms(1) show ?thesis by (simp add: processor_inv_def)
qed

lemma owns_subset: "set q \<subseteq> set q' \<Longrightarrow> owns pid oid since q \<Longrightarrow> owns pid oid since q'"
  by (auto simp: owns_def)

lemma lease_covers: "0 \<le> max_object_handling_time cfg \<Longrightarrow> now \<le> since + max_object_handling_time cfg \<Longrightarrow> now \<le> since + lease cfg"
  by (simp add: lease_def)

lemma world_inv_split:
  "world_inv show_id valid_id cfg w \<Longrightarrow> w_processors w = ps @ p # ps' \<Longrightarrow>
    processor_inv show_id valid_id cfg (w_clock w) (w_queue w) p \<and>
    (\<forall>p'\<in>set ps \<union> set ps'. processor_inv show_id valid_id cfg (w_clock w) (w_queue w) p' \<and> processor_id p' \<noteq> processor_id p)"
  by (simp add: world_inv_def image_iff) (metis Un_iff)

lemma world_inv_replace:
  assumes "world_inv show_id valid_id cfg w" "w_processors w = ps @ p # ps'"
    and "processor_id p' = processor_id p"
    and "queue_ok q'" "\<forall>r\<in>set q'. \<exists>x. valid_id x \<and> object_id r = show_id x"
    and "processor_inv show_id valid_id cfg (w_clock w) q' p'"
    and "\<And>p1. p1 \<in> set ps \<union> set ps' \<Longrightarrow> processor_inv show_id valid_id cfg (w_clock w) q' p1"
  shows "world_inv show_id valid_id cfg (w\<lparr>w_processors := ps @ p' # ps', w_queue := q'\<rparr>)"
  using assms by (auto simp: world_inv_def)

lemma world_inv_local_step:
  assumes "world_inv show_id valid_id cfg w" "w_processors w = ps @ p # ps'" "processor_id p' = processor_id p"
    and "processor_inv show_id valid_id cfg (w_clock w) (w_queue w) p \<Longrightarrow> processor_inv show_id valid_id cfg (w_clock w) (w_queue w) p'"
  shows "world_inv show_id valid_id cfg (w\<lparr>w_processors := ps @ p' # ps'\<rparr>)"
  using assms by (auto simp: world_inv_def)

lemma new_processor_inv: "processor_inv show_id valid_id cfg now q (new_processor pid cfg at)"
  by (simp add: processor_inv_def new_processor_def running_objects_def)

lemma tick_inv:
  assumes "world_inv show_id valid_id cfg w" "0 \<le> d" "may_run_until cfg w (w_clock w + d)"
  shows "world_inv show_id valid_id cfg (w\<lparr>w_clock := w_clock w + d\<rparr>)"
  using assms by (auto simp: world_inv_def may_run_until_def processor_inv_def)

lemma finish_running: "t \<in> set (object_tasks (finish_tasks f p)) \<and> task_result t = None \<Longrightarrow> t \<in> set (object_tasks p)"
  by (auto simp: finish_tasks_def unchanged_result split: if_splits)

lemma finish_distinct:
  assumes "distinct (running_objects p)" "set (running_objects p) \<inter> unsettled p = {}"
  shows "distinct (running_objects (finish_tasks f p))" "set (running_objects (finish_tasks f p)) \<inter> unsettled (finish_tasks f p) = {}"
proof -
  have gen: "distinct (map task_object (filter (\<lambda>t. task_result t = None) (map (\<lambda>t. if task_result t = None then t\<lparr>task_result := f t\<rparr> else t) ts))) \<and>
      set (map task_object (filter (\<lambda>t. task_result t = None) (map (\<lambda>t. if task_result t = None then t\<lparr>task_result := f t\<rparr> else t) ts))) \<inter>
      set (map task_object (filter (\<lambda>t. task_result t \<noteq> None) (map (\<lambda>t. if task_result t = None then t\<lparr>task_result := f t\<rparr> else t) ts))) = {} \<and>
      set (map task_object (filter (\<lambda>t. task_result t = None) (map (\<lambda>t. if task_result t = None then t\<lparr>task_result := f t\<rparr> else t) ts))) \<subseteq>
      set (map task_object (filter (\<lambda>t. task_result t = None) ts))"
    if "distinct (map task_object (filter (\<lambda>t. task_result t = None) ts))"
      "set (map task_object (filter (\<lambda>t. task_result t = None) ts)) \<inter> set (map task_object (filter (\<lambda>t. task_result t \<noteq> None) ts)) = {}" for ts
    using that by (induction ts) (auto split: if_splits)
  show "distinct (running_objects (finish_tasks f p))"
    "set (running_objects (finish_tasks f p)) \<inter> unsettled (finish_tasks f p) = {}"
    using gen [of "object_tasks p"] assms unfolding running_objects_def finished_objects_def unsettled_def finish_tasks_fields
    by (auto simp: finish_tasks_def)
qed

lemma claim_none [simp]: "map (claim pid now []) q = q"
  by (simp add: claim_def map_idI)

lemma acquire_txn_queue:
  assumes "acquire_txn env now locked cap pid mo q = (res, q')"
  shows "\<exists>n. q' = map (claim pid now (dequeued_ids now mo locked n q)) q \<and>
    (\<forall>rs. res = Ok rs \<longrightarrow> rs = filter (\<lambda>r. object_id r \<in> set (dequeued_ids now mo locked n q)) q')"
proof -
  let ?n = "min cap (2 ^ 32 - 1)"
  have none: "dequeued_ids now mo locked 0 q = []" by (simp add: dequeued_ids_def)
  have acq: "acquire_queued_objects fault now locked ?n pid mo q = (r, q1) \<Longrightarrow>
      (\<exists>e. r = Err e) \<or> q1 = map (claim pid now (dequeued_ids now mo locked ?n q)) q \<and>
      r = Ok (filter (\<lambda>r. object_id r \<in> set (dequeued_ids now mo locked ?n q)) q1)" for fault r q1
    by (auto simp: acquire_queued_objects_def Let_def split: option.splits)
  consider "q' = q" "res = Ok []" | e where "q' = q" "res = Err e"
    | r where "acquire_queued_objects (call_fault env 0) now locked ?n pid mo q = (Ok r, q')" "res = Ok r \<or> (\<exists>e. res = Err e)"
    using assms by (auto simp: acquire_txn_def commit_def split: if_splits option.splits sum.splits prod.splits commit_outcome.splits)
  then show ?thesis
  proof cases
    case 1
    then show ?thesis by (intro exI [of _ 0]) (simp add: none)
  next
    case 2
    then show ?thesis by (intro exI [of _ 0]) (simp add: none)
  next
    case 3
    then show ?thesis using acq [OF 3(1)] by (intro exI [of _ ?n]) auto
  qed
qed

lemma collect_unsettled: "unsettled (snd (wait_and_process b now p)) = unsettled p"
  by (auto simp: unsettled_def wait_and_process_completed finished_objects_def)

lemma collect_running: "running_objects (snd (wait_and_process b now p)) = running_objects p"
  by (simp add: running_objects_def)

lemma requeue_subset:
  "set (requeue_objects p) \<subseteq> set (completed_objects p) \<Longrightarrow>
    set (requeue_objects (fold (process_object_handling_task_result b at) rs p)) \<subseteq> set (completed_objects (fold (process_object_handling_task_result b at) rs p))"
proof (induction rs arbitrary: p)
  case (Cons r rs)
  have "set (requeue_objects (process_object_handling_task_result b at r p)) \<subseteq> set (completed_objects (process_object_handling_task_result b at r p))"
    using Cons.prems by (cases r) (auto simp: process_object_handling_task_result_def Let_def)
  then show ?case unfolding fold_Cons comp_apply by (rule Cons.IH)
qed simp

lemma collect_requeue:
  "set (requeue_objects p) \<subseteq> set (completed_objects p) \<Longrightarrow>
    set (requeue_objects (snd (wait_and_process b now p))) \<subseteq> set (completed_objects (snd (wait_and_process b now p)))"
  unfolding wait_and_process_def Let_def snd_conv by (rule requeue_subset) simp

lemma collect_inv:
  assumes "processor_inv show_id valid_id cfg now q p"
  shows "processor_inv show_id valid_id cfg now q (snd (wait_and_process b at p))"
proof -
  have "set (requeue_objects (snd (wait_and_process b at p))) \<subseteq> set (completed_objects (snd (wait_and_process b at p)))"
    using assms by (intro collect_requeue) (simp add: processor_inv_def)
  moreover have "valid_id x" if "x \<in> set (completed_objects (snd (wait_and_process b at p)))" for x
    using that assms by (auto simp: processor_inv_def wait_and_process_completed finished_objects_set)
  ultimately show ?thesis using assms unfolding processor_inv_def collect_running collect_unsettled by simp
qed

lemma finish_inv:
  assumes "processor_inv show_id valid_id cfg now q p"
  shows "processor_inv show_id valid_id cfg now q (finish_tasks f p)"
proof -
  have "valid_id (task_object t)" if "t \<in> set (object_tasks (finish_tasks f p))" for t
  proof -
    have "task_object t \<in> task_object ` set (object_tasks p)" using that finish_tasks_objects [of f p] by blast
    then show ?thesis using assms by (auto simp: processor_inv_def)
  qed
  then show ?thesis using assms finish_running [of _ f p] finish_distinct [of p f] unfolding processor_inv_def by auto
qed

lemma report_inv:
  assumes "processor_inv show_id valid_id cfg now q p"
  shows "processor_inv show_id valid_id cfg now q (emit_periodic_log_if_necessary at (emit_metrics_if_necessary names at p))"
  using assms by (auto simp: processor_inv_def emit_periodic_log_if_necessary_def emit_metrics_if_necessary_def emit_metrics_def Let_def
    running_objects_def unsettled_def finished_objects_def)

context object_ids
begin

lemma parse_rows:
  assumes "\<forall>r\<in>set rs. \<exists>x. valid_id x \<and> object_id r = show_id x"
  shows "map show_id (List.map_filter (\<lambda>r. parse_id (object_id r)) rs) = map object_id rs"
    "\<forall>x\<in>set (List.map_filter (\<lambda>r. parse_id (object_id r)) rs). valid_id x"
  using assms by (induction rs) (auto simp: map_filter_simps parse_show)

lemma running_not_claimed:
  assumes "world_inv show_id valid_id cfg w" "0 \<le> max_object_handling_time cfg" "p \<in> set (w_processors w)" "x \<in> set (running_objects p)"
  shows "show_id x \<notin> set (dequeued_ids (w_clock w) (lease cfg) locked n (w_queue w))"
proof -
  obtain t where t: "t \<in> set (object_tasks p)" "task_result t = None" "task_object t = x" using assms(4) by (auto simp: running_objects_set)
  have "owns (processor_id p) (show_id x) (task_started t) (w_queue w)" "w_clock w \<le> task_started t + max_object_handling_time cfg"
    using assms(1,3) t by (auto simp: world_inv_def processor_inv_def)
  with assms(1,2) show ?thesis using owns_not_dequeued lease_covers unfolding world_inv_def by blast
qed

lemma claim_keeps_inv:
  assumes "world_inv show_id valid_id cfg w" "0 \<le> max_object_handling_time cfg" "p1 \<in> set (w_processors w)"
  shows "processor_inv show_id valid_id cfg (w_clock w)
    (map (claim pid now (dequeued_ids (w_clock w) (lease cfg) locked n (w_queue w))) (w_queue w)) p1"
proof (rule processor_inv_queue)
  show "processor_inv show_id valid_id cfg (w_clock w) (w_queue w) p1" using assms(1,3) by (auto simp: world_inv_def)
  show "owns (processor_id p1) oid since (map (claim pid now (dequeued_ids (w_clock w) (lease cfg) locked n (w_queue w))) (w_queue w))"
    if "owns (processor_id p1) oid since (w_queue w)" "\<exists>x\<in>set (running_objects p1). oid = show_id x" for oid since
    using that running_not_claimed [OF assms] owns_claim by metis
qed

lemma dispatch_inv:
  assumes inv: "world_inv show_id valid_id cfg w" and H: "0 \<le> max_object_handling_time cfg"
    and ps: "w_processors w = ps @ p # ps'" and ok: "leases_unsettled show_id cfg w p"
    and d: "dequeue_and_dispatch parse_id env (w_clock w) locked p (w_queue w) = (res, p', q')"
  shows "world_inv show_id valid_id cfg (w\<lparr>w_processors := ps @ p' # ps', w_queue := q'\<rparr>)"
proof -
  let ?now = "w_clock w" and ?q = "w_queue w" and ?pid = "processor_id p"
  have pin: "p \<in> set (w_processors w)" and cfg: "iteration_config p = cfg" using inv ps by (auto simp: world_inv_def processor_inv_def)
  obtain r q1 where a: "acquire_txn env ?now locked (remaining_capacity p) ?pid (lease cfg) ?q = (r, q1)" by fastforce
  obtain n where n: "q1 = map (claim ?pid ?now (dequeued_ids ?now (lease cfg) locked n ?q)) ?q"
      "\<And>rs. r = Ok rs \<Longrightarrow> rs = filter (\<lambda>r. object_id r \<in> set (dequeued_ids ?now (lease cfg) locked n ?q)) q1"
    using acquire_txn_queue [OF a] by blast
  let ?ids = "dequeued_ids ?now (lease cfg) locked n ?q"
  have q': "q' = q1" using d a cfg by (auto simp: dequeue_and_dispatch_def Let_def split: sum.splits)
  have qok: "queue_ok ?q" and rows: "\<forall>r\<in>set ?q. \<exists>x. valid_id x \<and> object_id r = show_id x" using inv by (auto simp: world_inv_def)
  have q1: "queue_ok q1" "\<forall>r\<in>set q1. \<exists>x. valid_id x \<and> object_id r = show_id x"
    using qok rows by (auto simp: n(1) queue_ok_def comp_def)
  have keep: "processor_inv show_id valid_id cfg ?now q1 p1" if "p1 \<in> set (w_processors w)" for p1
    unfolding n(1) by (rule claim_keeps_inv [OF inv H that])
  have "processor_inv show_id valid_id cfg ?now q1 p'"
  proof (cases r)
    case (Inl e)
    then show ?thesis using d a cfg keep [OF pin] by (simp add: dequeue_and_dispatch_def)
  next
    case (Inr rs)
    define xs where "xs = List.map_filter (\<lambda>r. parse_id (object_id r)) rs"
    have rs: "rs = filter (\<lambda>r. object_id r \<in> set ?ids) q1" by (rule n(2) [OF Inr])
    have xs: "map show_id xs = map object_id rs" "\<forall>x\<in>set xs. valid_id x"
      using parse_rows [of rs] q1(2) unfolding xs_def rs by auto
    have in_ids: "show_id x \<in> set ?ids" if "x \<in> set xs" for x
    proof -
      have "show_id x \<in> set (map object_id rs)" using that unfolding xs(1) [symmetric] by simp
      then show ?thesis unfolding rs by auto
    qed
    have "distinct (map show_id xs)" unfolding xs(1) rs using q1(1) by (simp add: queue_ok_def distinct_map_filter)
    then have dist: "distinct xs" by (simp add: distinct_map)
    have new_run: "set (running_objects p) \<inter> set xs = {}" using running_not_claimed [OF inv H pin] in_ids by blast
    have new_uns: "unsettled p \<inter> set xs = {}"
    proof -
      have "show_id x \<notin> set ?ids" if "x \<in> unsettled p" for x
        using ok that owns_not_dequeued [OF qok] unfolding leases_unsettled_def by blast
      then show ?thesis using in_ids by blast
    qed
    have own: "owns ?pid (show_id x) ?now q1" if "x \<in> set xs" for x
      unfolding n(1) by (rule owns_claimed [OF in_ids [OF that]]) (metis dequeued_ids_in [OF in_ids [OF that]] imageI)
    have p': "object_tasks p' = object_tasks p @ map (\<lambda>x. \<lparr>task_object = x, task_started = ?now, task_result = None\<rparr>) xs"
      using d a cfg Inr by (auto simp: dequeue_and_dispatch_def Let_def xs_def)
    have "running_objects p' = running_objects p @ xs" "finished_objects p' = finished_objects p"
      unfolding running_objects_def finished_objects_def p' by (simp_all add: comp_def filter_map)
    moreover note dequeue_fields [OF d]
    ultimately show ?thesis using keep [OF pin] xs(2) dist new_run new_uns own H p'
      unfolding processor_inv_def unsettled_def by auto
  qed
  then show ?thesis unfolding q' using world_inv_replace [OF inv ps dequeue_fields(5) [OF d] q1] keep ps by simp
qed

lemma finalize_inv:
  assumes inv: "world_inv show_id valid_id cfg w" and ps: "w_processors w = ps @ p # ps'"
    and f: "finalize_completed_objects show_id env (w_clock w) p (w_queue w) = (res, p', q')"
  shows "world_inv show_id valid_id cfg (w\<lparr>w_processors := ps @ p' # ps', w_queue := q'\<rparr>)"
proof -
  let ?q = "w_queue w" and ?now = "w_clock w" and ?done = "show_id ` set (completed_objects p)"
  let ?kept = "filter (\<lambda>r. \<not> (object_id r \<in> ?done \<and> processed_by r = Some (processor_id p))) ?q"
  let ?q2 = "snd (fold (insert_queued ?now) (sort (map show_id (requeue_objects p))) (0, ?kept))"
  have qok: "queue_ok ?q" and rows: "\<forall>r\<in>set ?q. \<exists>x. valid_id x \<and> object_id r = show_id x" using inv by (auto simp: world_inv_def)
  have pin: "processor_inv show_id valid_id cfg ?now ?q p" and others: "\<And>p1. p1 \<in> set ps \<union> set ps' \<Longrightarrow>
      processor_inv show_id valid_id cfg ?now ?q p1 \<and> processor_id p1 \<noteq> processor_id p"
    using world_inv_split [OF inv ps] by auto
  have q': "q' = ?q \<or> q' = ?q2" using f finalize_txn_queue [of env ?now "map show_id (completed_objects p)" "map show_id (requeue_objects p)" "processor_id p" ?q]
    by (auto simp: finalize_completed_objects_def Let_def split: if_splits prod.splits sum.splits)
  have kept: "queue_ok (snd (0 :: nat, ?kept))" using qok by (simp add: queue_ok_def distinct_map_filter)
  note fold = fold_insert_queued(1,2) [OF kept, of ?now "sort (map show_id (requeue_objects p))"]
  have q'ok: "queue_ok q'" using q' qok fold(1) by auto
  have "\<forall>r\<in>set ?q2. \<exists>x. valid_id x \<and> object_id r = show_id x"
    using fold_insert_queued_new rows pin by (fastforce simp: processor_inv_def)
  then have q'rows: "\<forall>r\<in>set q'. \<exists>x. valid_id x \<and> object_id r = show_id x" using q' rows by auto
  have own: "owns pid oid since q'" if "owns pid oid since ?q" "oid \<notin> ?done \<or> pid \<noteq> processor_id p" for pid oid since
  proof -
    have "owns pid oid since ?kept" using that by (auto simp: owns_def)
    then show ?thesis using that(1) q' owns_subset [OF fold(2) [unfolded snd_conv]] by auto
  qed
  have apart: "show_id x \<notin> ?done" if "x \<in> set (running_objects p)" for x
  proof
    assume "show_id x \<in> ?done"
    then obtain y where y: "y \<in> set (completed_objects p)" "show_id x = show_id y" by auto
    then have "x = y" using show_inj [of x y] that pin by (auto simp: processor_inv_def running_objects_set)
    with y(1) that pin show False by (auto simp: processor_inv_def unsettled_def)
  qed
  note fields = finalize_fields [OF f]
  have uns: "unsettled p' \<subseteq> unsettled p" "running_objects p' = running_objects p"
    using fields(1,5) by (auto simp: unsettled_def finished_objects_def running_objects_def)
  have "processor_inv show_id valid_id cfg ?now q' p"
    by (rule processor_inv_queue [OF pin]) (use own apart in auto)
  then have "processor_inv show_id valid_id cfg ?now q' p'"
    using fields uns by (auto simp: processor_inv_def)
  moreover have "processor_inv show_id valid_id cfg ?now q' p1" if "p1 \<in> set ps \<union> set ps'" for p1
    using others [OF that] own by (intro processor_inv_queue [of show_id valid_id cfg ?now ?q p1 q']) auto
  ultimately show ?thesis by (intro world_inv_replace [OF inv ps fields(3) q'ok q'rows]) auto
qed

lemma enqueue_inv:
  assumes inv: "world_inv show_id valid_id cfg w" and xs: "list_all valid_id xs"
    and e: "queue_objects fault (w_clock w) (map show_id xs) (w_queue w) = (Ok n, q')"
  shows "world_inv show_id valid_id cfg (w\<lparr>w_queue := q'\<rparr>)"
proof -
  have q': "q' = snd (fold (insert_queued (w_clock w)) (sort (map show_id xs)) (0, w_queue w))" by (rule queue_objects_Ok [OF e])
  have ok: "queue_ok (w_queue w)" using inv by (simp add: world_inv_def)
  have "queue_ok q'" "set (w_queue w) \<subseteq> set q'" using queue_objects_ok [OF ok, of fault "w_clock w" "map show_id xs"] e by auto
  moreover have "\<exists>x. valid_id x \<and> object_id r = show_id x" if "r \<in> set q'" for r
    using fold_insert_queued_new [OF that [unfolded q']] inv xs by (auto simp: world_inv_def list_all_iff)
  moreover have "processor_inv show_id valid_id cfg (w_clock w) q' p" if "p \<in> set (w_processors w)" for p
    using processor_inv_queue owns_subset [OF calculation(2)] inv that unfolding world_inv_def by blast
  ultimately show ?thesis using inv by (simp add: world_inv_def)
qed

lemma step_inv:
  assumes "step show_id parse_id valid_id cfg (leases_unsettled show_id cfg) w w'" "world_inv show_id valid_id cfg w"
    and "0 \<le> max_object_handling_time cfg"
  shows "world_inv show_id valid_id cfg w'"
  using assms(1)
proof cases
  case (start pid)
  then show ?thesis using assms(2) by (auto simp: world_inv_def new_processor_inv) (auto simp: new_processor_def)
next
  case (finish ps p ps' f)
  show ?thesis unfolding finish(1) by (rule world_inv_local_step [OF assms(2) finish(2)]) (simp_all add: finish_inv)
next
  case (collect ps p ps' b n p')
  then have p': "p' = snd (wait_and_process b (w_clock w) p)" by simp
  show ?thesis unfolding collect(1) p' by (rule world_inv_local_step [OF assms(2) collect(2)]) (simp_all add: collect_inv)
next
  case (report ps p ps' p' names)
  have "processor_id p' = processor_id p"
    by (auto simp: report(3) emit_periodic_log_if_necessary_def emit_metrics_if_necessary_def emit_metrics_def Let_def)
  then show ?thesis unfolding report(1) by (rule world_inv_local_step [OF assms(2) report(2)]) (simp add: report(3) report_inv)
next
  case (dispatch ps p ps' env locked res p' q')
  show ?thesis unfolding dispatch(1) by (rule dispatch_inv [OF assms(2,3) dispatch(2-4)])
next
  case (finalize ps p ps' env res p' q')
  show ?thesis unfolding finalize(1) by (rule finalize_inv [OF assms(2) finalize(2,3)])
next
  case (crash ps p ps')
  then show ?thesis using assms(2) by (auto simp: world_inv_def)
qed (use assms tick_inv enqueue_inv in blast)+

lemma reachable_inv:
  assumes "reachable show_id parse_id valid_id cfg (leases_unsettled show_id cfg) w" "0 \<le> max_object_handling_time cfg"
  shows "world_inv show_id valid_id cfg w"
  using assms
proof (induction rule: reachable.induct)
  case init
  then show ?case by (simp add: world_inv_def init_world_def queue_ok_def)
next
  case (step w w')
  then show ?case using step_inv by blast
qed

lemma inv_running_distinct:
  assumes "world_inv show_id valid_id cfg w"
  shows "distinct (running w)"
proof -
  have owner: "x \<in> set (running_objects p) \<Longrightarrow> x \<in> set (running_objects p') \<Longrightarrow> processor_id p = processor_id p'"
    if "p \<in> set (w_processors w)" "p' \<in> set (w_processors w)" for p p' x
    using assms that owns_unique unfolding world_inv_def processor_inv_def running_objects_set by metis
  have "distinct (concat (map running_objects ps))" if "set ps \<subseteq> set (w_processors w)" "distinct (map processor_id ps)" for ps
    using that
  proof (induction ps)
    case (Cons p ps)
    have "distinct (running_objects p)" using assms Cons.prems by (auto simp: world_inv_def processor_inv_def)
    moreover have "set (running_objects p) \<inter> set (running_objects p') = {}" if "p' \<in> set ps" for p'
      using owner [of p p'] Cons.prems that by (auto simp: subset_iff)
    ultimately show ?case using Cons by auto
  qed simp
  then show ?thesis unfolding running_def using assms by (simp add: world_inv_def)
qed

end

lemma step_at:
  assumes "w_processors w = ps @ p # ps'"
  shows "ok w p \<Longrightarrow> dequeue_and_dispatch parse_id env (w_clock w) locked p (w_queue w) = (res, p', q') \<Longrightarrow>
      step show_id parse_id valid_id cfg ok w (w\<lparr>w_processors := ps @ p' # ps', w_queue := q'\<rparr>)"
    and "step show_id parse_id valid_id cfg ok w (w\<lparr>w_processors := ps @ finish_tasks f p # ps'\<rparr>)"
    and "step show_id parse_id valid_id cfg ok w (w\<lparr>w_processors := ps @ snd (wait_and_process b (w_clock w) p) # ps'\<rparr>)"
    and "finalize_completed_objects show_id env (w_clock w) p (w_queue w) = (res', p', q') \<Longrightarrow>
      step show_id parse_id valid_id cfg ok w (w\<lparr>w_processors := ps @ p' # ps', w_queue := q'\<rparr>)"
    and "step show_id parse_id valid_id cfg ok w
      (w\<lparr>w_processors := ps @ emit_periodic_log_if_necessary (w_clock w) (emit_metrics_if_necessary names (w_clock w) p) # ps'\<rparr>)"
  using assms by (auto intro: step.intros prod.collapse [symmetric])

text \<open>
  The steps are those of the program: an iteration of a processor that nothing interrupts is a
  run of the step relation from claiming to reporting, also when one of its transactions fails.\<close>

lemma iteration_is_a_run:
  assumes "w_processors w = ps @ p # ps'" "ok w p" "it_start env = w_clock w" "it_end env = w_clock w + d" "0 \<le> d"
    and "dequeue_and_dispatch parse_id (it_acquire env) (w_clock w) (it_locked env) p (w_queue w) = (r1, p1, q1)"
    and "may_run_until cfg (w\<lparr>w_processors := ps @ finish_tasks (it_finish env) p1 # ps'\<rparr>) (w_clock w + d)"
    and "run_single_iteration show_id parse_id names allow_requeue env p (w_queue w) = (res, p', q')"
  shows "\<exists>c. (step show_id parse_id valid_id cfg ok)\<^sup>*\<^sup>* w \<lparr>w_clock = c, w_queue = q', w_processors = ps @ p' # ps'\<rparr>"
proof -
  let ?S = "step show_id parse_id valid_id cfg ok" and ?c = "w_clock w + d"
  let ?w = "\<lambda>p q c. \<lparr>w_clock = c, w_queue = q, w_processors = ps @ p # ps'\<rparr>"
  have 1: "?S w (?w p1 q1 (w_clock w))" using step_at(1) [OF assms(1), where ok = ok, OF assms(2,6)] by (cases w) simp
  show ?thesis
  proof (cases r1)
    case (Inl e)
    then have "p' = p1" "q' = q1" using assms(3,6,8) by (auto simp: run_single_iteration_def)
    then show ?thesis using 1 by blast
  next
    case (Inr n)
    let ?pf = "finish_tasks (it_finish env) p1"
    let ?p2 = "snd (wait_and_process allow_requeue ?c ?pf)"
    obtain r3 p3 q3 where f: "finalize_completed_objects show_id (it_finalize env) ?c ?p2 q1 = (r3, p3, q3)" by (rule prod_cases3)
    have 2: "?S (?w p1 q1 (w_clock w)) (?w ?pf q1 (w_clock w))"
      using step_at(2) [of "?w p1 q1 (w_clock w)" ps p1 ps'] by simp
    have "?S (?w ?pf q1 (w_clock w)) ((?w ?pf q1 (w_clock w))\<lparr>w_clock := w_clock (?w ?pf q1 (w_clock w)) + d\<rparr>)"
      by (rule step.tick) (use assms(5,7) in \<open>simp_all add: may_run_until_def\<close>)
    then have 3: "?S (?w ?pf q1 (w_clock w)) (?w ?pf q1 ?c)" by simp
    have 4: "?S (?w ?pf q1 ?c) (?w ?p2 q1 ?c)" using step_at(3) [of "?w ?pf q1 ?c" ps ?pf ps'] by simp
    have 5: "?S (?w ?p2 q1 ?c) (?w p3 q3 ?c)" using step_at(4) [of "?w ?p2 q1 ?c" ps ?p2 ps'] f by simp
    have 6: "?S (?w p3 q3 ?c) (?w (emit_periodic_log_if_necessary ?c (emit_metrics_if_necessary names ?c p3)) q3 ?c)"
      using step_at(5) [of "?w p3 q3 ?c" ps p3 ps'] by simp
    have "q' = q3 \<and> (p' = p3 \<or> p' = emit_periodic_log_if_necessary ?c (emit_metrics_if_necessary names ?c p3))"
      using assms(3,4,6,8) f Inr unfolding run_single_iteration_def
      by (cases "wait_and_process allow_requeue ?c ?pf") (auto split: sum.splits)
    moreover have "?S\<^sup>*\<^sup>* w (?w p3 q3 ?c)"
      using 1 2 3 4 5 by (meson converse_rtranclp_into_rtranclp rtranclp.rtrancl_refl)
    ultimately show ?thesis using 6 rtranclp.rtrancl_into_rtrancl by fastforce
  qed
qed

text \<open>
  C1. At most one handler runs for an object, over all processors of all servers, whatever fails
  and however the servers interleave, start and die --- as long as a processor claims objects
  only while it has the lease of all objects it has handled and not settled.\<close>
theorem one_handler_per_object:
  assumes "\<And>x. valid_id x \<Longrightarrow> parse_id (show_id x) = Some x"
    and "0 \<le> max_object_handling_time cfg"
    and "reachable show_id parse_id valid_id cfg (leases_unsettled show_id cfg) w"
  shows "distinct (running w)"
proof -
  have "object_ids show_id parse_id valid_id" using assms(1) by (rule object_ids.intro)
  then show ?thesis using object_ids.inv_running_distinct object_ids.reachable_inv assms(2,3) by blast
qed

lemma demo_acquire:
  "acquire_queued_objects (\<lambda>_. None) 0 [] (Suc n) ''p'' mo [rack_row None] = (Ok [rack_row (Some ''p'')], [rack_row (Some ''p'')])"
  by (simp add: acquire_queued_objects_def dequeued_ids_def dequeuable_def claim_def rack_row_def Let_def)

lemma demo_dispatch:
  assumes "length (object_tasks p) < 10" "iteration_config p = iteration_config_default" "processor_id p = ''p''"
  shows "\<exists>res. dequeue_and_dispatch rack_id_from_str txn_ok 0 [] p [rack_row None] = (res,
    p\<lparr>object_tasks := object_tasks p @ [run_task],
      stats_since := (stats_since p)\<lparr>num_dispatched_tasks := num_dispatched_tasks (stats_since p) + 1\<rparr>\<rparr>, [rack_row (Some ''p'')])"
proof -
  obtain n where "remaining_capacity p = Suc n" using assms(1,2) 
    by (cases "remaining_capacity p") (auto simp: remaining_capacity_def iteration_config_default_def)
  moreover have "\<exists>m. min (Suc n) (2 ^ 32 - 1) = Suc m" by (cases n) (auto simp: min_def)
  ultimately show ?thesis using assms(3)
    by (auto simp: dequeue_and_dispatch_def acquire_txn_def txn_ok_def commit_def demo_acquire map_filter_simps Let_def
      rack_id_from_str_def dispatch_object_handling_task_def run_task_def) (auto simp: rack_row_def)
qed

lemma solo_steps:
  assumes "reachable show_id parse_id valid_id cfg ok (solo q p)"
  shows "list_all valid_id xs \<Longrightarrow> queue_objects fault 0 (map show_id xs) q = (Ok n, q') \<Longrightarrow>
      reachable show_id parse_id valid_id cfg ok (solo q' p)"
    and "ok (solo q p) p \<Longrightarrow> dequeue_and_dispatch parse_id env 0 locked p q = (res, p', q') \<Longrightarrow>
      reachable show_id parse_id valid_id cfg ok (solo q' p')"
    and "reachable show_id parse_id valid_id cfg ok (solo q (finish_tasks f p))"
    and "reachable show_id parse_id valid_id cfg ok (solo q (snd (wait_and_process b 0 p)))"
    and "finalize_completed_objects show_id env' 0 p q = (res', p'', q'') \<Longrightarrow>
      reachable show_id parse_id valid_id cfg ok (solo q'' p'')"
proof -
  note go = reachable.step [OF assms]
  show "reachable show_id parse_id valid_id cfg ok (solo q' p)"
    if "list_all valid_id xs" "queue_objects fault 0 (map show_id xs) q = (Ok n, q')"
    by (rule go) (use step.enqueue [where show_id = show_id and parse_id = parse_id and valid_id = valid_id and cfg = cfg and claim_ok = ok and w = "solo q p" and xs = xs and fault = fault and n = n and q' = q'] that in \<open>simp add: solo_def\<close>)
  show "reachable show_id parse_id valid_id cfg ok (solo q' p')"
    if "ok (solo q p) p" "dequeue_and_dispatch parse_id env 0 locked p q = (res, p', q')"
    by (rule go) (use step.dispatch [where show_id = show_id and parse_id = parse_id and valid_id = valid_id and cfg = cfg and claim_ok = ok and w = "solo q p" and ps = "[]" and p = p and ps' = "[]" and env = env and locked = locked and res = res and p' = p' and q' = q'] that in \<open>simp add: solo_def\<close>)
  show "reachable show_id parse_id valid_id cfg ok (solo q (finish_tasks f p))"
    by (rule go) (use step.finish [where show_id = show_id and parse_id = parse_id and valid_id = valid_id and cfg = cfg and claim_ok = ok and w = "solo q p" and ps = "[]" and p = p and ps' = "[]" and f = f] in \<open>simp add: solo_def\<close>)
  show "reachable show_id parse_id valid_id cfg ok (solo q (snd (wait_and_process b 0 p)))"
    by (rule go) (use step.collect [where show_id = show_id and parse_id = parse_id and valid_id = valid_id and cfg = cfg and claim_ok = ok and w = "solo q p" and ps = "[]" and p = p and ps' = "[]" and allow_requeue = b and n = "fst (wait_and_process b 0 p)" and p' = "snd (wait_and_process b 0 p)"] in \<open>simp add: solo_def\<close>)
  show "reachable show_id parse_id valid_id cfg ok (solo q'' p'')"
    if "finalize_completed_objects show_id env' 0 p q = (res', p'', q'')"
    by (rule go) (use step.finalize [where show_id = show_id and parse_id = parse_id and valid_id = valid_id and cfg = cfg and claim_ok = ok and w = "solo q p" and ps = "[]" and p = p and ps' = "[]" and env = env' and res = res' and p' = p'' and q' = q''] that in \<open>simp add: solo_def\<close>)
qed

lemma solo_start: "reachable show_id parse_id valid_id cfg ok (solo [] (new_processor pid cfg 0))"
  using reachable.step [OF reachable.init step.start [of pid]] by (simp add: solo_def init_world_def)

lemma demo_enqueue: "queue_objects (\<lambda>_. None) 0 (map rack_id_show [RackId ''r1'']) [] = (Ok 1, [rack_row None])"
  by (simp add: queue_objects_def chunks_single insert_queued_def rack_id_show_def rack_row_def)

lemma demo_running:
  assumes "\<And>w. ok w demo_p"
  shows "\<exists>st. reachable rack_id_show rack_id_from_str rack_ok iteration_config_default ok
    (solo [rack_row (Some ''p'')] (demo_p\<lparr>object_tasks := [run_task], stats_since := st\<rparr>))"
proof -
  let ?R = "reachable rack_id_show rack_id_from_str rack_ok iteration_config_default ok"
  have "?R (solo [rack_row None] demo_p)" unfolding demo_p_def
    by (rule solo_steps(1) [OF solo_start _ demo_enqueue]) (simp add: rack_ok_def)
  moreover obtain st where "\<exists>res. dequeue_and_dispatch rack_id_from_str txn_ok 0 [] demo_p [rack_row None] =
      (res, demo_p\<lparr>object_tasks := [run_task], stats_since := st\<rparr>, [rack_row (Some ''p'')])"
    using demo_dispatch [of demo_p] by (auto simp: demo_p_def new_processor_def)
  ultimately show ?thesis using assms solo_steps(2) by blast
qed

theorem one_handler_per_object_witness:
  "\<exists>w :: (rack_id, nat) world. running w = [RackId ''r1''] \<and> distinct (running w) \<and>
     reachable rack_id_show rack_id_from_str rack_ok iteration_config_default (leases_unsettled rack_id_show iteration_config_default) w"
proof -
  have "leases_unsettled rack_id_show iteration_config_default w demo_p" for w
    by (simp add: leases_unsettled_def unsettled_def finished_objects_def demo_p_def new_processor_def)
  then obtain st where w: "reachable rack_id_show rack_id_from_str rack_ok iteration_config_default
      (leases_unsettled rack_id_show iteration_config_default) (solo [rack_row (Some ''p'')] (demo_p\<lparr>object_tasks := [run_task], stats_since := st\<rparr>))"
    using demo_running by blast
  moreover have "distinct (running (solo [rack_row (Some ''p'')] (demo_p\<lparr>object_tasks := [run_task], stats_since := st\<rparr>)))"
    by (rule one_handler_per_object [OF rack_ids.parse_show _ w]) (simp_all add: iteration_config_default_def from_secs_def)
  ultimately show ?thesis
    by (intro exI conjI) (auto simp: running_def solo_def running_objects_def run_task_def)
qed

subsection \<open>A lost answer\<close>









end
