(* ===== verification/Process_Object.thy ===== *)
theory Process_Object
  imports State_Handler Config_Version
begin

section \<open>Handling one object\<close>

text \<open>
  \<^verbatim>\<open>process_object\<close> of \<^verbatim>\<open>state-controller/src/controller/processor.rs\<close> with the write batch of
  \<^verbatim>\<open>db_write_batch.rs\<close>: load an object, run its state handler, store what the handler decided.

  What an object type provides (\<^verbatim>\<open>StateControllerIO\<close>) and its state handler are parameters.  The
  database is its committed state; an open transaction is the state it sees, and a transaction a
  handler leaves open is the change it makes.  Every \<^verbatim>\<open>await\<close> can return, report a database error or
  be where the timeout of the invocation fires; a commit that does not return may have taken
  effect.  Other transactions commit after the object was loaded (\<open>meanwhile\<close>); the handler and the
  statements that store its outcome see the database they leave.
\<close>

subsection \<open>Computations that fail, time out or panic\<close>

datatype 'a flow = Done 'a | Failed state_handler_error | TimedOut | Panicked

datatype await = Ready | Fault string | Elapsed

type_synonym ('st, 'a) prog = "'st \<Rightarrow> 'a flow \<times> 'st"

definition pure :: "'a \<Rightarrow> ('st, 'a) prog" where
  "pure x st = (Done x, st)"

definition fail :: "state_handler_error \<Rightarrow> ('st, 'a) prog" where
  "fail e st = (Failed e, st)"

definition bind_prog :: "('st, 'a) prog \<Rightarrow> ('a \<Rightarrow> ('st, 'b) prog) \<Rightarrow> ('st, 'b) prog" where
  "bind_prog m f st =
     (case m st of
        (Done x, st') \<Rightarrow> f x st'
      | (Failed e, st') \<Rightarrow> (Failed e, st')
      | (TimedOut, st') \<Rightarrow> (TimedOut, st')
      | (Panicked, st') \<Rightarrow> (Panicked, st'))"

subsection \<open>What an object type provides\<close>

record ('o, 'db, 'snap, 's) io_ops =
  io_show :: "'o \<Rightarrow> string"
  load_object_state :: "'db \<Rightarrow> 'o \<Rightarrow> (database_error, 'snap option) result"
  load_controller_state :: "'db \<Rightarrow> 'o \<Rightarrow> 'snap \<Rightarrow> 's versioned"
  persist_controller_state :: "'o \<Rightarrow> config_version \<Rightarrow> config_version \<Rightarrow> 's \<Rightarrow> 'db \<Rightarrow> bool \<times> 'db"
  persist_state_history :: "'o \<Rightarrow> config_version \<Rightarrow> 's \<Rightarrow> 'db \<Rightarrow> 'db"
  persist_outcome :: "'o \<Rightarrow> persistent_outcome \<Rightarrow> 'db \<Rightarrow> 'db"
  io_state_sla :: "'s versioned \<Rightarrow> 'snap \<Rightarrow> state_sla"
  metric_state_names :: "'s \<Rightarrow> full_state"
  manual_intervention_reason :: "'s \<Rightarrow> string option"
  debug_state :: "'s \<Rightarrow> string"

type_synonym ('db) write_op = "'db \<Rightarrow> (state_handler_error, 'db) result"

record ('db, 'snap, 's) handler_run =
  run_result :: "(state_handler_error, ('s, 'db \<Rightarrow> 'db) state_handler_outcome) result"
  run_snapshot :: 'snap
  run_writes :: "'db write_op list"

type_synonym ('o, 'db, 'snap, 's) handler = "'db \<Rightarrow> 'o \<Rightarrow> 'snap \<Rightarrow> 's \<Rightarrow> ('db, 'snap, 's) handler_run"

record 'db po_env =
  awaits :: "nat \<Rightarrow> await"
  commit_applied :: "nat \<Rightarrow> bool"
  handler_elapsed :: bool
  meanwhile :: "'db \<Rightarrow> 'db"
  utc_now :: datetime
  sys_now :: int
  chrono :: chrono_ops
  error_text :: "state_handler_error \<Rightarrow> string"
  latency :: duration

record ('db, 's) po_state =
  po_db :: 'db
  po_metrics :: "'s handler_metrics"

definition await_at :: "'db po_env \<Rightarrow> nat \<Rightarrow> (string \<Rightarrow> state_handler_error) \<Rightarrow> (('db, 's) po_state, unit) prog" where
  "await_at env i mk st =
     (case awaits env i of Ready \<Rightarrow> (Done (), st) | Fault e \<Rightarrow> (Failed (mk e), st) | Elapsed \<Rightarrow> (TimedOut, st))"

definition db_error :: "string \<Rightarrow> state_handler_error" where
  "db_error e = DBError (QueryFailed e)"

definition commit_at :: "'db po_env \<Rightarrow> nat \<Rightarrow> 'db \<Rightarrow> (('db, 's) po_state, unit) prog" where
  "commit_at env i view st =
     (case awaits env i of
        Ready \<Rightarrow> (Done (), st\<lparr>po_db := view\<rparr>)
      | Fault e \<Rightarrow> (Failed (TransactionError e), if commit_applied env i then st\<lparr>po_db := view\<rparr> else st)
      | Elapsed \<Rightarrow> (TimedOut, if commit_applied env i then st\<lparr>po_db := view\<rparr> else st))"

subsection \<open>Loading\<close>

definition MISSING_OBJECT_STATE :: string where
  "MISSING_OBJECT_STATE = ''object_state''"

definition to_std_or_day :: "duration \<Rightarrow> duration" where
  "to_std_or_day d = (if d < 0 then 60 * 60 * 24 * 1000000000 else d)"

definition observe :: "('o, 'db, 'snap, 's) io_ops \<Rightarrow> 'db po_env \<Rightarrow> 's versioned \<Rightarrow> 'snap \<Rightarrow> 's handler_metrics \<Rightarrow> 's handler_metrics" where
  "observe io env cs snap m =
     (let sl = io_state_sla io cs snap
      in m\<lparr>initial_state := Some (ver_value cs),
           state_entered_at := Some (timestamp (ver_version cs)),
           time_in_state := to_std_or_day (utc_now env - timestamp (ver_version cs)),
           above_sla := time_in_state_above_sla sl,
           metrics_sla := sla sl\<rparr>)"

definition load_phase :: "('o, 'db, 'snap, 's) io_ops \<Rightarrow> 'db po_env \<Rightarrow> 'o \<Rightarrow> (('db, 's) po_state, 'snap \<times> 's versioned) prog" where
  "load_phase io env oid =
     bind_prog (await_at env 0 TransactionError) (\<lambda>_.
     bind_prog (await_at env 1 db_error) (\<lambda>_ st.
       case load_object_state io (po_db st) oid of
         Inl e \<Rightarrow> fail (DBError e) st
       | Inr None \<Rightarrow> fail (MissingData (io_show io oid) MISSING_OBJECT_STATE) st
       | Inr (Some snap) \<Rightarrow>
           bind_prog (await_at env 2 db_error) (\<lambda>_ st.
             let cs = load_controller_state io (po_db st) oid snap;
                 st' = st\<lparr>po_metrics := observe io env cs snap (po_metrics st)\<rparr>
             in bind_prog (await_at env 3 TransactionError) (\<lambda>_. pure (snap, cs)) st') st))"

subsection \<open>Running the handler\<close>

fun apply_all :: "'db write_op list \<Rightarrow> 'db \<Rightarrow> (state_handler_error, 'db) result" where
  "apply_all [] view = Ok view"
| "apply_all (w # ws) view = (case w view of Inl e \<Rightarrow> Err e | Inr view' \<Rightarrow> apply_all ws view')"

definition run_handler :: "('o, 'db, 'snap, 's) handler \<Rightarrow> 'db po_env \<Rightarrow> 'o \<Rightarrow> 'snap \<Rightarrow> 's
    \<Rightarrow> (('db, 's) po_state, ('db, 'snap, 's) handler_run) prog" where
  "run_handler handle env oid snap s st =
     (let st' = st\<lparr>po_db := meanwhile env (po_db st)\<rparr>
      in if handler_elapsed env then (TimedOut, st') else (Done (handle (po_db st') oid snap s), st'))"

text \<open>
  The transaction for the outcome: the one the handler left open, or a fresh one; then the batch of
  writes.  A write that fails becomes the outcome of the handler; the view is then rolled back.
\<close>

definition open_txn :: "'db po_env \<Rightarrow> ('db, 'snap, 's) handler_run
    \<Rightarrow> (('db, 's) po_state, (state_handler_error, ('s, 'db \<Rightarrow> 'db) state_handler_outcome) result \<times> 'db) prog" where
  "open_txn env run =
     (case run_result run of
        Inr outcome \<Rightarrow>
          (case take_transaction outcome of
             (txn, outcome') \<Rightarrow>
               bind_prog (case txn of
                            Some script \<Rightarrow> (\<lambda>st. pure (script (po_db st)) st)
                          | None \<Rightarrow> bind_prog (await_at env 5 TransactionError) (\<lambda>_ st. pure (po_db st) st)) (\<lambda>view.
                 case awaits env 6 of
                   Elapsed \<Rightarrow> (\<lambda>st. (TimedOut, st))
                 | Fault e \<Rightarrow> pure (Err (db_error e), view)
                 | Ready \<Rightarrow>
                     (case apply_all (run_writes run) view of
                        Inl e \<Rightarrow> pure (Err e, view)
                      | Inr view' \<Rightarrow> pure (Ok outcome', view'))))
      | Inl e \<Rightarrow> bind_prog (await_at env 5 TransactionError) (\<lambda>_ st. pure (Err e, po_db st) st))"

subsection \<open>Storing the outcome\<close>

text \<open>The state, the time of entering it and its SLA, if the transition took place.\<close>

type_synonym 's entered = "('s \<times> datetime \<times> duration option) option"

definition store_transition :: "('o, 'db, 'snap, 's) io_ops \<Rightarrow> 'db po_env \<Rightarrow> 'o \<Rightarrow> 'snap \<Rightarrow> 's versioned \<Rightarrow> 's \<Rightarrow> 'db
    \<Rightarrow> (('db, 's) po_state, 's entered \<times> 'db) prog" where
  "store_transition io env oid snap cs nxt view =
     (case increment (chrono env) (sys_now env) (ver_version cs) of
        None \<Rightarrow> (\<lambda>st. (Panicked, st))
      | Some incremented \<Rightarrow>
          bind_prog (await_at env 7 db_error) (\<lambda>_.
            case persist_controller_state io oid (ver_version cs) incremented nxt view of
              (True, view') \<Rightarrow>
                bind_prog (await_at env 8 db_error) (\<lambda>_.
                  pure (Some (nxt, timestamp incremented, sla (io_state_sla io (versioned_new nxt incremented) snap)),
                        persist_state_history io oid incremented nxt view'))
            | (False, view') \<Rightarrow>
                (\<lambda>st. pure (None, view') (st\<lparr>po_metrics := (po_metrics st)\<lparr>transition_conflict := True\<rparr>\<rparr>))))"

definition store_next :: "('o, 'db, 'snap, 's) io_ops \<Rightarrow> 'db po_env \<Rightarrow> 'o \<Rightarrow> 'snap \<Rightarrow> 's versioned
    \<Rightarrow> (state_handler_error, ('s, 'db \<Rightarrow> 'db) state_handler_outcome) result \<Rightarrow> 'db \<Rightarrow> (('db, 's) po_state, 's entered \<times> 'db) prog" where
  "store_next io env oid snap cs outcome view =
     (case outcome of
        Inr (Transition nxt _ _) \<Rightarrow> store_transition io env oid snap cs nxt view
      | _ \<Rightarrow> pure (None, view))"

definition check_sla :: "bool \<Rightarrow> (state_handler_error, ('s, 't) state_handler_outcome) result
    \<Rightarrow> (state_handler_error, ('s, 't) state_handler_outcome) result" where
  "check_sla too_long outcome =
     (case outcome of
        Inr (Wait reason _ _) \<Rightarrow> if too_long then Err (TimeInStateAboveSla (''Wait(\"'' @ reason @ ''\")'')) else outcome
      | Inr (DoNothing _ _) \<Rightarrow> if too_long then Err (TimeInStateAboveSla ''DoNothing'') else outcome
      | _ \<Rightarrow> outcome)"

definition is_deleted :: "(state_handler_error, ('s, 't) state_handler_outcome) result \<Rightarrow> bool" where
  "is_deleted outcome = (case outcome of Inr (Deleted _ _) \<Rightarrow> True | _ \<Rightarrow> False)"

definition store_outcome_at :: "('o, 'db, 'snap, 's) io_ops \<Rightarrow> 'db po_env \<Rightarrow> nat \<Rightarrow> 'o
    \<Rightarrow> (state_handler_error, ('s, 't) state_handler_outcome) result \<Rightarrow> 'db \<Rightarrow> (('db, 's) po_state, 'db) prog" where
  "store_outcome_at io env i oid outcome view =
     (case from_result (error_text env) outcome of
        None \<Rightarrow> (\<lambda>st. (Panicked, st))
      | Some po \<Rightarrow> bind_prog (await_at env i db_error) (\<lambda>_. pure (persist_outcome io oid po view)))"

definition store_phase :: "('o, 'db, 'snap, 's) io_ops \<Rightarrow> 'db po_env \<Rightarrow> 'o \<Rightarrow> bool
    \<Rightarrow> (state_handler_error, ('s, 't) state_handler_outcome) result \<Rightarrow> 'db \<Rightarrow> (('db, 's) po_state, unit) prog" where
  "store_phase io env oid is_success outcome view =
     (if is_success then
        bind_prog (if is_deleted outcome then pure view else store_outcome_at io env 9 oid outcome view) (commit_at env 10)
      else if \<not> is_deleted outcome then
        bind_prog (await_at env 11 TransactionError) (\<lambda>_ st.
          bind_prog (store_outcome_at io env 12 oid outcome (po_db st)) (commit_at env 13) st)
      else pure ())"

definition publish :: "'s entered \<Rightarrow> 's handler_metrics \<Rightarrow> 's handler_metrics" where
  "publish nxt m =
     (case nxt of
        None \<Rightarrow> m\<lparr>next_state := None\<rparr>
      | Some (s, entered, sl) \<Rightarrow> m\<lparr>next_state := Some s, state_entered_at := Some entered, metrics_sla := sl\<rparr>)"

definition is_ok :: "('e, 'a) result \<Rightarrow> bool" where
  "is_ok r = (case r of Inl _ \<Rightarrow> False | Inr _ \<Rightarrow> True)"

definition store_all :: "('o, 'db, 'snap, 's) io_ops \<Rightarrow> 'db po_env \<Rightarrow> 'o \<Rightarrow> 'snap \<Rightarrow> 'snap \<Rightarrow> 's versioned
    \<Rightarrow> (state_handler_error, ('s, 'db \<Rightarrow> 'db) state_handler_outcome) result \<times> 'db
    \<Rightarrow> (('db, 's) po_state, ('s, 'db \<Rightarrow> 'db) state_handler_outcome) prog" where
  "store_all io env oid snap snap' cs = (\<lambda>(outcome, view).
     bind_prog (store_next io env oid snap' cs outcome view) (\<lambda>(nxt, view').
     let outcome' = check_sla (time_in_state_above_sla (io_state_sla io cs snap)) outcome
     in bind_prog (store_phase io env oid (is_ok outcome) outcome' view') (\<lambda>_ st.
          let st' = st\<lparr>po_metrics := publish nxt (po_metrics st)\<rparr>
          in case outcome' of Inl e \<Rightarrow> fail e st' | Inr x \<Rightarrow> pure x st')))"

definition after_load :: "('o, 'db, 'snap, 's) io_ops \<Rightarrow> ('o, 'db, 'snap, 's) handler \<Rightarrow> 'db po_env \<Rightarrow> 'o \<Rightarrow> 'snap \<times> 's versioned
    \<Rightarrow> (('db, 's) po_state, ('s, 'db \<Rightarrow> 'db) state_handler_outcome) prog" where
  "after_load io handle env oid = (\<lambda>(snap, cs).
     bind_prog (run_handler handle env oid snap (ver_value cs)) (\<lambda>run.
     bind_prog (open_txn env run) (store_all io env oid snap (run_snapshot run) cs)))"

definition handle_body :: "('o, 'db, 'snap, 's) io_ops \<Rightarrow> ('o, 'db, 'snap, 's) handler \<Rightarrow> 'db po_env \<Rightarrow> 'o
    \<Rightarrow> (('db, 's) po_state, ('s, 'db \<Rightarrow> 'db) state_handler_outcome) prog" where
  "handle_body io handle env oid = bind_prog (load_phase io env oid) (after_load io handle env oid)"

subsection \<open>The invocation\<close>

datatype manual_intervention = Required string | NotRequired | UnknownIntervention

datatype recorder_call =
    Clear string
  | Touch string
  | Record string full_state datetime "duration option" manual_intervention

record ('db, 's) po_output =
  out_db :: 'db
  out_metrics :: "'s handler_metrics"
  out_event :: "'s option"
  out_recorder :: recorder_call

definition intervention :: "('o, 'db, 'snap, 's) io_ops \<Rightarrow> 's \<Rightarrow> state_handler_error option \<Rightarrow> manual_intervention" where
  "intervention io s err =
     (case (manual_intervention_reason io s, err) of
        (Some reason, _) \<Rightarrow> Required reason
      | (None, Some (ManualInterventionRequired t)) \<Rightarrow> Required (metric_label (ManualInterventionRequired t))
      | (None, None) \<Rightarrow> NotRequired
      | (None, Some (TimeInStateAboveSla _)) \<Rightarrow> NotRequired
      | (None, Some _) \<Rightarrow> UnknownIntervention)"

definition object_gone :: "bool \<Rightarrow> state_handler_error option \<Rightarrow> bool" where
  "object_gone was_deleted err \<longleftrightarrow>
     was_deleted \<or> (case err of Some (MissingData _ what) \<Rightarrow> what = MISSING_OBJECT_STATE | _ \<Rightarrow> False)"

definition recorder_call_of :: "('o, 'db, 'snap, 's) io_ops \<Rightarrow> 'o \<Rightarrow> bool \<Rightarrow> 's handler_metrics \<Rightarrow> recorder_call" where
  "recorder_call_of io oid was_deleted m =
     (let final_state = (case next_state m of Some s \<Rightarrow> Some s | None \<Rightarrow> initial_state m)
      in if object_gone was_deleted (error m) then Clear (io_show io oid)
         else if \<not> transition_conflict m \<and> final_state \<noteq> None \<and> state_entered_at m \<noteq> None
         then Record (io_show io oid) (metric_state_names io (the final_state)) (the (state_entered_at m)) (metrics_sla m)
                (intervention io (the final_state) (error m))
         else Touch (io_show io oid))"

text \<open>\<open>None\<close>: the task panics.\<close>

definition process_object :: "('o, 'db, 'snap, 's) io_ops \<Rightarrow> ('o, 'db, 'snap, 's) handler \<Rightarrow> 'db po_env \<Rightarrow> 'o \<Rightarrow> 'db
    \<Rightarrow> ('db, 's) po_output option" where
  "process_object io handle env oid db =
     (case handle_body io handle env oid \<lparr>po_db = db, po_metrics = handler_metrics_default\<rparr> of
        (result, st) \<Rightarrow>
          (let m = (po_metrics st)\<lparr>handler_latency := latency env\<rparr>;
               finish = (\<lambda>was_deleted err.
                 let m' = (case err of None \<Rightarrow> m | Some e \<Rightarrow> m\<lparr>error := Some e\<rparr>)
                 in Some \<lparr>out_db = po_db st, out_metrics = m', out_event = next_state m,
                          out_recorder = recorder_call_of io oid was_deleted m'\<rparr>)
           in case result of
                Done outcome \<Rightarrow> finish (is_deleted (Ok outcome)) None
              | Failed e \<Rightarrow> finish False (Some e)
              | TimedOut \<Rightarrow>
                  finish False (Some (Timeout (io_show io oid)
                    (case initial_state m of Some s \<Rightarrow> debug_state io s | None \<Rightarrow> [])))
              | Panicked \<Rightarrow> None))"

subsection \<open>What an invocation may commit\<close>

definition handler_view :: "('s, 'db \<Rightarrow> 'db) state_handler_outcome \<Rightarrow> 'db \<Rightarrow> 'db" where
  "handler_view outcome base = (case outcome_txn outcome of None \<Rightarrow> base | Some script \<Rightarrow> script base)"

definition transition_view :: "('o, 'db, 'snap, 's) io_ops \<Rightarrow> 'db po_env \<Rightarrow> 'o \<Rightarrow> 's versioned \<Rightarrow> 's \<Rightarrow> 'db \<Rightarrow> (bool \<times> 'db) option" where
  "transition_view io env oid cs nxt view =
     map_option (\<lambda>ver. case persist_controller_state io oid (ver_version cs) ver nxt view of
                         (True, view') \<Rightarrow> (True, persist_state_history io oid ver nxt view')
                       | (False, view') \<Rightarrow> (False, view'))
       (increment (chrono env) (sys_now env) (ver_version cs))"

definition full_effect :: "('o, 'db, 'snap, 's) io_ops \<Rightarrow> 'db po_env \<Rightarrow> 'o \<Rightarrow> ('db, 'snap, 's) handler_run \<Rightarrow> 's versioned \<Rightarrow> 'db \<Rightarrow> 'db \<Rightarrow> bool" where
  "full_effect io env oid run cs base v \<longleftrightarrow>
     (\<exists>outcome v1 v2. run_result run = Ok outcome \<and> apply_all (run_writes run) (handler_view outcome base) = Ok v1 \<and>
        (case outcome of Transition nxt _ _ \<Rightarrow> \<exists>b. transition_view io env oid cs nxt v1 = Some (b, v2) | _ \<Rightarrow> v2 = v1) \<and>
        (if is_deleted (Ok outcome) then v = v2 else \<exists>po. v = persist_outcome io oid po v2))"

text \<open>Where an invocation can stop, and what is committed by then.\<close>

inductive body_ends ::
  "('o, 'db, 'snap, 's) io_ops \<Rightarrow> ('o, 'db, 'snap, 's) handler \<Rightarrow> 'db po_env \<Rightarrow> 'o \<Rightarrow> 'db
    \<Rightarrow> ('s, 'db \<Rightarrow> 'db) state_handler_outcome flow \<Rightarrow> bool \<Rightarrow> 's option \<Rightarrow> 'db \<Rightarrow> bool"
  for io handle env oid db where
  not_loaded: "(\<forall>x. r \<noteq> Done x) \<Longrightarrow> r \<noteq> Panicked \<Longrightarrow> body_ends io handle env oid db r False None db"
| nothing_stored: "(\<forall>x. r \<noteq> Done x) \<Longrightarrow> load_object_state io db oid = Ok (Some snap) \<Longrightarrow>
    (r = Panicked \<longrightarrow> increment (chrono env) (sys_now env) (ver_version (load_controller_state io db oid snap)) = None) \<Longrightarrow>
    body_ends io handle env oid db r c None (meanwhile env db)"
| error_stored: "load_object_state io db oid = Ok (Some snap) \<Longrightarrow> run = handle (meanwhile env db) oid snap (ver_value (load_controller_state io db oid snap)) \<Longrightarrow>
    run_result run = Err e \<or> (\<exists>outcome. run_result run = Ok outcome \<and>
      (awaits env 6 \<noteq> Ready \<or> apply_all (run_writes run) (handler_view outcome (meanwhile env db)) = Err e)) \<Longrightarrow>
    (\<forall>x. r \<noteq> Done x) \<Longrightarrow> r \<noteq> Panicked \<Longrightarrow>
    body_ends io handle env oid db r False None (persist_outcome io oid (PError (error_text env e) None) (meanwhile env db))"
| outcome_stored: "load_object_state io db oid = Ok (Some snap) \<Longrightarrow> cs = load_controller_state io db oid snap \<Longrightarrow>
    run = handle (meanwhile env db) oid snap (ver_value cs) \<Longrightarrow> run_result run = Ok outcome \<Longrightarrow>
    apply_all (run_writes run) (handler_view outcome (meanwhile env db)) = Ok va \<Longrightarrow>
    (case outcome of Transition nxt _ _ \<Rightarrow> transition_view io env oid cs nxt va = Some (\<not> c, vb) | _ \<Rightarrow> vb = va \<and> \<not> c) \<Longrightarrow>
    s = (case outcome of Transition nxt _ _ \<Rightarrow> if c \<or> r = TimedOut \<or> (\<exists>e. r = Failed e) then None else Some nxt | _ \<Rightarrow> None) \<Longrightarrow>
    r \<noteq> Panicked \<Longrightarrow>
    (if is_deleted (Ok outcome) then v = vb
     else \<exists>po. from_result (error_text env) (check_sla (time_in_state_above_sla (io_state_sla io cs snap)) (Ok outcome)) = Some po \<and> v = persist_outcome io oid po vb) \<Longrightarrow>
    body_ends io handle env oid db r c s v"

text \<open>A small object type: one object with a number as its state, its history and the outcomes stored for it.\<close>

type_synonym demo_db = "nat versioned option \<times> nat list \<times> persistent_outcome list"

definition demo_io :: "(string, demo_db, unit, nat) io_ops" where
  "demo_io =
     \<lparr>io_show = (\<lambda>x. x),
      load_object_state = (\<lambda>db _. Ok (map_option (\<lambda>_. ()) (fst db))),
      load_controller_state = (\<lambda>db _ _. the (fst db)),
      persist_controller_state = (\<lambda>_ old new s db.
        case fst db of
          None \<Rightarrow> (False, db)
        | Some v \<Rightarrow> if ver_version v = old then (True, (Some (versioned_new s new), snd db)) else (False, db)),
      persist_state_history = (\<lambda>_ _ s db. (fst db, fst (snd db) @ [s], snd (snd db))),
      persist_outcome = (\<lambda>_ po db. (fst db, fst (snd db), snd (snd db) @ [po])),
      io_state_sla = (\<lambda>_ _. no_sla),
      metric_state_names = (\<lambda>_. (''state'', [])),
      manual_intervention_reason = (\<lambda>_. None),
      debug_state = show_nat\<rparr>"

definition po_demo_env :: "(demo_db \<Rightarrow> demo_db) \<Rightarrow> demo_db po_env" where
  "po_demo_env others =
     \<lparr>awaits = (\<lambda>_. Ready), commit_applied = (\<lambda>_. False), handler_elapsed = False, meanwhile = others, utc_now = 5,
      sys_now = 0, chrono = chrono_doc, error_text = metric_label, latency = 1\<rparr>"

definition demo_src :: source_location where
  "demo_src = \<lparr>loc_file = ''handler.rs'', loc_line = 1\<rparr>"

definition demo_version :: "u64 \<Rightarrow> config_version" where
  "demo_version n = \<lparr>version_nr = n, timestamp = 0\<rparr>"

definition demo_state :: "u64 \<Rightarrow> nat \<Rightarrow> demo_db" where
  "demo_state n s = (Some (versioned_new s (demo_version n)), [], [])"

definition demo_handler :: "(state_handler_error, (nat, demo_db \<Rightarrow> demo_db) state_handler_outcome) result
    \<Rightarrow> (string, demo_db, unit, nat) handler" where
  "demo_handler res _ _ _ _ = \<lparr>run_result = res, run_snapshot = (), run_writes = []\<rparr>"

definition demo_move :: "(state_handler_error, (nat, demo_db \<Rightarrow> demo_db) state_handler_outcome) result" where
  "demo_move = Ok (Transition 2 demo_src None)"

lemma bind_prog_cases:
  assumes "bind_prog m f st = (r, st')"
  obtains (first) "r = TimedOut" "m st = (TimedOut, st')" | (failed) e where "r = Failed e" "m st = (Failed e, st')"
    | (panicked) "r = Panicked" "m st = (Panicked, st')" | (both) x st1 where "m st = (Done x, st1)" "f x st1 = (r, st')"
  using assms by (cases "m st") (auto simp: bind_prog_def split: flow.splits)

lemma bind_prog_Done: "m st = (Done x, st1) \<Longrightarrow> bind_prog m f st = f x st1"
  by (simp add: bind_prog_def)

lemma await_at_cases:
  assumes "await_at env i mk st = (r, st')"
  shows "st' = st" "r \<noteq> Panicked"
  using assms by (auto simp: await_at_def split: await.splits)

lemma load_phase_result:
  assumes "load_phase io env oid st = (r, st')"
  shows "po_db st' = po_db st" "r \<noteq> Panicked" "next_state (po_metrics st') = next_state (po_metrics st)"
    "transition_conflict (po_metrics st') = transition_conflict (po_metrics st)"
    "error (po_metrics st') = error (po_metrics st)"
    "r = Done (snap, cs) \<Longrightarrow> load_object_state io (po_db st) oid = Ok (Some snap) \<and> cs = load_controller_state io (po_db st) oid snap"
  using assms by (auto simp: load_phase_def bind_prog_def await_at_def pure_def fail_def observe_def Let_def
    split: await.splits option.splits sum.splits flow.splits)

lemma open_txn_result:
  assumes "open_txn env run st = (r, st')"
  shows "st' = st" "r \<noteq> Panicked"
    "r = Done (Ok outcome, view) \<Longrightarrow> \<exists>outcome0. run_result run = Ok outcome0 \<and> outcome = replace_txn outcome0 None \<and>
      apply_all (run_writes run) (handler_view outcome0 (po_db st)) = Ok view"
    "r = Done (Err e, view) \<Longrightarrow> run_result run = Err e \<or> (\<exists>outcome0. run_result run = Ok outcome0 \<and>
      (awaits env 6 \<noteq> Ready \<or> apply_all (run_writes run) (handler_view outcome0 (po_db st)) = Err e))"
  using assms by (auto simp: open_txn_def take_transaction_def bind_prog_def await_at_def pure_def handler_view_def
    split: await.splits option.splits sum.splits)

lemma store_transition_result:
  assumes "store_transition io env oid snap cs nxt view st = (r, st')"
  shows "po_db st' = po_db st" "next_state (po_metrics st') = next_state (po_metrics st)" "error (po_metrics st') = error (po_metrics st)"
    "r = Panicked \<Longrightarrow> increment (chrono env) (sys_now env) (ver_version cs) = None"
    "r = Done (Some (s, t, sl), v) \<Longrightarrow> s = nxt \<and> transition_view io env oid cs nxt view = Some (True, v) \<and> st' = st"
    "r = Done (None, v) \<Longrightarrow> transition_view io env oid cs nxt view = Some (False, v) \<and> transition_conflict (po_metrics st')"
    "r \<noteq> Done (None, v) \<Longrightarrow> transition_conflict (po_metrics st') \<Longrightarrow> transition_conflict (po_metrics st) \<or> (\<exists>v'. r = Done (None, v'))"
  using assms by (auto simp: store_transition_def transition_view_def bind_prog_def await_at_def pure_def
    split: await.splits option.splits prod.splits bool.splits)

lemma store_phase_metrics:
  assumes "store_phase io env oid b outcome view st = (r, st')"
  shows "po_metrics st' = po_metrics st"
  using assms by (auto simp: store_phase_def store_outcome_at_def commit_at_def bind_prog_def await_at_def pure_def
    split: await.splits option.splits if_splits flow.splits)

lemma store_phase_panic:
  assumes "store_phase io env oid b outcome view st = (r, st')"
  shows "r \<noteq> Panicked"
  using assms by (auto simp: store_phase_def store_outcome_at_def commit_at_def bind_prog_def await_at_def pure_def from_result_None is_deleted_def
    split: await.splits option.splits if_splits flow.splits)

lemma store_phase_success:
  assumes "store_phase io env oid True outcome view st = (r, st')"
  shows "po_db st' = po_db st \<and> r \<noteq> Done () \<or>
    (if is_deleted outcome then po_db st' = view
     else \<exists>po. from_result (error_text env) outcome = Some po \<and> po_db st' = persist_outcome io oid po view)"
  using assms by (auto simp: store_phase_def store_outcome_at_def commit_at_def bind_prog_def await_at_def pure_def
    split: await.splits option.splits if_splits flow.splits)

lemma store_phase_failure:
  assumes "store_phase io env oid False (Err e) view st = (r, st')"
  shows "po_db st' = po_db st \<and> r \<noteq> Done () \<or> po_db st' = persist_outcome io oid (PError (error_text env e) None) (po_db st)"
  using assms by (auto simp: store_phase_def store_outcome_at_def commit_at_def bind_prog_def await_at_def pure_def is_deleted_def
    split: await.splits option.splits if_splits flow.splits)

lemma check_sla_simps:
  "check_sla b (Err e) = Err e" "check_sla b (Ok (Transition s src t)) = Ok (Transition s src t)" "check_sla b (Ok (Deleted src t)) = Ok (Deleted src t)"
  "is_deleted (check_sla b r) = is_deleted r"
  by (auto simp: check_sla_def is_deleted_def split: sum.splits state_handler_outcome.splits)

lemma check_sla_txn:
  "from_result txt (check_sla b (Ok (replace_txn x t))) = from_result txt (check_sla b (Ok x))" "is_deleted (Ok (replace_txn x t)) = is_deleted (Ok x)"
  by (cases x; simp add: check_sla_def is_deleted_def)+

lemma store_tail:
  assumes d: "load_object_state io db oid = Ok (Some snap)" "cs = load_controller_state io db oid snap"
      "run = handle (meanwhile env db) oid snap (ver_value cs)" "run_result run = Ok outcome0" "outcome = replace_txn outcome0 None"
      "apply_all (run_writes run) (handler_view outcome0 (meanwhile env db)) = Ok v1"
    and nxt: "case outcome0 of Transition n _ _ \<Rightarrow> transition_view io env oid cs n v1 = Some (\<not> transition_conflict (po_metrics st), v2) \<and>
        (if transition_conflict (po_metrics st) then nxt = None else \<exists>t sl. nxt = Some (n, t, sl))
      | _ \<Rightarrow> v2 = v1 \<and> nxt = None \<and> \<not> transition_conflict (po_metrics st)"
    and st: "po_db st = meanwhile env db" "next_state (po_metrics st) = None"
    and run: "bind_prog (store_phase io env oid True (check_sla (time_in_state_above_sla (io_state_sla io cs snap)) (Ok outcome)) v2) (\<lambda>_ st.
          let st' = st\<lparr>po_metrics := publish nxt (po_metrics st)\<rparr>
          in case check_sla (time_in_state_above_sla (io_state_sla io cs snap)) (Ok outcome) of Inl e \<Rightarrow> fail e st' | Inr x \<Rightarrow> pure x st') st = (r, st')"
  shows "body_ends io handle env oid db r (transition_conflict (po_metrics st')) (next_state (po_metrics st')) (po_db st')"
proof -
  let ?o = "check_sla (time_in_state_above_sla (io_state_sla io cs snap)) (Ok outcome)"
  obtain r1 st1 where sp: "store_phase io env oid True ?o v2 st = (r1, st1)" by fastforce
  have m: "po_metrics st1 = po_metrics st" by (rule store_phase_metrics [OF sp])
  have np: "r1 \<noteq> Panicked" by (rule store_phase_panic [OF sp])
  have eq: "from_result f ?o = from_result f (check_sla (time_in_state_above_sla (io_state_sla io cs snap)) (Ok outcome0))"
      "is_deleted ?o = is_deleted (Ok outcome0)" for f
    by (simp_all only: d(5) check_sla_txn check_sla_simps)
  note stored = store_phase_success [OF sp, unfolded eq]
  have trans: "case outcome0 of Transition n _ _ \<Rightarrow> transition_view io env oid cs n v1 = Some (\<not> transition_conflict (po_metrics st), v2)
      | _ \<Rightarrow> v2 = v1 \<and> \<not> transition_conflict (po_metrics st)" using nxt by (auto split: state_handler_outcome.splits)
  show ?thesis
  proof (cases "r1 = Done ()")
    case False
    then have r: "(\<forall>x. r \<noteq> Done x)" "r \<noteq> Panicked" "st' = st1" "r = TimedOut \<or> (\<exists>e. r = Failed e)"
      using run sp np by (auto simp: bind_prog_def split: flow.splits)
    show ?thesis
    proof (cases "po_db st1 = po_db st")
      case True
      then show ?thesis using body_ends.nothing_stored [OF r(1) d(1), of env] r(2,3) m st by simp
    next
      case False
      then show ?thesis using stored r m st trans
        by (intro body_ends.outcome_stored [where handle = handle and env = env and vb = v2, OF d(1,2,3,4,6)]) (auto split: state_handler_outcome.splits if_splits)
    qed
  next
    case True
    then have r: "r = (case ?o of Inl e \<Rightarrow> Failed e | Inr x \<Rightarrow> Done x)" "st' = st1\<lparr>po_metrics := publish nxt (po_metrics st)\<rparr>"
      using run sp m by (auto simp: bind_prog_def fail_def pure_def Let_def split: sum.splits)
    have "next_state (publish nxt (po_metrics st)) = (case outcome0 of Transition n _ _ \<Rightarrow> if transition_conflict (po_metrics st) then None else Some n | _ \<Rightarrow> None)"
        "transition_conflict (publish nxt (po_metrics st)) = transition_conflict (po_metrics st)"
      using nxt by (auto simp: publish_def split: state_handler_outcome.splits if_splits option.splits)
    moreover have "r = Done (Transition n src None)" if "outcome0 = Transition n src t" for n src t
      using r(1) d(5) that by (simp add: check_sla_simps)
    moreover have "r \<noteq> Panicked" using r(1) by (auto split: sum.splits)
    ultimately show ?thesis using stored True r(2) trans
      by (intro body_ends.outcome_stored [where handle = handle and env = env and vb = v2, OF d(1,2,3,4,6)]) (auto split: state_handler_outcome.splits if_splits)
  qed
qed

lemma error_tail:
  assumes d: "load_object_state io db oid = Ok (Some snap)" "cs = load_controller_state io db oid snap" "run = handle (meanwhile env db) oid snap (ver_value cs)"
      "run_result run = Err e \<or> (\<exists>outcome. run_result run = Ok outcome \<and>
        (awaits env 6 \<noteq> Ready \<or> apply_all (run_writes run) (handler_view outcome (meanwhile env db)) = Err e))"
    and st: "po_db st = meanwhile env db" "next_state (po_metrics st) = None" "\<not> transition_conflict (po_metrics st)"
    and run: "bind_prog (store_phase io env oid False (Err e) view) (\<lambda>_ st. fail e (st\<lparr>po_metrics := publish None (po_metrics st)\<rparr>)) st = (r, st')"
      (is "bind_prog ?m _ _ = _")
  shows "body_ends io handle env oid db r (transition_conflict (po_metrics st')) (next_state (po_metrics st')) (po_db st')"
proof -
  obtain r1 st1 where sp: "?m st = (r1, st1)" by fastforce
  have "po_metrics st1 = po_metrics st" "r1 \<noteq> Panicked" by (rule store_phase_metrics [OF sp], rule store_phase_panic [OF sp])
  then have r: "\<forall>x. r \<noteq> Done x" "r \<noteq> Panicked" "po_db st' = po_db st1" "next_state (po_metrics st') = None" "\<not> transition_conflict (po_metrics st')"
    using run sp st by (auto simp: bind_prog_def fail_def publish_def split: flow.splits)
  from store_phase_failure [OF sp] consider "po_db st1 = meanwhile env db" | "po_db st1 = persist_outcome io oid (PError (error_text env e) None) (meanwhile env db)"
    using st(1) by auto
  then show ?thesis
  proof cases
    case 1
    then show ?thesis using body_ends.nothing_stored [OF r(1) d(1)] r(2-5) by simp
  next
    case 2
    then show ?thesis using body_ends.error_stored [where run = run and handle = handle and e = e and env = env, OF d(1) _ _ r(1,2)] d(2-4) r(3-5) by simp
  qed
qed

lemma store_all_ends:
  fixes io :: "('o, 'db, 'snap, 's) io_ops"
  assumes d: "load_object_state io db oid = Ok (Some snap)" "cs = load_controller_state io db oid snap" "run = handle (meanwhile env db) oid snap (ver_value cs)"
    and t: "open_txn env run st = (Done (res, view), st)"
    and st: "po_db st = meanwhile env db" "next_state (po_metrics st) = None" "\<not> transition_conflict (po_metrics st)"
    and r: "store_all io env oid snap snap' cs (res, view) st = (r, st')"
  shows "body_ends io handle env oid db r (transition_conflict (po_metrics st')) (next_state (po_metrics st')) (po_db st')"
proof (cases res)
  case (Inl e)
  show ?thesis
  proof (rule error_tail [where handle = handle and env = env and e = e, OF d _ st])
    show "run_result run = Err e \<or> (\<exists>outcome. run_result run = Ok outcome \<and>
        (awaits env 6 \<noteq> Ready \<or> apply_all (run_writes run) (handler_view outcome (meanwhile env db)) = Err e))"
      using open_txn_result(4) [OF t, of e view] Inl st(1) by simp
    show "bind_prog (store_phase io env oid False (Err e :: (state_handler_error, ('s, 'db \<Rightarrow> 'db) state_handler_outcome) result) view)
        (\<lambda>_ st. fail e (st\<lparr>po_metrics := publish None (po_metrics st)\<rparr>)) st = (r, st')"
      using r Inl by (simp add: store_all_def store_next_def is_ok_def check_sla_simps bind_prog_def pure_def Let_def)
  qed
next
  case (Inr outcome)
  obtain outcome0 where o0: "run_result run = Ok outcome0" "outcome = replace_txn outcome0 None"
      "apply_all (run_writes run) (handler_view outcome0 (meanwhile env db)) = Ok view"
    using open_txn_result(3) [OF t, of outcome view] Inr st(1) by auto
  obtain r1 st1 where n: "store_next io env oid snap' cs (Ok outcome) view st = (r1, st1)" by fastforce
  show ?thesis
  proof (cases "\<exists>x. r1 = Done x")
    case False
    then obtain nxt src t' where tr: "outcome0 = Transition nxt src t'" "store_transition io env oid snap' cs nxt view st = (r1, st1)"
      using n o0(2) by (cases outcome0) (auto simp: store_next_def pure_def)
    have "st' = st1" "\<forall>x. r \<noteq> Done x" "r = Panicked \<longrightarrow> r1 = Panicked"
      using False r n Inr by (auto simp: store_all_def bind_prog_def split: flow.splits)
    then show ?thesis using body_ends.nothing_stored [OF _ d(1), of r env handle] store_transition_result(1,2,4) [OF tr(2)] st d(2) by simp
  next
    case True
    then obtain nxt v2 where r1: "r1 = Done (nxt, v2)" by auto
    have "po_db st1 = meanwhile env db \<and> next_state (po_metrics st1) = None \<and>
        (case outcome0 of Transition n _ _ \<Rightarrow> transition_view io env oid cs n view = Some (\<not> transition_conflict (po_metrics st1), v2) \<and>
          (if transition_conflict (po_metrics st1) then nxt = None else \<exists>t sl. nxt = Some (n, t, sl))
        | _ \<Rightarrow> v2 = view \<and> nxt = None \<and> \<not> transition_conflict (po_metrics st1))"
    proof (cases "\<exists>n src t'. outcome0 = Transition n src t'")
      case True
      then obtain n' src t' where oc: "outcome0 = Transition n' src t'" by blast
      have "store_transition io env oid snap' cs n' view st = (Done (nxt, v2), st1)" using n r1 o0(2) oc by (simp add: store_next_def)
      note tr = store_transition_result [OF this]
      show ?thesis
      proof (cases nxt)
        case None
        then show ?thesis using tr(1,2) tr(6) [of v2] st oc by simp
      next
        case (Some a)
        then show ?thesis using tr(1,2) tr(5) [of "fst a" "fst (snd a)" "snd (snd a)" v2] st oc by (cases a) simp
      qed
    next
      case False
      then show ?thesis using n r1 o0(2) st by (cases outcome0) (auto simp: store_next_def pure_def)
    qed
    then have e: "po_db st1 = meanwhile env db" "next_state (po_metrics st1) = None"
      and c: "case outcome0 of Transition n _ _ \<Rightarrow> transition_view io env oid cs n view = Some (\<not> transition_conflict (po_metrics st1), v2) \<and>
          (if transition_conflict (po_metrics st1) then nxt = None else \<exists>t sl. nxt = Some (n, t, sl))
        | _ \<Rightarrow> v2 = view \<and> nxt = None \<and> \<not> transition_conflict (po_metrics st1)" by blast+
    show ?thesis
      by (rule store_tail [where handle = handle and env = env, OF d o0(1,2,3) c e])
        (use r n r1 Inr in \<open>simp add: store_all_def bind_prog_def is_ok_def Let_def\<close>)
  qed
qed

lemma handle_body_ends:
  assumes "handle_body io handle env oid \<lparr>po_db = db, po_metrics = handler_metrics_default\<rparr> = (r, st')"
    (is "handle_body _ _ _ _ ?st0 = _")
  shows "body_ends io handle env oid db r (transition_conflict (po_metrics st')) (next_state (po_metrics st')) (po_db st')"
proof -
  obtain r0 st0 where l: "load_phase io env oid ?st0 = (r0, st0)" by fastforce
  note load = load_phase_result [OF l]
  have m0: "next_state (po_metrics st0) = None" "\<not> transition_conflict (po_metrics st0)" "po_db st0 = db"
    using load(1,3,4) by (simp_all add: handler_metrics_default_def)
  show ?thesis
  proof (cases "\<exists>x. r0 = Done x")
    case False
    then have "st' = st0" "\<forall>x. r \<noteq> Done x" "r \<noteq> Panicked"
      using assms l load(2) by (auto simp: handle_body_def bind_prog_def split: flow.splits)
    then show ?thesis using body_ends.not_loaded m0 by metis
  next
    case True
    then obtain snap cs where r0: "r0 = Done (snap, cs)" by auto
    have d: "load_object_state io db oid = Ok (Some snap)" "cs = load_controller_state io db oid snap" using load(6) [OF r0] by simp_all
    define run where "run = handle (meanwhile env db) oid snap (ver_value cs)"
    let ?st1 = "st0\<lparr>po_db := meanwhile env db\<rparr>"
    obtain r2 st2 where t: "open_txn env run ?st1 = (r2, st2)" by fastforce
    note txn = open_txn_result [OF t]
    have h: "run_handler handle env oid snap (ver_value cs) st0 = (if handler_elapsed env then (TimedOut, ?st1) else (Done run, ?st1))"
      by (simp add: run_handler_def run_def m0(3))
    have body: "(if handler_elapsed env then (TimedOut, ?st1) else bind_prog (open_txn env run) (store_all io env oid snap (run_snapshot run) cs) ?st1) = (r, st')"
      using assms l r0 h by (cases "handler_elapsed env") (simp_all add: handle_body_def after_load_def bind_prog_def)
    show ?thesis
    proof (cases "\<not> handler_elapsed env \<and> (\<exists>x. r2 = Done x)")
      case False
      then have "st' = ?st1" "\<forall>x. r \<noteq> Done x" "r \<noteq> Panicked"
        using body t txn(1,2) by (auto simp: bind_prog_def split: flow.splits if_splits)
      then show ?thesis using body_ends.nothing_stored [OF _ d(1), of r env handle False] m0 by simp
    next
      case True
      then obtain res view where r2: "r2 = Done (res, view)" by auto
      have "open_txn env run ?st1 = (Done (res, view), ?st1)" using t txn(1) r2 by simp
      moreover from this have "store_all io env oid snap (run_snapshot run) cs (res, view) ?st1 = (r, st')"
        using body True by (simp add: bind_prog_def)
      ultimately show ?thesis using store_all_ends [where handle = handle and env = env, OF d run_def] m0 by simp
    qed
  qed
qed

lemma store_next_error:
  "store_next io env oid snap cs res view st = (r, st') \<Longrightarrow> error (po_metrics st') = error (po_metrics st)"
  by (auto simp: store_next_def pure_def dest: store_transition_result(3) split: sum.splits state_handler_outcome.splits)

lemma store_all_error:
  assumes "store_all io env oid snap snap' cs x st = (r, st')"
  shows "error (po_metrics st') = error (po_metrics st)"
proof (cases x)
  case (Pair res view)
  obtain r1 st1 where n: "store_next io env oid snap' cs res view st = (r1, st1)" by fastforce
  let ?o = "check_sla (time_in_state_above_sla (io_state_sla io cs snap)) res"
  obtain r2 st2 where p: "store_phase io env oid (is_ok res) ?o (snd (case r1 of Done y \<Rightarrow> y)) st1 = (r2, st2)" by fastforce
  show ?thesis using assms Pair n p store_next_error [OF n] store_phase_metrics [OF p]
    by (auto simp: store_all_def bind_prog_def fail_def pure_def publish_def Let_def split: flow.splits sum.splits option.splits prod.splits)
qed

lemma handle_body_error:
  assumes "handle_body io handle env oid st = (r, st')"
  shows "error (po_metrics st') = error (po_metrics st)"
proof -
  obtain r0 st0 where l: "load_phase io env oid st = (r0, st0)" by fastforce
  note e0 = load_phase_result(5) [OF l]
  show ?thesis
  proof (cases "\<exists>x. r0 = Done x")
    case False
    then show ?thesis using assms l e0 by (auto simp: handle_body_def bind_prog_def split: flow.splits)
  next
    case True
    then obtain snap cs where r0: "r0 = Done (snap, cs)" by auto
    let ?run = "handle (meanwhile env (po_db st0)) oid snap (ver_value cs)" and ?st1 = "st0\<lparr>po_db := meanwhile env (po_db st0)\<rparr>"
    obtain r2 st2 where t: "open_txn env ?run ?st1 = (r2, st2)" by fastforce
    have "st' = ?st1 \<or> (\<exists>x. store_all io env oid snap (run_snapshot ?run) cs x ?st1 = (r, st'))"
      using assms l r0 t open_txn_result(1) [OF t]
      by (auto simp: handle_body_def after_load_def bind_prog_def run_handler_def Let_def split: if_splits flow.splits)
    then show ?thesis using e0 by (auto dest: store_all_error)
  qed
qed

lemma process_object_ends:
  assumes "process_object io handle env oid db = Some out"
  obtains r where "body_ends io handle env oid db r (transition_conflict (out_metrics out)) (next_state (out_metrics out)) (out_db out)"
    "out_event out = next_state (out_metrics out)" "r \<noteq> Panicked" "(\<exists>x. r = Done x) \<longleftrightarrow> error (out_metrics out) = None"
proof -
  obtain r st where b: "handle_body io handle env oid \<lparr>po_db = db, po_metrics = handler_metrics_default\<rparr> = (r, st)" by fastforce
  have e: "error (po_metrics st) = None" using handle_body_error [OF b] by (simp add: handler_metrics_default_def)
  show thesis
    by (rule that [of r]) (use assms b e handle_body_ends [OF b] in \<open>auto simp: process_object_def Let_def split: flow.splits\<close>)
qed

lemma process_object_total:
  assumes "cv_now (chrono env) (sys_now env) = Some t"
  shows "\<exists>out. process_object io handle env oid db = Some out"
proof -
  obtain r st where b: "handle_body io handle env oid \<lparr>po_db = db, po_metrics = handler_metrics_default\<rparr> = (r, st)" by fastforce
  have inc: "increment (chrono env) (sys_now env) v = Some \<lparr>version_nr = next_nr (version_nr v), timestamp = t\<rparr>" for v
    using assms by (simp add: increment_def)
  from handle_body_ends [OF b] have "r \<noteq> Panicked" by cases (simp_all add: inc)
  then show ?thesis using b by (cases r) (auto simp: process_object_def Let_def)
qed

lemma process_object_announced:
  assumes "process_object io handle env oid db = Some out" "out_event out = Some s"
  shows "error (out_metrics out) = None \<and> next_state (out_metrics out) = Some s \<and>
    (\<exists>snap src t v1 v2. load_object_state io db oid = Ok (Some snap) \<and>
      (let cs = load_controller_state io db oid snap; run = handle (meanwhile env db) oid snap (ver_value cs)
       in run_result run = Ok (Transition s src t) \<and>
          apply_all (run_writes run) (handler_view (Transition s src t) (meanwhile env db)) = Ok v1 \<and>
          transition_view io env oid cs s v1 = Some (True, v2) \<and>
          out_db out = persist_outcome io oid (PTransition (Some src)) v2))"
proof (rule process_object_ends [OF assms(1)])
  fix r
  assume e: "out_event out = next_state (out_metrics out)" "r \<noteq> Panicked" "(\<exists>x. r = Done x) \<longleftrightarrow> error (out_metrics out) = None"
    and "body_ends io handle env oid db r (transition_conflict (out_metrics out)) (next_state (out_metrics out)) (out_db out)"
  from this(4) show ?thesis
  proof cases
    case (outcome_stored snap cs run outcome va vb)
    then obtain src t where oc: "outcome = Transition s src t" "\<not> transition_conflict (out_metrics out)" "r \<noteq> TimedOut" "\<nexists>e. r = Failed e"
      using e(1) assms(2) by (auto split: state_handler_outcome.splits if_splits)
    then have "error (out_metrics out) = None" using e(2,3) by (cases r) auto
    then show ?thesis using outcome_stored oc e(1) assms(2)
      by (auto simp: Let_def check_sla_simps is_deleted_def)
  qed (use e assms(2) in auto)
qed

text \<open>An invocation in which every \<^verbatim>\<open>await\<close> returns.\<close>

lemma undisturbed_open_txn:
  fixes st :: "('db, 's) po_state"
  assumes "\<And>i. awaits env i = Ready" "run_result run = Ok outcome" "apply_all (run_writes run) (handler_view outcome (po_db st)) = Ok va"
  shows "open_txn env run st = (Done (Ok (replace_txn outcome None), va), st)"
proof (cases "outcome_txn outcome")
  case None
  then show ?thesis using assms by (cases outcome) (auto simp: open_txn_def take_transaction_def bind_prog_def await_at_def pure_def handler_view_def)
next
  case (Some f)
  then show ?thesis using assms by (cases outcome) (auto simp: open_txn_def take_transaction_def bind_prog_def await_at_def pure_def handler_view_def)
qed

lemmas undisturbed_defs = process_object_def handle_body_def after_load_def load_phase_def run_handler_def store_all_def store_next_def
  store_transition_def store_phase_def store_outcome_at_def commit_at_def bind_prog_def await_at_def pure_def observe_def publish_def
  is_ok_def is_deleted_def handler_metrics_default_def Let_def

lemma undisturbed_transition:
  fixes io :: "('o, 'db, 'snap, 's) io_ops"
  assumes "\<And>i. awaits env i = Ready" "\<not> handler_elapsed env" "load_object_state io db oid = Ok (Some snap)"
    and "cs = load_controller_state io db oid snap" "run = handle (meanwhile env db) oid snap (ver_value cs)"
    and "run_result run = Ok (Transition s src t)"
    and "apply_all (run_writes run) (handler_view (Transition s src t) (meanwhile env db)) = Ok va"
    and "increment (chrono env) (sys_now env) (ver_version cs) = Some ver" "persist_controller_state io oid (ver_version cs) ver s va = (won, vb)"
  shows "\<exists>out. process_object io handle env oid db = Some out \<and> out_event out = (if won then Some s else None) \<and>
    next_state (out_metrics out) = (if won then Some s else None) \<and> transition_conflict (out_metrics out) = (\<not> won) \<and>
    out_db out = persist_outcome io oid (PTransition (Some src)) (if won then persist_state_history io oid ver s vb else vb)"
proof -
  have "open_txn env run st = (Done (Ok (replace_txn (Transition s src t) None), va), st)" if "po_db st = meanwhile env db" for st :: "('db, 's) po_state"
    using assms(1,6,7) that by (intro undisturbed_open_txn) auto
  then show ?thesis using assms(1-6,8,9) by (cases won) (simp_all add: undisturbed_defs check_sla_simps)
qed

lemma undisturbed_deletion:
  fixes io :: "('o, 'db, 'snap, 's) io_ops"
  assumes "\<And>i. awaits env i = Ready" "\<not> handler_elapsed env" "load_object_state io db oid = Ok (Some snap)"
    and "cs = load_controller_state io db oid snap" "run = handle (meanwhile env db) oid snap (ver_value cs)"
    and "run_result run = Ok (Deleted src t)"
    and "apply_all (run_writes run) (handler_view (Deleted src t :: ('s, 'db \<Rightarrow> 'db) state_handler_outcome) (meanwhile env db)) = Ok va"
  shows "\<exists>out. process_object io handle env oid db = Some out \<and> out_event out = None \<and> out_db out = va \<and> out_recorder out = Clear (io_show io oid)"
proof -
  have "open_txn env run st = (Done (Ok (replace_txn (Deleted src t) None), va), st)" if "po_db st = meanwhile env db" for st :: "('db, 's) po_state"
    using assms(1,6,7) that by (intro undisturbed_open_txn) auto
  then show ?thesis using assms(1-6) by (simp add: undisturbed_defs check_sla_simps recorder_call_of_def object_gone_def)
qed

lemma demo_clock: "cv_now chrono_doc 0 = Some 0"
  by (simp add: cv_now_def chrono_doc_def chrono_secs_ok_def)

lemma demo_env_clock: "cv_now (chrono (po_demo_env f)) (sys_now (po_demo_env f)) = Some 0"
  by (simp add: po_demo_env_def demo_clock)

lemma demo_run:
  "\<exists>out. process_object demo_io (demo_handler demo_move) (po_demo_env id) ''x'' (demo_state 1 1) = Some out \<and> out_event out = Some 2 \<and>
    fst (out_db out) = Some (versioned_new 2 (demo_version 2))"
  by (simp add: process_object_def handle_body_def after_load_def load_phase_def run_handler_def store_all_def store_next_def
      open_txn_def take_transaction_def demo_handler_def demo_move_def po_demo_env_def demo_io_def demo_state_def increment_def demo_clock
      store_transition_def store_phase_def store_outcome_at_def commit_at_def bind_prog_def await_at_def pure_def observe_def publish_def
      check_sla_simps is_ok_def is_deleted_def handler_metrics_default_def Let_def versioned_new_def demo_version_def next_nr_def)

text \<open>
  C2. An invocation is atomic, wherever it fails or times out: the database keeps what other
  transactions left, gets the error of the handler as the outcome and nothing else, or
  gets all of the handler's transaction, its batch of writes, the transition with its history, and
  the outcome.\<close>
theorem invocation_all_or_nothing:
  assumes "process_object io handle env oid db = Some out"
  shows "out_db out = db \<or> (\<exists>snap. load_object_state io db oid = Ok (Some snap) \<and>
    (let cs = load_controller_state io db oid snap; run = handle (meanwhile env db) oid snap (ver_value cs); base = meanwhile env db
     in out_db out = base \<or> (\<exists>t. out_db out = persist_outcome io oid (PError t None) base) \<or>
        full_effect io env oid run cs base (out_db out)))"
  using assms
proof (rule process_object_ends)
  fix r
  assume "body_ends io handle env oid db r (transition_conflict (out_metrics out)) (next_state (out_metrics out)) (out_db out)"
  then show ?thesis
  proof cases
    case (outcome_stored snap cs run outcome va vb)
    have "full_effect io env oid run cs (meanwhile env db) (out_db out)"
      unfolding full_effect_def using outcome_stored
      by (intro exI [of _ outcome] exI [of _ va] exI [of _ vb]) (auto split: state_handler_outcome.splits if_splits)
    then show ?thesis using outcome_stored(1-3) by (auto simp: Let_def)
  qed (auto simp: Let_def)
qed

theorem invocation_all_or_nothing_witness:
  "\<exists>out. process_object demo_io (demo_handler demo_move) (po_demo_env id) ''x'' (demo_state 1 1) = Some out \<and> out_db out \<noteq> demo_state 1 1 \<and>
    full_effect demo_io (po_demo_env id) ''x'' (demo_handler demo_move (demo_state 1 1) ''x'' () 1) (versioned_new 1 (demo_version 1)) (demo_state 1 1) (out_db out)"
proof -
  obtain out where out: "process_object demo_io (demo_handler demo_move) (po_demo_env id) ''x'' (demo_state 1 1) = Some out"
      "fst (out_db out) = Some (versioned_new 2 (demo_version 2))"
    using demo_run by blast
  have "fst (persist_outcome demo_io x po db) = fst db" for x po db by (simp add: demo_io_def)
  then show ?thesis using invocation_all_or_nothing [OF out(1)] out
    by (auto simp: po_demo_env_def demo_state_def versioned_new_def demo_version_def Let_def demo_io_def)
qed

text \<open>
  C3. A state change is announced only when it is committed: if the invocation emits an event or
  reports a next state, the handler asked for that transition, the version check was won, state,
  history and outcome are in the database, and no error is reported.\<close>
theorem announced_transition_is_committed:
  assumes "process_object io handle env oid db = Some out" "out_event out = Some s"
  shows "error (out_metrics out) = None \<and> next_state (out_metrics out) = Some s \<and>
    (\<exists>snap src t v1 v2. load_object_state io db oid = Ok (Some snap) \<and>
      (let cs = load_controller_state io db oid snap; run = handle (meanwhile env db) oid snap (ver_value cs)
       in run_result run = Ok (Transition s src t) \<and>
          apply_all (run_writes run) (handler_view (Transition s src t) (meanwhile env db)) = Ok v1 \<and>
          transition_view io env oid cs s v1 = Some (True, v2) \<and>
          out_db out = persist_outcome io oid (PTransition (Some src)) v2))"
  using assms by (rule process_object_announced)

theorem announced_transition_is_committed_witness:
  "\<exists>out. process_object demo_io (demo_handler demo_move) (po_demo_env id) ''x'' (demo_state 1 1) = Some out \<and> out_event out = Some 2 \<and>
    error (out_metrics out) = None"
proof -
  obtain out where out: "process_object demo_io (demo_handler demo_move) (po_demo_env id) ''x'' (demo_state 1 1) = Some out" "out_event out = Some 2"
    using demo_run by blast
  then show ?thesis using announced_transition_is_committed [OF out] by blast
qed

text \<open>
  C9. What a failed handler wrote is never committed: if the handler reports an error, or one of
  its batched writes does, then its transaction and its writes are dropped, no event is
  emitted, and at most the error is stored.\<close>
theorem failed_handler_writes_nothing:
  assumes "process_object io handle env oid db = Some out" "load_object_state io db oid = Ok (Some snap)"
    and "run = handle (meanwhile env db) oid snap (ver_value (load_controller_state io db oid snap))"
    and "run_result run = Err e \<or> (\<exists>outcome. run_result run = Ok outcome \<and>
      apply_all (run_writes run) (handler_view outcome (meanwhile env db)) = Err e)"
  shows "out_event out = None \<and> error (out_metrics out) \<noteq> None \<and>
    (out_db out = db \<or> out_db out = meanwhile env db \<or> (\<exists>t. out_db out = persist_outcome io oid (PError t None) (meanwhile env db)))"
proof (rule process_object_ends [OF assms(1)])
  fix r
  assume e: "out_event out = next_state (out_metrics out)" "(\<exists>x. r = Done x) \<longleftrightarrow> error (out_metrics out) = None"
    and "body_ends io handle env oid db r (transition_conflict (out_metrics out)) (next_state (out_metrics out)) (out_db out)"
  from this(3) show ?thesis
  proof cases
    case (outcome_stored snap' cs run' outcome va vb)
    then show ?thesis using assms(2-4) by auto
  qed (use e in auto)
qed

theorem failed_handler_writes_nothing_witness:
  "\<exists>out. process_object demo_io (demo_handler (Err HealthProbeAlert)) (po_demo_env id) ''x'' (demo_state 1 1) = Some out \<and> out_event out = None \<and>
    fst (out_db out) = fst (demo_state 1 1)"
proof -
  obtain out where out: "process_object demo_io (demo_handler (Err HealthProbeAlert)) (po_demo_env id) ''x'' (demo_state 1 1) = Some out"
    using process_object_total [of "po_demo_env id" 0 demo_io "demo_handler (Err HealthProbeAlert)" "''x''" "demo_state 1 1"] demo_env_clock by blast
  have "load_object_state demo_io (demo_state 1 1) ''x'' = Ok (Some ())" by (simp add: demo_io_def demo_state_def)
  from failed_handler_writes_nothing [OF out this refl, of HealthProbeAlert] show ?thesis
    using out by (auto simp: demo_handler_def po_demo_env_def demo_io_def)
qed

text \<open>
  Handling an object never panics, as long as the clock is one chrono can represent.\<close>
theorem process_object_never_panics:
  assumes "cv_now (chrono env) (sys_now env) = Some t"
  shows "\<exists>out. process_object io handle env oid db = Some out"
  using assms by (rule process_object_total)

theorem process_object_never_panics_witness:
  "\<exists>out. process_object demo_io (demo_handler demo_move) (po_demo_env id) ''x'' (demo_state 1 1) = Some out"
  by (rule process_object_never_panics [OF demo_env_clock])

text \<open>
  C36. A transition that loses the version check is not announced, but its outcome is stored as a
  transition all the same, together with the writes of the handler.\<close>
theorem lost_transition_is_stored_as_transition:
  fixes io :: "('o, 'db, 'snap, 's) io_ops"
  assumes "\<And>i. awaits env i = Ready" "\<not> handler_elapsed env" "load_object_state io db oid = Ok (Some snap)"
    and "cs = load_controller_state io db oid snap" "run = handle (meanwhile env db) oid snap (ver_value cs)"
    and "run_result run = Ok (Transition s src t)"
    and "apply_all (run_writes run) (handler_view (Transition s src t) (meanwhile env db)) = Ok va"
    and "transition_view io env oid cs s va = Some (False, vb)"
  shows "\<exists>out. process_object io handle env oid db = Some out \<and> out_event out = None \<and> next_state (out_metrics out) = None \<and>
    transition_conflict (out_metrics out) \<and> out_db out = persist_outcome io oid (PTransition (Some src)) vb"
proof -
  obtain ver where "increment (chrono env) (sys_now env) (ver_version cs) = Some ver" "persist_controller_state io oid (ver_version cs) ver s va = (False, vb)"
  proof -
    obtain ver where i: "increment (chrono env) (sys_now env) (ver_version cs) = Some ver" using assms(8) by (auto simp: transition_view_def)
    then show thesis using assms(8)
      by (cases "persist_controller_state io oid (ver_version cs) ver s va") (auto simp: transition_view_def intro: that split: bool.splits)
  qed
  from undisturbed_transition [where handle = handle and env = env, OF assms(1-7) this] show ?thesis by simp
qed

theorem lost_transition_is_stored_as_transition_witness:
  "\<exists>out. process_object demo_io (demo_handler demo_move) (po_demo_env (\<lambda>_. demo_state 7 9)) ''x'' (demo_state 1 1) = Some out \<and>
    out_db out = (Some (versioned_new 9 (demo_version 7)), [], [PTransition (Some demo_src)])"
proof -
  let ?env = "po_demo_env (\<lambda>_. demo_state 7 9)"
  have "transition_view demo_io ?env ''x'' (versioned_new 1 (demo_version 1)) 2 (demo_state 7 9) = Some (False, demo_state 7 9)"
    by (simp add: transition_view_def po_demo_env_def increment_def demo_clock demo_io_def demo_state_def versioned_new_def demo_version_def)
  then have "\<exists>out. process_object demo_io (demo_handler demo_move) ?env ''x'' (demo_state 1 1) = Some out \<and> out_event out = None \<and>
      next_state (out_metrics out) = None \<and> transition_conflict (out_metrics out) \<and>
      out_db out = persist_outcome demo_io ''x'' (PTransition (Some demo_src)) (demo_state 7 9)"
    by (intro lost_transition_is_stored_as_transition [where cs = "versioned_new 1 (demo_version 1)" and snap = "()" and t = None and s = 2 and va = "demo_state 7 9" and
        run = "demo_handler demo_move (demo_state 7 9) ''x'' () 1"])
      (simp_all add: po_demo_env_def demo_io_def demo_state_def demo_handler_def demo_move_def handler_view_def)
  then show ?thesis by (auto simp: demo_io_def demo_state_def)
qed

end
