(* ===== verification/Work_Locks.thy ===== *)
theory Work_Locks
  imports Resource_Pool
begin

section \<open>Work locks\<close>

text \<open>
  \<^verbatim>\<open>api-db/src/work_lock_manager.rs\<close>: named leases in the table \<^verbatim>\<open>work_locks\<close>, the work loop that
  serves the commands of one server in order, the handles that send commands, the keepalive loop of
  a lock, its release, and the fence that ties a transaction to a lock.

  Worker identifiers are numbers; PostgreSQL draws a new one for every acquisition.  A statement runs,
  does not run, or runs and its answer is lost.  Every server has its own manager; any number of them
  interleave, stop, and lose locks without releasing them.
\<close>

subsection \<open>The table\<close>

type_synonym worker_id = nat

record work_lock_row =
  wl_key :: string
  wl_worker :: worker_id
  wl_started :: datetime
  wl_keepalive :: datetime

type_synonym lock_table = "work_lock_row list"

datatype statement = Ran | NotRan string | RanButFailed string

definition run_statement :: "statement \<Rightarrow> (lock_table \<Rightarrow> 'a \<times> lock_table) \<Rightarrow> lock_table \<Rightarrow> (database_error, 'a) result \<times> lock_table" where
  "run_statement stmt f t =
     (case stmt of
        Ran \<Rightarrow> (Ok (fst (f t)), snd (f t))
      | NotRan e \<Rightarrow> (Err (QueryFailed e), t)
      | RanButFailed e \<Rightarrow> (Err (QueryFailed e), snd (f t)))"

definition expired :: "duration \<Rightarrow> datetime \<Rightarrow> work_lock_row \<Rightarrow> bool" where
  "expired timeout now r \<longleftrightarrow> wl_keepalive r + timeout < now"

definition upsert_lock :: "duration \<Rightarrow> datetime \<Rightarrow> worker_id \<Rightarrow> string \<Rightarrow> lock_table \<Rightarrow> worker_id option \<times> lock_table" where
  "upsert_lock timeout now fresh key t =
     (case find (\<lambda>r. wl_key r = key) t of
        None \<Rightarrow> (Some fresh, t @ [\<lparr>wl_key = key, wl_worker = fresh, wl_started = now, wl_keepalive = now\<rparr>])
      | Some r \<Rightarrow>
          if expired timeout now r
          then (Some fresh, map (\<lambda>r. if wl_key r = key then r\<lparr>wl_worker := fresh, wl_started := now, wl_keepalive := now\<rparr> else r) t)
          else (None, t))"

definition db_try_acquire_lock :: "statement \<Rightarrow> duration \<Rightarrow> datetime \<Rightarrow> worker_id \<Rightarrow> string \<Rightarrow> lock_table
    \<Rightarrow> (database_error, worker_id option) result \<times> lock_table" where
  "db_try_acquire_lock stmt timeout now fresh key = run_statement stmt (upsert_lock timeout now fresh key)"

definition is_row :: "string \<Rightarrow> worker_id \<Rightarrow> work_lock_row \<Rightarrow> bool" where
  "is_row key wid r \<longleftrightarrow> wl_key r = key \<and> wl_worker r = wid"

definition key_and_worker :: "string \<Rightarrow> worker_id \<Rightarrow> string" where
  "key_and_worker key wid = ''work_key='' @ key @ '', worker_id='' @ show_nat wid"

definition release_lock :: "statement \<Rightarrow> string \<Rightarrow> worker_id \<Rightarrow> lock_table \<Rightarrow> (database_error, unit) result \<times> lock_table" where
  "release_lock stmt key wid t =
     (case run_statement stmt (\<lambda>t. (filter (is_row key wid) t, filter (\<lambda>r. \<not> is_row key wid r) t)) t of
        (Inl e, t') \<Rightarrow> (Err e, t')
      | (Inr deleted, t') \<Rightarrow>
          if deleted = [] then (Err (FailedPrecondition (''Tried to release nonexistent lock for '' @ key_and_worker key wid)), t')
          else (Ok (), t'))"

definition keep_lock_alive :: "statement \<Rightarrow> datetime \<Rightarrow> string \<Rightarrow> worker_id \<Rightarrow> lock_table \<Rightarrow> (database_error, unit) result \<times> lock_table" where
  "keep_lock_alive stmt now key wid t =
     (case run_statement stmt (\<lambda>t. (filter (is_row key wid) t, map (\<lambda>r. if is_row key wid r then r\<lparr>wl_keepalive := now\<rparr> else r) t)) t of
        (Inl e, t') \<Rightarrow> (Err e, t')
      | (Inr updated, t') \<Rightarrow>
          if updated = [] then
            (Err (FailedPrecondition (''BUG: Tried to keep alive nonexistent lock for '' @ key_and_worker key wid @
               '' worker likely was not sending keep-alives frequently enough.'')), t')
          else (Ok (), t'))"

text \<open>\<^verbatim>\<open>fence_transaction\<close>: whether the row still names the worker, under a key-share lock.\<close>

definition fence_transaction :: "statement \<Rightarrow> string \<Rightarrow> worker_id \<Rightarrow> lock_table \<Rightarrow> (database_error, unit) result" where
  "fence_transaction stmt key wid t =
     (case fst (run_statement stmt (\<lambda>t. (find (is_row key wid) t, t)) t) of
        Inl e \<Rightarrow> Err e
      | Inr None \<Rightarrow> Err (FailedPrecondition (''work lock is no longer held for '' @ key_and_worker key wid))
      | Inr (Some _) \<Rightarrow> Ok ())"

subsection \<open>Commands and their manager\<close>

record keepalive_config =
  ka_interval :: duration
  ka_timeout :: duration

definition keepalive_config_default :: keepalive_config where
  "keepalive_config_default = \<lparr>ka_interval = 10 * 1000000000, ka_timeout = 60 * 1000000000\<rparr>"

definition COMMAND_BUFFER_SIZE :: nat where
  "COMMAND_BUFFER_SIZE = 100"

datatype command =
    AcquireLock (cmd_key: string)
  | KeepLockAlive (cmd_key: string) (cmd_worker: worker_id)
  | ReleaseLock (cmd_key: string) (cmd_worker: worker_id) (cmd_waits: bool)

record queued_command =
  qc_command :: command
  qc_slot :: bool

record manager =
  mg_queue :: "queued_command list"
  mg_slots :: nat
  mg_up :: bool

definition start_manager :: manager where
  "start_manager = \<lparr>mg_queue = [], mg_slots = COMMAND_BUFFER_SIZE, mg_up = True\<rparr>"

datatype command_dispatch_error = NoCapacity | ManagerShutdown

definition try_send_bounded_command :: "command \<Rightarrow> manager \<Rightarrow> (command_dispatch_error, manager) result" where
  "try_send_bounded_command c m =
     (if mg_slots m = 0 then Err NoCapacity
      else if \<not> mg_up m then Err ManagerShutdown
      else Ok (m\<lparr>mg_queue := mg_queue m @ [\<lparr>qc_command = c, qc_slot = True\<rparr>], mg_slots := mg_slots m - 1\<rparr>))"

definition send_release_command :: "string \<Rightarrow> worker_id \<Rightarrow> bool \<Rightarrow> manager \<Rightarrow> (command_dispatch_error, manager) result" where
  "send_release_command key wid waits m =
     (if \<not> mg_up m then Err ManagerShutdown
      else Ok (m\<lparr>mg_queue := mg_queue m @ [\<lparr>qc_command = ReleaseLock key wid waits, qc_slot = False\<rparr>]\<rparr>))"

datatype acquire_lock_error = WorkAlreadyLocked string | AcquireDatabase database_error | AcquireSend command_dispatch_error | AcquireNoReply

datatype keep_alive_error = LockLost string | KeepAliveDatabase database_error | KeepAliveSend command_dispatch_error | KeepAliveNoReply

datatype work_lock_failure = DatabaseFailed | CommandDispatch | CommandReply | LostLock

fun keep_alive_failure :: "keep_alive_error \<Rightarrow> work_lock_failure" where
  "keep_alive_failure (LockLost _) = LostLock"
| "keep_alive_failure (KeepAliveDatabase _) = DatabaseFailed"
| "keep_alive_failure (KeepAliveSend _) = CommandDispatch"
| "keep_alive_failure KeepAliveNoReply = CommandReply"

fun from_release_error :: "database_error \<Rightarrow> work_lock_failure" where
  "from_release_error (FailedPrecondition _) = LostLock"
| "from_release_error _ = DatabaseFailed"

datatype work_lock_failed =
    ReleaseFailed work_lock_failure string worker_id
  | ReleaseDispatchFailed string worker_id
  | LockLostEvent string worker_id
  | KeepaliveFailed work_lock_failure string worker_id

datatype reply =
    NoReply
  | AcquireReply string "(acquire_lock_error, worker_id) result"
  | KeepAliveReply string worker_id "(keep_alive_error, unit) result"
  | ReleaseReply "(database_error, unit) result"

text \<open>
  One command of \<^verbatim>\<open>run_loop\<close>.  \<open>closed\<close>: the caller of an acquisition has given up before the command
  is looked at.
\<close>

definition run_command :: "statement \<Rightarrow> datetime \<Rightarrow> worker_id \<Rightarrow> duration \<Rightarrow> bool \<Rightarrow> command \<Rightarrow> lock_table
    \<Rightarrow> reply \<times> work_lock_failed list \<times> lock_table" where
  "run_command stmt now fresh timeout closed c t =
     (case c of
        AcquireLock key \<Rightarrow>
          if closed then (NoReply, [], t)
          else (case db_try_acquire_lock stmt timeout now fresh key t of
                  (Inr (Some wid), t') \<Rightarrow> (AcquireReply key (Ok wid), [], t')
                | (Inr None, t') \<Rightarrow> (AcquireReply key (Err (WorkAlreadyLocked key)), [], t')
                | (Inl e, t') \<Rightarrow> (AcquireReply key (Err (AcquireDatabase e)), [], t'))
      | ReleaseLock key wid waits \<Rightarrow>
          (case release_lock stmt key wid t of
             (res, t') \<Rightarrow>
               (if waits then ReleaseReply res else NoReply,
                case res of Inl e \<Rightarrow> [ReleaseFailed (from_release_error e) key wid] | Inr _ \<Rightarrow> [], t'))
      | KeepLockAlive key wid \<Rightarrow>
          (case keep_lock_alive stmt now key wid t of
             (Inr _, t') \<Rightarrow> (KeepAliveReply key wid (Ok ()), [], t')
           | (Inl (FailedPrecondition msg), t') \<Rightarrow> (KeepAliveReply key wid (Err (LockLost msg)), [], t')
           | (Inl e, t') \<Rightarrow> (KeepAliveReply key wid (Err (KeepAliveDatabase e)), [], t')))"

text \<open>
  The end of a manager: its loop ends when all handles are gone and its queue is empty, or its process dies with
  whatever is queued.
\<close>

definition stop_manager :: "manager \<Rightarrow> manager" where
  "stop_manager m = \<lparr>mg_queue = [], mg_slots = mg_slots m + length (filter qc_slot (mg_queue m)), mg_up = False\<rparr>"

definition dequeue_command :: "manager \<Rightarrow> (command \<times> manager) option" where
  "dequeue_command m =
     (case mg_queue m of
        [] \<Rightarrow> None
      | c # cs \<Rightarrow> Some (qc_command c, m\<lparr>mg_queue := cs, mg_slots := mg_slots m + (if qc_slot c then 1 else 0)\<rparr>))"



subsection \<open>Locks\<close>

text \<open>
  A lock that is held.  \<open>lk_confirmed\<close> is the time of the statement that acquired it or of the last
  keepalive that was answered; the program does not store it.
\<close>

record work_lock =
  lk_key :: string
  lk_worker :: worker_id
  lk_manager :: nat
  lk_loop :: bool
  lk_waiting :: bool
  lk_confirmed :: datetime

definition new_lock :: "nat \<Rightarrow> datetime \<Rightarrow> string \<Rightarrow> worker_id \<Rightarrow> work_lock" where
  "new_lock i now key wid = \<lparr>lk_key = key, lk_worker = wid, lk_manager = i, lk_loop = True, lk_waiting = False, lk_confirmed = now\<rparr>"

definition drop_lock :: "bool \<Rightarrow> work_lock \<Rightarrow> manager \<Rightarrow> work_lock_failed list \<times> manager" where
  "drop_lock waits l m =
     (case send_release_command (lk_key l) (lk_worker l) waits m of
        Inl _ \<Rightarrow> ([ReleaseDispatchFailed (lk_key l) (lk_worker l)], m)
      | Inr m' \<Rightarrow> ([], m'))"

text \<open>\<^verbatim>\<open>release\<close>, which waits for the answer: the lock is gone also when the command cannot be sent.\<close>

definition release_now :: "work_lock \<Rightarrow> manager \<Rightarrow> (command_dispatch_error, unit) result \<times> work_lock_failed list \<times> manager" where
  "release_now l m =
     (case send_release_command (lk_key l) (lk_worker l) True m of
        Inl e \<Rightarrow> (Err e, [ReleaseDispatchFailed (lk_key l) (lk_worker l)], m)
      | Inr m' \<Rightarrow> (Ok (), [], m'))"

text \<open>The keepalive loop: a tick sends a command; its answer, or the failure to send it, comes back.\<close>

definition keepalive_answer :: "datetime \<Rightarrow> (keep_alive_error, unit) result \<Rightarrow> work_lock \<Rightarrow> work_lock_failed list \<times> work_lock" where
  "keepalive_answer now res l =
     (case res of
        Inr _ \<Rightarrow> ([], l\<lparr>lk_waiting := False, lk_confirmed := now\<rparr>)
      | Inl (LockLost _) \<Rightarrow> ([LockLostEvent (lk_key l) (lk_worker l)], l\<lparr>lk_waiting := False, lk_loop := False\<rparr>)
      | Inl e \<Rightarrow> ([KeepaliveFailed (keep_alive_failure e) (lk_key l) (lk_worker l)], l\<lparr>lk_waiting := False\<rparr>))"

definition keepalive_tick :: "datetime \<Rightarrow> work_lock \<Rightarrow> manager \<Rightarrow> work_lock_failed list \<times> work_lock \<times> manager" where
  "keepalive_tick now l m =
     (case try_send_bounded_command (KeepLockAlive (lk_key l) (lk_worker l)) m of
        Inl e \<Rightarrow> (case keepalive_answer now (Err (KeepAliveSend e)) l of (ev, l') \<Rightarrow> (ev, l', m))
      | Inr m' \<Rightarrow> ([], l\<lparr>lk_waiting := True\<rparr>, m'))"

subsection \<open>Servers, locks and fenced transactions\<close>

record lock_world =
  lw_clock :: datetime
  lw_table :: lock_table
  lw_used :: "worker_id set"
  lw_managers :: "manager list"
  lw_locks :: "work_lock list"
  lw_fences :: "(nat \<times> string \<times> worker_id) list"

definition init_locks :: lock_world where
  "init_locks = \<lparr>lw_clock = 0, lw_table = [], lw_used = {}, lw_managers = [], lw_locks = [], lw_fences = []\<rparr>"

text \<open>
  A fence holds a key-share lock on the row, so a statement that changes the worker of the row or
  deletes it waits; keepalives do not.
\<close>

definition waits_for_fence :: "duration \<Rightarrow> lock_world \<Rightarrow> command \<Rightarrow> bool" where
  "waits_for_fence timeout w c \<longleftrightarrow>
     (case c of
        AcquireLock key \<Rightarrow> list_ex (\<lambda>(_, k, _). k = key) (lw_fences w) \<and> list_ex (\<lambda>r. wl_key r = key \<and> expired timeout (lw_clock w) r) (lw_table w)
      | ReleaseLock key wid _ \<Rightarrow> list_ex (\<lambda>(_, k, _). k = key) (lw_fences w) \<and> list_ex (is_row key wid) (lw_table w)
      | KeepLockAlive _ _ \<Rightarrow> False)"

text \<open>What a reply does at its receiver; the receiver of a granted lock may be gone (\<open>received = False\<close>).\<close>

definition deliver :: "bool \<Rightarrow> nat \<Rightarrow> datetime \<Rightarrow> reply \<Rightarrow> work_lock list \<Rightarrow> work_lock list" where
  "deliver received i now r locks =
     (case r of
        AcquireReply key (Inr wid) \<Rightarrow> if received then locks @ [new_lock i now key wid] else locks
      | KeepAliveReply key wid res \<Rightarrow>
          map (\<lambda>l. if lk_key l = key \<and> lk_worker l = wid \<and> lk_loop l then snd (keepalive_answer now res l) else l) locks
      | _ \<Rightarrow> locks)"

inductive lock_step :: "duration \<Rightarrow> lock_world \<Rightarrow> lock_world \<Rightarrow> bool" for timeout where
  time: "0 \<le> d \<Longrightarrow> lock_step timeout w (w\<lparr>lw_clock := lw_clock w + d\<rparr>)"
| server: "lock_step timeout w (w\<lparr>lw_managers := lw_managers w @ [start_manager]\<rparr>)"
| stop: "i < length (lw_managers w) \<Longrightarrow>
    lock_step timeout w (w\<lparr>lw_managers := (lw_managers w)[i := stop_manager (lw_managers w ! i)]\<rparr>)"
| ask: "i < length (lw_managers w) \<Longrightarrow> try_send_bounded_command (AcquireLock key) (lw_managers w ! i) = Ok m \<Longrightarrow>
    lock_step timeout w (w\<lparr>lw_managers := (lw_managers w)[i := m]\<rparr>)"
| run_command: "i < length (lw_managers w) \<Longrightarrow> dequeue_command (lw_managers w ! i) = Some (c, m) \<Longrightarrow> fresh \<notin> lw_used w \<Longrightarrow>
    waits_for_fence timeout w c \<longrightarrow> (\<exists>e. stmt = NotRan e) \<Longrightarrow>
    run_command stmt (lw_clock w) fresh timeout closed c (lw_table w) = (r, ev, t) \<Longrightarrow>
    lock_step timeout w (w\<lparr>lw_managers := (lw_managers w)[i := m], lw_table := t, lw_used := insert fresh (lw_used w),
      lw_locks := deliver received i (lw_clock w) r (lw_locks w)\<rparr>)"
| keepalive: "l \<in> set (lw_locks w) \<Longrightarrow> lk_loop l \<Longrightarrow> \<not> lk_waiting l \<Longrightarrow> lk_manager l < length (lw_managers w) \<Longrightarrow>
    keepalive_tick (lw_clock w) l (lw_managers w ! lk_manager l) = (ev, l', m) \<Longrightarrow>
    lock_step timeout w (w\<lparr>lw_managers := (lw_managers w)[lk_manager l := m],
      lw_locks := map (\<lambda>x. if lk_worker x = lk_worker l then l' else x) (lw_locks w)\<rparr>)"
| drop: "l \<in> set (lw_locks w) \<Longrightarrow> lk_manager l < length (lw_managers w) \<Longrightarrow> drop_lock waits l (lw_managers w ! lk_manager l) = (ev, m) \<Longrightarrow>
    lock_step timeout w (w\<lparr>lw_managers := (lw_managers w)[lk_manager l := m],
      lw_locks := filter (\<lambda>x. lk_worker x \<noteq> lk_worker l) (lw_locks w)\<rparr>)"
| vanish: "lock_step timeout w (w\<lparr>lw_locks := filter (\<lambda>x. lk_worker x \<noteq> wid) (lw_locks w)\<rparr>)"
| fence: "l \<in> set (lw_locks w) \<Longrightarrow> fence_transaction stmt (lk_key l) (lk_worker l) (lw_table w) = Ok () \<Longrightarrow>
    lock_step timeout w (w\<lparr>lw_fences := (txn, lk_key l, lk_worker l) # lw_fences w\<rparr>)"
| end_txn: "lock_step timeout w (w\<lparr>lw_fences := filter (\<lambda>(x, _). x \<noteq> txn) (lw_fences w)\<rparr>)"

definition locks_reachable :: "duration \<Rightarrow> lock_world \<Rightarrow> bool" where
  "locks_reachable timeout w \<longleftrightarrow> (lock_step timeout)\<^sup>*\<^sup>* init_locks w"

definition commands :: "lock_world \<Rightarrow> command set" where
  "commands w = (\<Union>m \<in> set (lw_managers w). qc_command ` set (mg_queue m))"

text \<open>A lease is confirmed as long as the last answered statement is not older than the timeout.\<close>

definition confirmed :: "duration \<Rightarrow> lock_world \<Rightarrow> work_lock \<Rightarrow> bool" where
  "confirmed timeout w l \<longleftrightarrow> lw_clock w \<le> lk_confirmed l + timeout"

definition manager_ok :: "manager \<Rightarrow> bool" where
  "manager_ok m \<longleftrightarrow> length (filter qc_slot (mg_queue m)) + mg_slots m = COMMAND_BUFFER_SIZE \<and>
     (\<forall>c \<in> set (mg_queue m). qc_slot c \<longleftrightarrow> \<not> is_ReleaseLock (qc_command c))"

definition lock_inv :: "duration \<Rightarrow> lock_world \<Rightarrow> bool" where
  "lock_inv timeout w \<longleftrightarrow>
     distinct (map wl_key (lw_table w)) \<and> distinct (map lk_worker (lw_locks w)) \<and>
     lk_worker ` set (lw_locks w) \<subseteq> lw_used w \<and> (\<forall>l \<in> set (lw_locks w). lk_confirmed l \<le> lw_clock w) \<and>
     (\<forall>l \<in> set (lw_locks w). confirmed timeout w l \<longrightarrow> (\<exists>r \<in> set (lw_table w). is_row (lk_key l) (lk_worker l) r \<and> lk_confirmed l \<le> wl_keepalive r)) \<and>
     (\<forall>c \<in> commands w. is_ReleaseLock c \<longrightarrow> cmd_worker c \<in> lw_used w - lk_worker ` set (lw_locks w)) \<and>
     (\<forall>(_, k, wid) \<in> set (lw_fences w). \<exists>r \<in> set (lw_table w). is_row k wid r) \<and>
     (\<forall>m \<in> set (lw_managers w). manager_ok m)"

abbreviation touch_row :: "datetime \<Rightarrow> string \<Rightarrow> worker_id \<Rightarrow> work_lock_row \<Rightarrow> work_lock_row" where
  "touch_row now key wid r \<equiv> if is_row key wid r then r\<lparr>wl_keepalive := now\<rparr> else r"


definition demo_locks :: lock_world where
  "demo_locks = \<lparr>lw_clock = 0, lw_table = [\<lparr>wl_key = ''k'', wl_worker = 7, wl_started = 0, wl_keepalive = 0\<rparr>], lw_used = {7},
     lw_managers = [start_manager], lw_locks = [new_lock 0 0 ''k'' 7], lw_fences = []\<rparr>"

lemma release_now_drops: "snd (release_now l m) = drop_lock True l m"
  by (simp add: release_now_def drop_lock_def split: sum.splits)

lemma find_key_None: "find (\<lambda>r. wl_key r = key) t = None \<longleftrightarrow> (\<forall>r \<in> set t. wl_key r \<noteq> key)"
  by (auto simp: find_None_iff)

lemma find_key_Some:
  assumes "distinct (map wl_key t)" "find (\<lambda>r. wl_key r = key) t = Some r" "r' \<in> set t" "wl_key r' = key"
  shows "r' = r"
  using assms by (auto simp: find_Some_iff distinct_map dest: inj_onD nth_mem)

lemma upsert_lock_cases:
  assumes "distinct (map wl_key t)" "upsert_lock timeout now fresh key t = (res, t')"
  obtains (kept) "res = None" "t' = t"
    | (taken) "res = Some fresh" "\<And>r. r \<in> set t \<Longrightarrow> wl_key r = key \<Longrightarrow> expired timeout now r" "distinct (map wl_key t')"
      "set t' = {r \<in> set t. wl_key r \<noteq> key} \<union> {\<lparr>wl_key = key, wl_worker = fresh, wl_started = now, wl_keepalive = now\<rparr>}"
proof (cases "find (\<lambda>r. wl_key r = key) t")
  case None
  then have "\<forall>r \<in> set t. wl_key r \<noteq> key" by (simp add: find_key_None)
  then show thesis using assms None by (intro taken) (auto simp: upsert_lock_def)
next
  case (Some r)
  then have r: "r \<in> set t" "wl_key r = key" by (auto simp: find_Some_iff)
  show thesis
  proof (cases "expired timeout now r")
    case True
    let ?new = "\<lparr>wl_key = key, wl_worker = fresh, wl_started = now, wl_keepalive = now\<rparr>"
    have t': "res = Some fresh" "t' = map (\<lambda>r. if wl_key r = key then r\<lparr>wl_worker := fresh, wl_started := now, wl_keepalive := now\<rparr> else r) t"
      using assms(2) Some True by (auto simp: upsert_lock_def)
    have upd: "x\<lparr>wl_worker := fresh, wl_started := now, wl_keepalive := now\<rparr> = ?new" if "wl_key x = key" for x :: work_lock_row
      using that by (cases x) simp
    have "map wl_key t' = map wl_key t" by (simp add: t'(2))
    moreover have "set t' = {r \<in> set t. wl_key r \<noteq> key} \<union> {?new}"
    proof -
      have "set t' = (\<lambda>x. if wl_key x = key then ?new else x) ` set t" unfolding t'(2) set_map by (intro image_cong refl) (simp add: upd)
      then show ?thesis using r by auto
    qed
    ultimately show thesis using taken t'(1) True find_key_Some [OF assms(1) Some] assms(1) by metis
  next
    case False
    then show thesis using kept assms(2) Some by (simp add: upsert_lock_def)
  qed
qed

lemma acquire_effect:
  assumes "distinct (map wl_key t)" "run_command stmt now fresh timeout closed (AcquireLock key) t = (r, ev, t')"
  obtains (kept) "t' = t" "\<And>wid. r \<noteq> AcquireReply key (Ok wid)" "\<And>k wid x. r \<noteq> KeepAliveReply k wid x" "\<And>k x. r = AcquireReply k x \<Longrightarrow> k = key"
    | (taken) "\<And>r. r \<in> set t \<Longrightarrow> wl_key r = key \<Longrightarrow> expired timeout now r" "distinct (map wl_key t')"
      "set t' = {r \<in> set t. wl_key r \<noteq> key} \<union> {\<lparr>wl_key = key, wl_worker = fresh, wl_started = now, wl_keepalive = now\<rparr>}"
      "\<And>k wid. r = AcquireReply k (Ok wid) \<Longrightarrow> k = key \<and> wid = fresh" "\<And>k wid x. r \<noteq> KeepAliveReply k wid x" "\<nexists>e. stmt = NotRan e"
proof (cases closed)
  case True
  then show thesis using assms(2) kept by (simp add: run_command_def)
next
  case False
  obtain res t1 where u: "upsert_lock timeout now fresh key t = (res, t1)" by fastforce
  show thesis
  proof (rule upsert_lock_cases [OF assms(1) u])
    assume "res = None" "t1 = t"
    then show thesis using kept False assms(2) u
      by (auto simp: run_command_def db_try_acquire_lock_def run_statement_def split: statement.splits)
  next
    assume "res = Some fresh" "\<And>r. r \<in> set t \<Longrightarrow> wl_key r = key \<Longrightarrow> expired timeout now r" "distinct (map wl_key t1)"
      "set t1 = {r \<in> set t. wl_key r \<noteq> key} \<union> {\<lparr>wl_key = key, wl_worker = fresh, wl_started = now, wl_keepalive = now\<rparr>}"
    then show thesis using kept taken False assms(2) u
      by (cases stmt) (auto simp: run_command_def db_try_acquire_lock_def run_statement_def)
  qed
qed

lemma release_effect:
  assumes "run_command stmt now fresh timeout closed (ReleaseLock key wid b) t = (r, ev, t')"
  shows "t' = t \<or> t' = filter (\<lambda>r. \<not> is_row key wid r) t \<and> (\<nexists>e. stmt = NotRan e)" "\<And>k x. r \<noteq> AcquireReply k x" "\<And>k wid x. r \<noteq> KeepAliveReply k wid x"
  using assms
  by (auto simp: run_command_def release_lock_def run_statement_def split: statement.splits sum.splits prod.splits if_splits)

lemma keepalive_effect:
  assumes "run_command stmt now fresh timeout closed (KeepLockAlive key wid) t = (r, ev, t')"
  obtains res where "r = KeepAliveReply key wid res" "t' = t \<or> t' = map (\<lambda>r. if is_row key wid r then r\<lparr>wl_keepalive := now\<rparr> else r) t"
    "res = Ok () \<longrightarrow> t' = map (\<lambda>r. if is_row key wid r then r\<lparr>wl_keepalive := now\<rparr> else r) t \<and> (\<exists>r \<in> set t. is_row key wid r)"
  using assms that
  by (auto simp: run_command_def keep_lock_alive_def run_statement_def filter_empty_conv
      split: statement.splits sum.splits prod.splits if_splits database_error.splits)

lemma manager_ok_simps:
  "manager_ok start_manager" "manager_ok m \<Longrightarrow> manager_ok (stop_manager m)"
  "manager_ok m \<Longrightarrow> try_send_bounded_command c m = Ok m' \<Longrightarrow> \<not> is_ReleaseLock c \<Longrightarrow> manager_ok m'"
  "manager_ok m \<Longrightarrow> send_release_command k wid b m = Ok m' \<Longrightarrow> manager_ok m'"
  "manager_ok m \<Longrightarrow> dequeue_command m = Some (c, m') \<Longrightarrow> manager_ok m'"
  by (auto simp: manager_ok_def start_manager_def stop_manager_def try_send_bounded_command_def send_release_command_def dequeue_command_def
      split: if_splits list.splits)

lemma queue_simps:
  "try_send_bounded_command c m = Ok m' \<Longrightarrow> qc_command ` set (mg_queue m') = insert c (qc_command ` set (mg_queue m))"
  "send_release_command k wid b m = Ok m' \<Longrightarrow> qc_command ` set (mg_queue m') = insert (ReleaseLock k wid b) (qc_command ` set (mg_queue m))"
  "dequeue_command m = Some (c, m') \<Longrightarrow> qc_command ` set (mg_queue m) = insert c (qc_command ` set (mg_queue m'))"
  by (auto simp: try_send_bounded_command_def send_release_command_def dequeue_command_def split: if_splits list.splits)

lemma commands_update:
  assumes "i < length (lw_managers w)" "lw_managers w' = (lw_managers w)[i := m]" "qc_command ` set (mg_queue m) \<subseteq> qc_command ` set (mg_queue (lw_managers w ! i)) \<union> C"
  shows "commands w' \<subseteq> commands w \<union> C"
proof
  fix c
  assume "c \<in> commands w'"
  then obtain m' where m': "m' \<in> set ((lw_managers w)[i := m])" "c \<in> qc_command ` set (mg_queue m')" by (auto simp: commands_def assms(2))
  show "c \<in> commands w \<union> C"
  proof (cases "m' = m")
    case True
    then have "c \<in> qc_command ` set (mg_queue (lw_managers w ! i)) \<union> C" using m'(2) assms(3) by blast
    then show ?thesis using nth_mem [OF assms(1)] unfolding commands_def by blast
  next
    case False
    then have "m' \<in> set (lw_managers w)" using m'(1) set_update_subset_insert by fastforce
    then show ?thesis using m'(2) unfolding commands_def by blast
  qed
qed

lemma managers_update:
  assumes "\<forall>m \<in> set ms. manager_ok m" "manager_ok m"
  shows "\<forall>m \<in> set (ms[i := m]). manager_ok m"
  using assms set_update_subset_insert by fastforce

lemma lock_inv_managers:
  assumes "lock_inv timeout w" "i < length (lw_managers w)" "manager_ok m"
    "qc_command ` set (mg_queue m) \<subseteq> qc_command ` set (mg_queue (lw_managers w ! i)) \<union> C"
    "\<forall>c \<in> C. is_ReleaseLock c \<longrightarrow> cmd_worker c \<in> lw_used w - lk_worker ` set (lw_locks w)"
  shows "lock_inv timeout (w\<lparr>lw_managers := (lw_managers w)[i := m]\<rparr>)"
proof -
  have "commands (w\<lparr>lw_managers := (lw_managers w)[i := m]\<rparr>) \<subseteq> commands w \<union> C"
    by (rule commands_update [OF assms(2) _ assms(4)]) simp
  then have "\<forall>c \<in> commands (w\<lparr>lw_managers := (lw_managers w)[i := m]\<rparr>). is_ReleaseLock c \<longrightarrow>
      cmd_worker c \<in> lw_used w - lk_worker ` set (lw_locks w)"
    using assms(1,5) unfolding lock_inv_def by blast
  moreover have "\<forall>m \<in> set ((lw_managers w)[i := m]). manager_ok m"
    using assms(1) by (intro managers_update [OF _ assms(3)]) (simp add: lock_inv_def)
  ultimately show ?thesis using assms(1) unfolding lock_inv_def confirmed_def by simp
qed

lemma lock_invD:
  assumes "lock_inv timeout w"
  shows "distinct (map wl_key (lw_table w))" "distinct (map lk_worker (lw_locks w))" "lk_worker ` set (lw_locks w) \<subseteq> lw_used w"
    and "\<And>l. l \<in> set (lw_locks w) \<Longrightarrow> lk_confirmed l \<le> lw_clock w"
    and "\<And>l. l \<in> set (lw_locks w) \<Longrightarrow> confirmed timeout w l \<Longrightarrow> \<exists>r \<in> set (lw_table w). is_row (lk_key l) (lk_worker l) r \<and> lk_confirmed l \<le> wl_keepalive r"
    and "\<And>c. c \<in> commands w \<Longrightarrow> is_ReleaseLock c \<Longrightarrow> cmd_worker c \<in> lw_used w - lk_worker ` set (lw_locks w)"
    and "\<And>x k wid. (x, k, wid) \<in> set (lw_fences w) \<Longrightarrow> \<exists>r \<in> set (lw_table w). is_row k wid r"
    and "\<And>m. m \<in> set (lw_managers w) \<Longrightarrow> manager_ok m"
  using assms unfolding lock_inv_def by blast+

text \<open>A change of the table and of the held locks keeps the invariant under these conditions.\<close>

lemma lock_inv_change:
  assumes inv: "lock_inv timeout w" and keys: "distinct (map wl_key t)" and workers: "distinct (map lk_worker ls)"
    and new: "\<And>l. l \<in> set ls \<Longrightarrow> lk_worker l \<in> lk_worker ` set (lw_locks w) \<or> lk_worker l \<in> u - lw_used w" and sub: "lw_used w \<subseteq> u"
    and past: "\<And>l. l \<in> set ls \<Longrightarrow> lk_confirmed l \<le> lw_clock w"
    and rows: "\<And>l. l \<in> set ls \<Longrightarrow> confirmed timeout w l \<Longrightarrow> \<exists>r \<in> set t. is_row (lk_key l) (lk_worker l) r \<and> lk_confirmed l \<le> wl_keepalive r"
    and fences: "\<And>x k wid. (x, k, wid) \<in> set (lw_fences w) \<Longrightarrow> \<exists>r \<in> set t. is_row k wid r"
  shows "lock_inv timeout (w\<lparr>lw_table := t, lw_used := u, lw_locks := ls\<rparr>)"
proof -
  note D = lock_invD [OF inv]
  have "lk_worker ` set ls \<subseteq> u" using new sub D(3) by blast
  moreover have "cmd_worker c \<in> u - lk_worker ` set ls" if c: "c \<in> commands w" "is_ReleaseLock c" for c
  proof -
    have "cmd_worker c \<noteq> lk_worker l" if "l \<in> set ls" for l using new [OF that] D(6) [OF c] by auto
    then show ?thesis using D(6) [OF c] sub by auto
  qed
  moreover have "\<forall>(x, k, wid) \<in> set (lw_fences w). \<exists>r \<in> set t. is_row k wid r" using fences by blast
  ultimately show ?thesis using keys workers past rows D(8) by (simp add: lock_inv_def commands_def confirmed_def)
qed

lemma lock_inv_acquire:
  assumes inv: "lock_inv timeout w" and fresh: "fresh \<notin> lw_used w"
    and run: "run_command stmt (lw_clock w) fresh timeout closed (AcquireLock key) (lw_table w) = (r, ev, t)"
    and fence: "waits_for_fence timeout w (AcquireLock key) \<longrightarrow> (\<exists>e. stmt = NotRan e)"
  shows "lock_inv timeout (w\<lparr>lw_table := t, lw_used := insert fresh (lw_used w), lw_locks := deliver received i (lw_clock w) r (lw_locks w)\<rparr>)"
proof (rule acquire_effect [OF lock_invD(1) [OF inv] run])
  note D = lock_invD [OF inv]
  assume k: "t = lw_table w" "\<And>wid. r \<noteq> AcquireReply key (Ok wid)" "\<And>k wid x. r \<noteq> KeepAliveReply k wid x" "\<And>k x. r = AcquireReply k x \<Longrightarrow> k = key"
  have "deliver received i (lw_clock w) r (lw_locks w) = lw_locks w"
    using k(2,3) k(4) by (cases r) (force simp: deliver_def split: sum.splits)+
  then show ?thesis using D by (intro lock_inv_change inv) (auto simp: k(1))
next
  note D = lock_invD [OF inv]
  let ?new = "\<lparr>wl_key = key, wl_worker = fresh, wl_started = lw_clock w, wl_keepalive = lw_clock w\<rparr>"
  let ?locks = "deliver received i (lw_clock w) r (lw_locks w)"
  assume k: "\<And>r. r \<in> set (lw_table w) \<Longrightarrow> wl_key r = key \<Longrightarrow> expired timeout (lw_clock w) r" "distinct (map wl_key t)"
    "set t = {r \<in> set (lw_table w). wl_key r \<noteq> key} \<union> {?new}"
    "\<And>k wid. r = AcquireReply k (Ok wid) \<Longrightarrow> k = key \<and> wid = fresh" "\<And>k wid x. r \<noteq> KeepAliveReply k wid x" "\<nexists>e. stmt = NotRan e"
  have locks: "?locks = lw_locks w \<or> ?locks = lw_locks w @ [new_lock i (lw_clock w) key fresh]"
    using k(4,5) by (auto simp: deliver_def split: reply.splits sum.splits)
  have kept: "x \<in> set t" if "x \<in> set (lw_table w)" "wl_key x = key \<Longrightarrow> \<not> expired timeout (lw_clock w) x" for x
    using that k(1) unfolding k(3) by blast
  have old: "\<exists>x \<in> set t. is_row (lk_key l) (lk_worker l) x \<and> lk_confirmed l \<le> wl_keepalive x"
    if l: "l \<in> set (lw_locks w)" "confirmed timeout w l" for l
  proof -
    obtain x where x: "x \<in> set (lw_table w)" "is_row (lk_key l) (lk_worker l) x" "lk_confirmed l \<le> wl_keepalive x" using D(5) [OF l] by blast
    then have "\<not> expired timeout (lw_clock w) x" using l(2) by (simp add: expired_def confirmed_def)
    then show ?thesis using kept x by blast
  qed
  have fences: "\<exists>x \<in> set t. is_row f wid x" if f: "(n, f, wid) \<in> set (lw_fences w)" for n f wid
  proof -
    obtain x where x: "x \<in> set (lw_table w)" "is_row f wid x" using D(7) [OF f] by blast
    have "waits_for_fence timeout w (AcquireLock key)" if "wl_key x = key" "expired timeout (lw_clock w) x"
      using f x that by (auto simp: waits_for_fence_def list_ex_iff is_row_def split_beta intro: bexI [rotated])
    then show ?thesis using fence k(6) kept x by blast
  qed
  have new: "\<exists>x \<in> set t. is_row key fresh x \<and> lw_clock w \<le> wl_keepalive x" unfolding k(3) by (auto simp: is_row_def)
  have rows: "\<exists>x \<in> set t. is_row (lk_key l) (lk_worker l) x \<and> lk_confirmed l \<le> wl_keepalive x"
    if l: "l \<in> set ?locks" "confirmed timeout w l" for l
  proof (cases "l \<in> set (lw_locks w)")
    case False
    then have "l = new_lock i (lw_clock w) key fresh" using locks l(1) by auto
    then show ?thesis using new by (simp add: new_lock_def)
  qed (rule old [OF _ l(2)])
  have "fresh \<notin> lk_worker ` set (lw_locks w)" using fresh D(3) by blast
  then show ?thesis using locks fresh D(2,4)
    by (intro lock_inv_change inv k(2) fences rows) (auto simp: new_lock_def)
qed

lemma lock_inv_release:
  assumes inv: "lock_inv timeout w" and held: "wid \<notin> lk_worker ` set (lw_locks w)"
    and run: "run_command stmt (lw_clock w) fresh timeout closed (ReleaseLock key wid b) (lw_table w) = (r, ev, t)"
    and fence: "waits_for_fence timeout w (ReleaseLock key wid b) \<longrightarrow> (\<exists>e. stmt = NotRan e)"
  shows "lock_inv timeout (w\<lparr>lw_table := t, lw_used := insert fresh (lw_used w), lw_locks := deliver received i (lw_clock w) r (lw_locks w)\<rparr>)"
proof -
  note D = lock_invD [OF inv] and E = release_effect [OF run]
  have locks: "deliver received i (lw_clock w) r (lw_locks w) = lw_locks w" using E(2,3) by (cases r) (auto simp: deliver_def)
  have kept: "x \<in> set t" if "x \<in> set (lw_table w)" "\<exists>e. stmt = NotRan e \<or> \<not> is_row key wid x" for x
    using that E(1) by auto
  have rows: "\<exists>x \<in> set t. is_row (lk_key l) (lk_worker l) x \<and> lk_confirmed l \<le> wl_keepalive x"
    if l: "l \<in> set (lw_locks w)" "confirmed timeout w l" for l
  proof -
    obtain x where x: "x \<in> set (lw_table w)" "is_row (lk_key l) (lk_worker l) x" "lk_confirmed l \<le> wl_keepalive x" using D(5) [OF l] by blast
    have "\<not> is_row key wid x" using x(2) held l(1) by (auto simp: is_row_def)
    then show ?thesis using kept x by blast
  qed
  have fences: "\<exists>x \<in> set t. is_row f v x" if f: "(n, f, v) \<in> set (lw_fences w)" for n f v
  proof -
    obtain x where x: "x \<in> set (lw_table w)" "is_row f v x" using D(7) [OF f] by blast
    have "waits_for_fence timeout w (ReleaseLock key wid b)" if "is_row key wid x"
      using f x that by (auto simp: waits_for_fence_def list_ex_iff is_row_def split_beta intro: bexI [rotated])
    then show ?thesis using fence kept x by blast
  qed
  have "distinct (map wl_key t)" using E(1) D(1) by (auto simp: distinct_map_filter)
  then show ?thesis unfolding locks using D(2,4) by (intro lock_inv_change inv rows fences) auto
qed

lemma keepalive_answer_same:
  assumes "keepalive_answer now res l = (ev, l')"
  shows "lk_key l' = lk_key l" "lk_worker l' = lk_worker l" "lk_confirmed l' = (if res = Ok () then now else lk_confirmed l)"
  using assms by (auto simp: keepalive_answer_def split: sum.splits keep_alive_error.splits)

lemma deliver_keepalive:
  assumes "l \<in> set (deliver received i now (KeepAliveReply key wid res) locks)"
  obtains l0 where "l0 \<in> set locks" "lk_key l = lk_key l0" "lk_worker l = lk_worker l0"
    "lk_confirmed l = lk_confirmed l0 \<or> lk_confirmed l = now \<and> lk_key l = key \<and> lk_worker l = wid \<and> res = Ok ()"
  using assms keepalive_answer_same [OF surjective_pairing, of now res] by (auto simp: deliver_def split: if_splits)

lemma deliver_keepalive_workers: "map lk_worker (deliver received i now (KeepAliveReply key wid res) locks) = map lk_worker locks"
  using keepalive_answer_same(2) [OF surjective_pairing, of now res] by (simp add: deliver_def)

lemma lock_inv_keep_alive:
  assumes inv: "lock_inv timeout w"
    and run: "run_command stmt (lw_clock w) fresh timeout closed (KeepLockAlive key wid) (lw_table w) = (r, ev, t)"
  shows "lock_inv timeout (w\<lparr>lw_table := t, lw_used := insert fresh (lw_used w), lw_locks := deliver received i (lw_clock w) r (lw_locks w)\<rparr>)"
proof -
  note D = lock_invD [OF inv]
  let ?touch = "touch_row (lw_clock w) key wid"
  obtain res where res: "r = KeepAliveReply key wid res" "t = lw_table w \<or> t = map ?touch (lw_table w)"
    "res = Ok () \<longrightarrow> t = map ?touch (lw_table w) \<and> (\<exists>r \<in> set (lw_table w). is_row key wid r)"
    by (rule keepalive_effect [OF run])
  let ?locks = "deliver received i (lw_clock w) r (lw_locks w)"
  have kept: "\<exists>y \<in> set t. is_row k v y \<and> (wl_keepalive y = wl_keepalive x \<or> wl_keepalive y = lw_clock w)"
    if x: "x \<in> set (lw_table w)" "is_row k v x" for x k v
  proof (cases "t = lw_table w")
    case False
    then have "?touch x \<in> set t" using res(2) x(1) by auto
    then show ?thesis using x(2) by (intro bexI [of _ "?touch x"]) (auto simp: is_row_def)
  qed (use x in blast)
  have rows: "\<exists>x \<in> set t. is_row (lk_key l) (lk_worker l) x \<and> lk_confirmed l \<le> wl_keepalive x"
    if l: "l \<in> set ?locks" "confirmed timeout w l" for l
    using l(1) unfolding res(1)
  proof (rule deliver_keepalive)
    fix l0
    assume l0: "l0 \<in> set (lw_locks w)" "lk_key l = lk_key l0" "lk_worker l = lk_worker l0"
      "lk_confirmed l = lk_confirmed l0 \<or> lk_confirmed l = lw_clock w \<and> lk_key l = key \<and> lk_worker l = wid \<and> res = Ok ()"
    show ?thesis
    proof (cases "res = Ok () \<and> lk_key l = key \<and> lk_worker l = wid")
      case True
      then obtain x where x: "x \<in> set (lw_table w)" "is_row key wid x" using res(3) by blast
      then have "?touch x \<in> set t" using res(3) True by auto
      then show ?thesis using True x(2) l0(4) D(4) [OF l0(1)] by (intro bexI [of _ "?touch x"]) (auto simp: is_row_def)
    next
      case False
      then have c: "lk_confirmed l = lk_confirmed l0" using l0(4) by blast
      then have "confirmed timeout w l0" using l(2) by (simp add: confirmed_def)
      then obtain x where x: "x \<in> set (lw_table w)" "is_row (lk_key l0) (lk_worker l0) x" "lk_confirmed l0 \<le> wl_keepalive x" using D(5) l0(1) by blast
      obtain y where "y \<in> set t" "is_row (lk_key l0) (lk_worker l0) y" "wl_keepalive y = wl_keepalive x \<or> wl_keepalive y = lw_clock w"
        using kept [OF x(1,2)] by blast
      then show ?thesis using x(3) c D(4) [OF l0(1)] unfolding l0(2,3) by (intro bexI [of _ y]) auto
    qed
  qed
  have known: "lk_worker l \<in> lk_worker ` set (lw_locks w)" and past: "lk_confirmed l \<le> lw_clock w" if l: "l \<in> set ?locks" for l
  proof -
    obtain l0 where "l0 \<in> set (lw_locks w)" "lk_worker l = lk_worker l0" "lk_confirmed l = lk_confirmed l0 \<or> lk_confirmed l = lw_clock w"
      using l unfolding res(1) by (rule deliver_keepalive) blast
    then show "lk_worker l \<in> lk_worker ` set (lw_locks w)" "lk_confirmed l \<le> lw_clock w" using D(4) by force+
  qed
  have fences: "\<exists>x \<in> set t. is_row f v x" if "(n, f, v) \<in> set (lw_fences w)" for n f v
    using D(7) [OF that] kept by blast
  have "map wl_key t = map wl_key (lw_table w)" using res(2) by auto
  then have "distinct (map wl_key t)" using D(1) by simp
  moreover have "distinct (map lk_worker ?locks)" unfolding res(1) deliver_keepalive_workers by (rule D(2))
  ultimately show ?thesis using known by (intro lock_inv_change inv past rows fences) auto
qed

lemma lock_inv_run:
  assumes inv: "lock_inv timeout w" and i: "i < length (lw_managers w)" and deq: "dequeue_command (lw_managers w ! i) = Some (c, m)" and fresh: "fresh \<notin> lw_used w"
    and fence: "waits_for_fence timeout w c \<longrightarrow> (\<exists>e. stmt = NotRan e)"
    and run: "run_command stmt (lw_clock w) fresh timeout closed c (lw_table w) = (r, ev, t)"
  shows "lock_inv timeout (w\<lparr>lw_managers := (lw_managers w)[i := m], lw_table := t, lw_used := insert fresh (lw_used w),
    lw_locks := deliver received i (lw_clock w) r (lw_locks w)\<rparr>)"
proof -
  let ?w = "w\<lparr>lw_managers := (lw_managers w)[i := m]\<rparr>"
  have c: "c \<in> commands w" using queue_simps(3) [OF deq] nth_mem [OF i] unfolding commands_def by blast
  have "manager_ok m" using lock_invD(8) [OF inv nth_mem [OF i]] deq by (rule manager_ok_simps(5))
  then have inv': "lock_inv timeout ?w" using queue_simps(3) [OF deq] by (intro lock_inv_managers [OF inv i, where C = "{}"]) auto
  have fence': "waits_for_fence timeout ?w c \<longrightarrow> (\<exists>e. stmt = NotRan e)" using fence by (simp add: waits_for_fence_def split: command.splits)
  have "lock_inv timeout (?w\<lparr>lw_table := t, lw_used := insert fresh (lw_used ?w), lw_locks := deliver received i (lw_clock ?w) r (lw_locks ?w)\<rparr>)"
  proof (cases c)
    case (AcquireLock key)
    then show ?thesis using fresh run fence' by (intro lock_inv_acquire [OF inv']) auto
  next
    case (KeepLockAlive key wid)
    then show ?thesis using run by (intro lock_inv_keep_alive [OF inv']) auto
  next
    case (ReleaseLock key wid b)
    then have "wid \<notin> lk_worker ` set (lw_locks w)" using lock_invD(6) [OF inv c] by auto
    then show ?thesis using run fence' ReleaseLock by (intro lock_inv_release [OF inv']) auto
  qed
  then show ?thesis by simp
qed

text \<open>Dropping locks, or changing what the leases do not depend on.\<close>

lemma lock_inv_locks:
  assumes inv: "lock_inv timeout w" and workers: "distinct (map lk_worker ls)"
    and old: "\<And>l. l \<in> set ls \<Longrightarrow> \<exists>l0 \<in> set (lw_locks w). lk_key l = lk_key l0 \<and> lk_worker l = lk_worker l0 \<and> lk_confirmed l = lk_confirmed l0"
  shows "lock_inv timeout (w\<lparr>lw_locks := ls\<rparr>)"
proof -
  note D = lock_invD [OF inv]
  have rows: "\<exists>r \<in> set (lw_table w). is_row (lk_key l) (lk_worker l) r \<and> lk_confirmed l \<le> wl_keepalive r"
    if l: "l \<in> set ls" "confirmed timeout w l" for l
  proof -
    obtain l0 where l0: "l0 \<in> set (lw_locks w)" "lk_key l = lk_key l0" "lk_worker l = lk_worker l0" "lk_confirmed l = lk_confirmed l0" using old [OF l(1)] by blast
    then have "confirmed timeout w l0" using l(2) by (simp add: confirmed_def)
    then show ?thesis using D(5) [OF l0(1)] unfolding l0(2-4) by blast
  qed
  have "lk_worker l \<in> lk_worker ` set (lw_locks w)" "lk_confirmed l \<le> lw_clock w" if "l \<in> set ls" for l
    using old [OF that] D(4) by force+
  then have "lock_inv timeout (w\<lparr>lw_table := lw_table w, lw_used := lw_used w, lw_locks := ls\<rparr>)"
    using D(1,7) by (intro lock_inv_change inv workers rows) auto
  then show ?thesis by simp
qed

lemma lock_inv_forget:
  assumes inv: "lock_inv timeout w"
  shows "lock_inv timeout (w\<lparr>lw_locks := filter (\<lambda>x. lk_worker x \<noteq> wid) (lw_locks w)\<rparr>)"
proof (rule lock_inv_locks [OF inv])
  show "distinct (map lk_worker (filter (\<lambda>x. lk_worker x \<noteq> wid) (lw_locks w)))" using lock_invD(2) [OF inv] by (rule distinct_map_filter)
qed (simp, blast)

lemma lock_inv_drop:
  assumes inv: "lock_inv timeout w" and l: "l \<in> set (lw_locks w)" "lk_manager l < length (lw_managers w)"
    and drop: "drop_lock waits l (lw_managers w ! lk_manager l) = (ev, m)"
  shows "lock_inv timeout (w\<lparr>lw_managers := (lw_managers w)[lk_manager l := m], lw_locks := filter (\<lambda>x. lk_worker x \<noteq> lk_worker l) (lw_locks w)\<rparr>)"
proof -
  let ?w = "w\<lparr>lw_locks := filter (\<lambda>x. lk_worker x \<noteq> lk_worker l) (lw_locks w)\<rparr>" and ?m = "lw_managers w ! lk_manager l"
  have ok: "manager_ok ?m" using lock_invD(8) [OF inv nth_mem [OF l(2)]] .
  have "lk_worker l \<in> lw_used w" using lock_invD(3) [OF inv] l(1) by blast
  moreover have "manager_ok m \<and> qc_command ` set (mg_queue m) \<subseteq> qc_command ` set (mg_queue ?m) \<union> {ReleaseLock (lk_key l) (lk_worker l) waits}"
  proof (cases "send_release_command (lk_key l) (lk_worker l) waits ?m")
    case (Inr m1)
    then show ?thesis using drop manager_ok_simps(4) [OF ok Inr] queue_simps(2) [OF Inr] by (auto simp: drop_lock_def)
  qed (use drop ok in \<open>auto simp: drop_lock_def\<close>)
  ultimately have "lock_inv timeout (?w\<lparr>lw_managers := (lw_managers ?w)[lk_manager l := m]\<rparr>)"
    using l(2) by (intro lock_inv_managers [OF lock_inv_forget [OF inv], where C = "{ReleaseLock (lk_key l) (lk_worker l) waits}"]) auto
  then show ?thesis by (cases w) simp
qed

lemma keepalive_tick_effect:
  assumes "keepalive_tick now l m = (ev, l', m')"
  obtains "lk_key l' = lk_key l" "lk_worker l' = lk_worker l" "lk_confirmed l' = lk_confirmed l"
    "m' = m \<or> try_send_bounded_command (KeepLockAlive (lk_key l) (lk_worker l)) m = Ok m'"
proof (cases "try_send_bounded_command (KeepLockAlive (lk_key l) (lk_worker l)) m")
  case (Inl e)
  then have "keepalive_answer now (Err (KeepAliveSend e)) l = (ev, l')" "m' = m" using assms by (auto simp: keepalive_tick_def split: prod.splits)
  then show thesis using keepalive_answer_same [of now "Err (KeepAliveSend e)" l ev l'] that by simp
next
  case (Inr m1)
  then show thesis using assms that by (auto simp: keepalive_tick_def)
qed

lemma lock_inv_tick:
  assumes inv: "lock_inv timeout w" and l: "l \<in> set (lw_locks w)" "lk_manager l < length (lw_managers w)"
    and tick: "keepalive_tick (lw_clock w) l (lw_managers w ! lk_manager l) = (ev, l', m)"
  shows "lock_inv timeout (w\<lparr>lw_managers := (lw_managers w)[lk_manager l := m],
      lw_locks := map (\<lambda>x. if lk_worker x = lk_worker l then l' else x) (lw_locks w)\<rparr>)"
proof -
  let ?ls = "map (\<lambda>x. if lk_worker x = lk_worker l then l' else x) (lw_locks w)" and ?m = "lw_managers w ! lk_manager l"
  obtain e: "lk_key l' = lk_key l" "lk_worker l' = lk_worker l" "lk_confirmed l' = lk_confirmed l"
    "m = ?m \<or> try_send_bounded_command (KeepLockAlive (lk_key l) (lk_worker l)) ?m = Ok m"
    by (rule keepalive_tick_effect [OF tick])
  have ok: "manager_ok ?m" using lock_invD(8) [OF inv nth_mem [OF l(2)]] .
  have "map lk_worker ?ls = map lk_worker (lw_locks w)" using e(2) by simp
  then have "distinct (map lk_worker ?ls)" using lock_invD(2) [OF inv] by (simp only:)
  then have inv': "lock_inv timeout (w\<lparr>lw_locks := ?ls\<rparr>)" using e(1-3) l(1) by (intro lock_inv_locks inv) auto
  have "manager_ok m \<and> qc_command ` set (mg_queue m) \<subseteq> qc_command ` set (mg_queue ?m) \<union> {KeepLockAlive (lk_key l) (lk_worker l)}"
    using e(4)
  proof
    assume "try_send_bounded_command (KeepLockAlive (lk_key l) (lk_worker l)) ?m = Ok m"
    then show ?thesis using manager_ok_simps(3) [OF ok] queue_simps(1) by simp
  qed (use ok in auto)
  then have "lock_inv timeout (w\<lparr>lw_locks := ?ls, lw_managers := (lw_managers w)[lk_manager l := m]\<rparr>)"
    using l(2) lock_inv_managers [OF inv', of "lk_manager l" m "{KeepLockAlive (lk_key l) (lk_worker l)}"] by simp
  then show ?thesis by (cases w) simp
qed

lemma lock_inv_step:
  assumes "lock_step timeout w w'" "lock_inv timeout w"
  shows "lock_inv timeout w'"
  using assms
proof (induction rule: lock_step.induct)
  case (time d w)
  then have past: "confirmed timeout w l" if "confirmed timeout (w\<lparr>lw_clock := lw_clock w + d\<rparr>) l" for l using that by (simp add: confirmed_def)
  have "lk_confirmed l \<le> lw_clock w + d" if "l \<in> set (lw_locks w)" for l using lock_invD(4) [OF time(2) that] time(1) by simp
  then show ?case using time(2) past unfolding lock_inv_def commands_def by simp
next
  case (server w)
  then show ?case by (simp add: lock_inv_def confirmed_def commands_def manager_ok_simps(1)) (simp add: start_manager_def)
next
  case (stop i w)
  then have "manager_ok (stop_manager (lw_managers w ! i))" using lock_invD(8) [OF stop(2) nth_mem] by (intro manager_ok_simps(2))
  then show ?case using stop by (intro lock_inv_managers [where C = "{}"]) (auto simp: stop_manager_def)
next
  case (ask i w key m)
  have ok: "manager_ok m" using manager_ok_simps(3) [OF lock_invD(8) [OF ask(3) nth_mem [OF ask(1)]] ask(2)] by simp
  show ?case by (rule lock_inv_managers [OF ask(3,1) ok, where C = "{AcquireLock key}"]) (use queue_simps(1) [OF ask(2)] in auto)
next
  case (fence l w stmt txn)
  have "\<exists>r \<in> set (lw_table w). is_row (lk_key l) (lk_worker l) r"
    using fence(2) by (auto simp: fence_transaction_def run_statement_def find_Some_iff split: sum.splits option.splits statement.splits)
  then show ?case using fence(3) unfolding lock_inv_def confirmed_def commands_def by simp
next
  case (end_txn w txn)
  then show ?case unfolding lock_inv_def confirmed_def commands_def by (simp add: split_beta)
next
  case (run_command i w c m fresh stmt closed r ev t received)
  show ?case by (rule lock_inv_run [OF run_command(6,1-5)])
next
  case (keepalive l w ev l' m)
  show ?case by (rule lock_inv_tick [OF keepalive(6,1,4,5)])
next
  case (drop l w waits ev m)
  show ?case by (rule lock_inv_drop [OF drop(4,1-3)])
next
  case (vanish w wid)
  then show ?case by (rule lock_inv_forget)
qed

lemma lock_inv_reachable:
  assumes "locks_reachable timeout w"
  shows "lock_inv timeout w"
  using assms unfolding locks_reachable_def
proof (induction rule: rtranclp_induct)
  case base
  show ?case by (simp add: lock_inv_def init_locks_def commands_def)
next
  case (step w w')
  then show ?case using lock_inv_step by blast
qed

lemma one_worker:
  assumes "distinct (map wl_key t)" "r \<in> set t" "is_row key wid r" "r' \<in> set t" "is_row key wid' r'"
  shows "wid = wid'"
  using assms inj_onD [of wl_key "set t" r r'] by (auto simp: distinct_map is_row_def)

subsection \<open>A release before the next acquisition\<close>






lemma demo_locks_reachable: "locks_reachable 60 demo_locks"
proof -
  let ?w1 = "init_locks\<lparr>lw_managers := [start_manager]\<rparr>"
  let ?m = "start_manager\<lparr>mg_queue := [\<lparr>qc_command = AcquireLock ''k'', qc_slot = True\<rparr>], mg_slots := 99\<rparr>"
  let ?w2 = "?w1\<lparr>lw_managers := [?m]\<rparr>"
  have "lock_step 60 init_locks ?w1" using lock_step.server [of 60 init_locks] by (simp add: init_locks_def)
  moreover have "lock_step 60 ?w1 ?w2"
    using lock_step.ask [of 0 ?w1 "''k''" ?m 60] by (simp add: try_send_bounded_command_def start_manager_def COMMAND_BUFFER_SIZE_def)
  moreover have "lock_step 60 ?w2 demo_locks"
    using lock_step.run_command [of 0 ?w2 "AcquireLock ''k''" start_manager 7 60 Ran False "AcquireReply ''k'' (Ok 7)" "[]"
        "[\<lparr>wl_key = ''k'', wl_worker = 7, wl_started = 0, wl_keepalive = 0\<rparr>]" True]
    by (simp add: init_locks_def demo_locks_def dequeue_command_def start_manager_def COMMAND_BUFFER_SIZE_def waits_for_fence_def run_command_def
        db_try_acquire_lock_def run_statement_def upsert_lock_def deliver_def)
  ultimately show ?thesis unfolding locks_reachable_def by (meson rtranclp.rtrancl_into_rtrancl rtranclp.rtrancl_refl)
qed

subsection \<open>Properties\<close>

text \<open>
  C4. Leases exclude each other.  Whatever servers, managers, lost answers, crashed holders and
  expiries there are: two held locks of one work key whose last answered statement is not older than
  the keepalive timeout are the same lock.
\<close>

theorem leases_exclude_each_other:
  assumes "locks_reachable timeout w" "l \<in> set (lw_locks w)" "l' \<in> set (lw_locks w)" "lk_key l = lk_key l'"
    and "confirmed timeout w l" "confirmed timeout w l'"
  shows "l = l'"
proof -
  note D = lock_invD [OF lock_inv_reachable [OF assms(1)]]
  obtain r r' where r: "r \<in> set (lw_table w)" "is_row (lk_key l) (lk_worker l) r" "r' \<in> set (lw_table w)" "is_row (lk_key l') (lk_worker l') r'"
    using D(5) [OF assms(2,5)] D(5) [OF assms(3,6)] by blast
  then have "lk_worker l = lk_worker l'" using one_worker [OF D(1)] assms(4) by simp
  then show ?thesis using D(2) assms(2,3) by (auto simp: distinct_map dest: inj_onD)
qed

theorem leases_exclude_each_other_witness:
  "locks_reachable 60 demo_locks \<and> confirmed 60 demo_locks (hd (lw_locks demo_locks)) \<and> hd (lw_locks demo_locks) = last (lw_locks demo_locks)"
proof -
  have "hd (lw_locks demo_locks) \<in> set (lw_locks demo_locks)" "last (lw_locks demo_locks) \<in> set (lw_locks demo_locks)"
    "lk_key (hd (lw_locks demo_locks)) = lk_key (last (lw_locks demo_locks))"
    "confirmed 60 demo_locks (hd (lw_locks demo_locks))" "confirmed 60 demo_locks (last (lw_locks demo_locks))"
    by (simp_all add: demo_locks_def confirmed_def new_lock_def)
  then show ?thesis using leases_exclude_each_other [OF demo_locks_reachable] demo_locks_reachable by blast
qed

text \<open>
  C5. A fence keeps other workers out.  While a transaction that was fenced by a lock is open, the
  row of the work key names the worker of that lock: no other worker acquires the key, no other fenced
  transaction of the key belongs to another worker, and every lease of the key that is still confirmed
  is the one of that worker, even when the lease of the fencing worker has expired.
\<close>

theorem fence_keeps_others_out:
  assumes "locks_reachable timeout w" "(txn, key, wid) \<in> set (lw_fences w)"
  shows "(\<exists>r \<in> set (lw_table w). is_row key wid r) \<and>
    (\<forall>(txn', key', wid') \<in> set (lw_fences w). key' = key \<longrightarrow> wid' = wid) \<and>
    (\<forall>l \<in> set (lw_locks w). lk_key l = key \<and> confirmed timeout w l \<longrightarrow> lk_worker l = wid)"
proof -
  note D = lock_invD [OF lock_inv_reachable [OF assms(1)]]
  obtain r where r: "r \<in> set (lw_table w)" "is_row key wid r" using D(7) [OF assms(2)] by blast
  have "wid' = wid" if "(txn', key, wid') \<in> set (lw_fences w)" for txn' wid'
    using D(7) [OF that] one_worker [OF D(1) _ _ r] by blast
  moreover have "lk_worker l = wid" if "l \<in> set (lw_locks w)" "lk_key l = key" "confirmed timeout w l" for l
    using D(5) [OF that(1,3)] one_worker [OF D(1) _ _ r] that(2) by blast
  ultimately show ?thesis using r by blast
qed

theorem fence_keeps_others_out_witness:
  "(1, ''k'', 7) \<in> set (lw_fences (demo_locks\<lparr>lw_fences := [(1, ''k'', 7)]\<rparr>)) \<and> lk_worker (hd (lw_locks demo_locks)) = 7 \<and>
   list_ex (is_row ''k'' 7) (lw_table demo_locks)"
proof -
  let ?w = "demo_locks\<lparr>lw_fences := [(1, ''k'', 7)]\<rparr>" and ?l = "new_lock 0 0 ''k'' 7"
  have "lock_step 60 demo_locks ?w"
    using lock_step.fence [of ?l demo_locks Ran 60 1] by (simp add: demo_locks_def new_lock_def fence_transaction_def run_statement_def is_row_def)
  then have "locks_reachable 60 ?w" using demo_locks_reachable by (simp add: locks_reachable_def rtranclp.rtrancl_into_rtrancl)
  then have "list_ex (is_row ''k'' 7) (lw_table ?w) \<and> (\<forall>l \<in> set (lw_locks ?w). lk_key l = ''k'' \<and> confirmed 60 ?w l \<longrightarrow> lk_worker l = 7)"
    using fence_keeps_others_out [of 60 ?w 1 "''k''" 7] by (simp add: list_ex_iff)
  moreover have "hd (lw_locks ?w) \<in> set (lw_locks ?w)" "lk_key (hd (lw_locks ?w)) = ''k''" "confirmed 60 ?w (hd (lw_locks ?w))"
    by (simp_all add: demo_locks_def confirmed_def new_lock_def)
  ultimately show ?thesis by simp
qed



end
