(* ===== verification/Periodic_Enqueuer.thy ===== *)
theory Periodic_Enqueuer
  imports State_Processor Process_Object Work_Locks
begin

section \<open>The periodic enqueuer\<close>

text \<open>
  \<^verbatim>\<open>state-controller/src/controller/periodic_enqueuer.rs\<close>: one iteration takes the work lock, lists
  all objects, clears the per-object series of objects that are gone, and queues every listed object;
  with \<^verbatim>\<open>lock_and_start_iteration\<close> of \<^verbatim>\<open>controller/db.rs\<close>, which starts it under that lock.
  The sleep between iterations, its jitter and the metrics of the enqueuer are left out.

  The sets and the map of the enqueuer are lists without duplicate keys.
\<close>

subsection \<open>Starting an iteration\<close>

datatype lock_iteration_error = LockDatabase database_error | AcquireLockFailed acquire_lock_error

record locked_controller_iteration =
  iteration_data :: controller_iteration
  iteration_work_lock :: worker_id

definition iteration_lock_key :: "string \<Rightarrow> string" where
  "iteration_lock_key table_id = ''lock_iteration::'' @ table_id"

text \<open>
  \<open>try_acquire\<close> is what the work lock manager answers for a key.  The id of an iteration that is rolled back is not
  drawn again.
\<close>

definition lock_and_start_iteration ::
  "txn_env \<Rightarrow> (string \<Rightarrow> (acquire_lock_error, worker_id) result) \<Rightarrow> string \<Rightarrow> datetime \<Rightarrow> iteration_table
    \<Rightarrow> (lock_iteration_error, locked_controller_iteration) result \<times> iteration_table" where
  "lock_and_start_iteration env try_acquire table_id now t =
     (case try_acquire (iteration_lock_key table_id) of
        Inl e \<Rightarrow> (Err (AcquireLockFailed e), t)
      | Inr work_lock \<Rightarrow>
          (case begin_fault env of
             Some e \<Rightarrow> (Err (LockDatabase (QueryFailed e)), t)
           | None \<Rightarrow>
               (case call_fault env 0 0 of
                  Some e \<Rightarrow> (Err (LockDatabase (QueryFailed e)), t)
                | None \<Rightarrow>
                    (case create_iteration now t of
                       (it, t1) \<Rightarrow>
                         (let aborted = t\<lparr>next_iteration_id := next_iteration_id t1\<rparr>;
                              t2 = delete_old_iterations (iteration_id it) t1
                          in case call_fault env 1 0 of
                               Some e \<Rightarrow> (Err (LockDatabase (QueryFailed e)), aborted)
                             | None \<Rightarrow>
                                 (case commit_outcome env of
                                    Committed \<Rightarrow> (Ok \<lparr>iteration_data = it, iteration_work_lock = work_lock\<rparr>, t2)
                                  | NotCommitted e \<Rightarrow> (Err (LockDatabase (QueryFailed e)), aborted)
                                  | AppliedButFailed e \<Rightarrow> (Err (LockDatabase (QueryFailed e)), t2)))))))"

subsection \<open>One iteration\<close>

record enqueuer =
  enq_config :: iteration_config
  enq_recorder :: bool
  known_object_ids :: "string list"
  pending_clears :: "(string \<times> datetime) list"

text \<open>The ids of this iteration, against the \<open>previous\<close> ones: what is left of \<open>previous\<close> is gone.\<close>

fun refresh_known :: "string list \<Rightarrow> string list \<Rightarrow> string list \<Rightarrow> (string \<times> datetime) list
    \<Rightarrow> string list \<times> string list \<times> (string \<times> datetime) list" where
  "refresh_known [] previous known pend = (previous, known, pend)"
| "refresh_known (i # ids) previous known pend =
     (if i \<in> set previous then refresh_known ids (removeAll i previous) (List.insert i known) pend
      else refresh_known ids previous (List.insert i known) (AList.delete i pend))"

definition refresh_series :: "datetime \<Rightarrow> string list \<Rightarrow> enqueuer \<Rightarrow> recorder_call list \<times> enqueuer" where
  "refresh_series now queued_objects e =
     (case refresh_known queued_objects (known_object_ids e) [] (pending_clears e) of
        (gone, known, pend) \<Rightarrow>
          (let clear_until = now + max_object_handling_time (enq_config e);
               pend1 = fold (\<lambda>g. AList.update g clear_until) gone pend
           in (map (Clear \<circ> fst) pend1,
               e\<lparr>known_object_ids := known, pending_clears := filter (\<lambda>(_, deadline). deadline > now) pend1\<rparr>)))"

record 'o enqueue_env =
  list_txn :: txn_env
  listed :: "(database_error, 'o list) result"
  queue_txn :: txn_env
  clear_time :: datetime
  queue_time :: datetime

definition enqueue_objects :: "('o \<Rightarrow> string) \<Rightarrow> 'o enqueue_env \<Rightarrow> enqueuer \<Rightarrow> queue
    \<Rightarrow> (database_error, nat) result \<times> recorder_call list \<times> enqueuer \<times> queue" where
  "enqueue_objects show_id env e q =
     (case begin_fault (list_txn env) of
        Some err \<Rightarrow> (Err (QueryFailed err), [], e, q)
      | None \<Rightarrow>
          (case and_then (listed env) (\<lambda>oids. fst (commit (list_txn env) (map show_id oids) [] [])) of
             Inl err \<Rightarrow> (Err err, [], e, q)
           | Inr queued_objects \<Rightarrow>
               (case (if enq_recorder e then refresh_series (clear_time env) queued_objects e else ([], e)) of
                  (calls, e') \<Rightarrow>
                    (case begin_fault (queue_txn env) of
                       Some err \<Rightarrow> (Err (QueryFailed err), calls, e', q)
                     | None \<Rightarrow>
                         (case queue_objects (call_fault (queue_txn env) 0) (queue_time env) queued_objects q of
                            (Inl err, _) \<Rightarrow> (Err err, calls, e', q)
                          | (Inr num_enqueued, q1) \<Rightarrow>
                              (case commit (queue_txn env) num_enqueued q q1 of (r, q') \<Rightarrow> (r, calls, e', q')))))))"

datatype iteration_error = LockError | IterationDatabaseError database_error

record 'o enqueuer_env =
  start_txn :: txn_env
  try_acquire :: "string \<Rightarrow> (acquire_lock_error, worker_id) result"
  iteration_start :: datetime
  enqueue :: "'o enqueue_env"

definition lock_and_handle_iteration :: "('o \<Rightarrow> string) \<Rightarrow> string \<Rightarrow> 'o enqueuer_env \<Rightarrow> enqueuer \<Rightarrow> queue \<Rightarrow> iteration_table
    \<Rightarrow> (iteration_error, controller_iteration) result \<times> recorder_call list \<times> enqueuer \<times> queue \<times> iteration_table" where
  "lock_and_handle_iteration show_id table_id env e q t =
     (case lock_and_start_iteration (start_txn env) (try_acquire env) table_id (iteration_start env) t of
        (Inl _, t') \<Rightarrow> (Err LockError, [], e, q, t')
      | (Inr it, t') \<Rightarrow>
          (case enqueue_objects show_id (enqueue env) e q of
             (Inl err, calls, e', q') \<Rightarrow> (Err (IterationDatabaseError err), calls, e', q', t')
           | (Inr _, calls, e', q') \<Rightarrow> (Ok (iteration_data it), calls, e', q', t')))"

record single_iteration_result =
  skipped_iteration :: bool
  started_iteration :: "controller_iteration option"

definition run_enqueuer_iteration :: "('o \<Rightarrow> string) \<Rightarrow> string \<Rightarrow> 'o enqueuer_env \<Rightarrow> enqueuer \<Rightarrow> queue \<Rightarrow> iteration_table
    \<Rightarrow> single_iteration_result \<times> recorder_call list \<times> enqueuer \<times> queue \<times> iteration_table" where
  "run_enqueuer_iteration show_id table_id env e q t =
     (case lock_and_handle_iteration show_id table_id env e q t of
        (res, calls, e', q', t') \<Rightarrow>
          (\<lparr>skipped_iteration = (res = Err LockError),
            started_iteration = (case res of Inl _ \<Rightarrow> None | Inr it \<Rightarrow> Some it)\<rparr>, calls, e', q', t'))"

subsection \<open>Iterations in sequence\<close>

text \<open>Successive refreshes, each with its time and the ids listed; the calls of each.\<close>

fun refresh_run :: "(datetime \<times> string list) list \<Rightarrow> enqueuer \<Rightarrow> recorder_call list list" where
  "refresh_run [] e = []"
| "refresh_run ((now, ids) # its) e = (case refresh_series now ids e of (calls, e') \<Rightarrow> calls # refresh_run its e')"

definition enqueuer_ok :: "enqueuer \<Rightarrow> bool" where
  "enqueuer_ok e \<longleftrightarrow> distinct (map fst (pending_clears e)) \<and> set (known_object_ids e) \<inter> fst ` set (pending_clears e) = {}"

text \<open>What is pending when the clears are made.\<close>

definition due :: "datetime \<Rightarrow> string list \<Rightarrow> enqueuer \<Rightarrow> string \<Rightarrow> datetime option" where
  "due now ids e x =
     (if x \<in> set ids then None
      else if x \<in> set (known_object_ids e) then Some (now + max_object_handling_time (enq_config e))
      else map_of (pending_clears e) x)"

text \<open>The table of iterations: ids in ascending order, the next one above them, at most ten of them kept.\<close>

definition iterations_ok :: "iteration_table \<Rightarrow> bool" where
  "iterations_ok t \<longleftrightarrow> sorted_wrt (<) (map iteration_id (iterations t)) \<and> length (iterations t) \<le> 10 \<and>
     (\<forall>it \<in> set (iterations t). 0 < iteration_id it \<and> iteration_id it < next_iteration_id t) \<and> 0 < next_iteration_id t"

definition demo_enqueuer :: enqueuer where
  "demo_enqueuer = \<lparr>enq_config = iteration_config_default, enq_recorder = True, known_object_ids = [''a''], pending_clears = []\<rparr>"

definition demo_enqueue :: "string enqueue_env" where
  "demo_enqueue = \<lparr>list_txn = txn_ok, listed = Ok [''b''], queue_txn = txn_ok, clear_time = 5, queue_time = 6\<rparr>"

lemma refresh_known_spec:
  assumes "refresh_known ids previous known pend = (gone, known', pend')" "distinct (map fst pend)"
    "set previous \<inter> fst ` set pend = {}"
  shows "set gone = set previous - set ids \<and> set known' = set known \<union> set ids \<and> distinct (map fst pend') \<and>
    map_of pend' = map_of pend |` (- set ids)"
  using assms
proof (induction ids previous known pend rule: refresh_known.induct)
  case (1 previous known pend)
  then show ?case by simp
next
  case (2 i ids previous known pend)
  show ?case
  proof (cases "i \<in> set previous")
    case True
    then have "i \<notin> fst ` set pend" using 2(5) by auto
    then have "map_of pend i = None" by (simp add: map_of_eq_None_iff)
    then have "map_of pend |` (- set ids) = map_of pend |` (- insert i (set ids))" by (auto simp: restrict_map_def)
    moreover have "set gone = set previous - {i} - set ids \<and> set known' = insert i (set known) \<union> set ids \<and> distinct (map fst pend') \<and>
        map_of pend' = map_of pend |` (- set ids)"
      using 2(1) [OF True] 2(3-5) True by auto
    ultimately show ?thesis by auto
  next
    case False
    have "map_of (AList.delete i pend) |` (- set ids) = map_of pend |` (- insert i (set ids))"
      by (auto simp: restrict_map_def delete_conv')
    moreover have "set (map fst (AList.delete i pend)) \<subseteq> fst ` set pend" by (auto simp: AList.delete_eq)
    ultimately show ?thesis using 2(2) [OF False] 2(3-5) False by (auto simp: distinct_delete)
  qed
qed

lemma fold_update_map_of: "map_of (fold (\<lambda>g. AList.update g v) gs m) = (\<lambda>x. if x \<in> set gs then Some v else map_of m x)"
  by (induction gs arbitrary: m) (auto simp: update_conv')

lemma fold_update_distinct: "distinct (map fst m) \<Longrightarrow> distinct (map fst (fold (\<lambda>g. AList.update g v) gs m))"
  by (induction gs arbitrary: m) (simp_all add: distinct_update)

lemma map_of_filter_keep:
  assumes "distinct (map fst m)"
  shows "map_of (filter (\<lambda>(_, d). P d) m) x = (case map_of m x of Some d \<Rightarrow> if P d then Some d else None | None \<Rightarrow> None)"
  using assms by (induction m) (auto simp: map_of_eq_None_iff split: option.splits intro: rev_image_eqI)

lemma refresh_series_spec:
  assumes "enqueuer_ok e" "refresh_series now ids e = (calls, e')"
  shows "enqueuer_ok e'" "set (known_object_ids e') = set ids" "enq_config e' = enq_config e"
    "Clear x \<in> set calls \<longleftrightarrow> due now ids e x \<noteq> None"
    "map_of (pending_clears e') x = (case due now ids e x of Some d \<Rightarrow> if d > now then Some d else None | None \<Rightarrow> None)"
proof -
  obtain gone known pend where r: "refresh_known ids (known_object_ids e) [] (pending_clears e) = (gone, known, pend)" by (rule prod_cases3)
  let ?until = "now + max_object_handling_time (enq_config e)"
  let ?p = "fold (\<lambda>g. AList.update g ?until) gone pend"
  have spec: "set gone = set (known_object_ids e) - set ids" "set known = set ids" "distinct (map fst pend)"
    "map_of pend = map_of (pending_clears e) |` (- set ids)"
    using refresh_known_spec [OF r] assms(1) by (simp_all add: enqueuer_ok_def)
  have out: "calls = map (Clear \<circ> fst) ?p" "known_object_ids e' = known" "enq_config e' = enq_config e"
    "pending_clears e' = filter (\<lambda>(_, d). d > now) ?p"
    using assms(2) r by (auto simp: refresh_series_def Let_def)
  have d: "distinct (map fst ?p)" by (rule fold_update_distinct [OF spec(3)])
  have m: "map_of ?p x = due now ids e x" for x using spec by (auto simp: fold_update_map_of due_def restrict_map_def)
  show "set (known_object_ids e') = set ids" "enq_config e' = enq_config e" using out spec by simp_all
  show p: "map_of (pending_clears e') x = (case due now ids e x of Some d \<Rightarrow> if d > now then Some d else None | None \<Rightarrow> None)" for x
    unfolding out(4) map_of_filter_keep [OF d] m ..
  show "Clear x \<in> set calls \<longleftrightarrow> due now ids e x \<noteq> None"
    using m [of x] map_of_eq_None_iff [of ?p x] by (auto simp: out(1) image_iff)
  have "distinct (map fst (pending_clears e'))" unfolding out(4) using d by (simp add: distinct_map_filter)
  moreover have "x \<notin> fst ` set (pending_clears e')" if "x \<in> set ids" for x
    using p [of x] that by (simp add: due_def map_of_eq_None_iff)
  ultimately show "enqueuer_ok e'" using out(2) spec(2) by (auto simp: enqueuer_ok_def)
qed

lemma due_after:
  assumes "enqueuer_ok e" "refresh_series now ids e = (calls, e')" "x \<notin> set ids" "x \<notin> set ids'"
  shows "due now' ids' e' x = (case due now ids e x of Some d \<Rightarrow> if d > now then Some d else None | None \<Rightarrow> None)"
  using refresh_series_spec(2,5) [OF assms(1,2)] assms(3,4) by (simp add: due_def)

lemma refresh_run_live:
  "enqueuer_ok e \<Longrightarrow> i < length its \<Longrightarrow> x \<in> set (snd (its ! i)) \<Longrightarrow> Clear x \<notin> set (refresh_run its e ! i)"
proof (induction its e arbitrary: i rule: refresh_run.induct)
  case (2 now ids its e)
  obtain calls e' where r: "refresh_series now ids e = (calls, e')" by fastforce
  show ?case
  proof (cases i)
    case 0
    then show ?thesis using refresh_series_spec(4) [OF 2(2) r] 2(4) r by (simp add: due_def)
  next
    case (Suc j)
    then show ?thesis using 2(1) [OF r [symmetric] refresh_series_spec(1) [OF 2(2) r]] 2(3,4) r by simp
  qed
qed simp

lemma refresh_run_gone:
  assumes "enqueuer_ok e" "i < length its" "\<forall>it \<in> set its. x \<notin> set (snd it)" "due (fst (its ! 0)) (snd (its ! 0)) e x = d"
  shows "Clear x \<in> set (refresh_run its e ! i) \<longleftrightarrow> (\<exists>t. d = Some t \<and> (\<forall>j<i. fst (its ! j) < t))"
  using assms
proof (induction its e arbitrary: i d rule: refresh_run.induct)
  case (2 now ids its e)
  obtain calls e' where r: "refresh_series now ids e = (calls, e')" by fastforce
  note spec = refresh_series_spec [OF 2(2) r]
  show ?case
  proof (cases i)
    case 0
    then show ?thesis using spec(4) 2(5) r by auto
  next
    case (Suc j)
    then have ne: "its \<noteq> []" "j < length its" using 2(3) by auto
    have "due (fst (its ! 0)) (snd (its ! 0)) e' x = (case d of Some t \<Rightarrow> if t > now then Some t else None | None \<Rightarrow> None)"
      using due_after [OF 2(2) r] 2(4,5) ne(1) by (metis fst_conv hd_conv_nth list.set_intros(1) list.set_sel(1) list.set_intros(2) nth_Cons_0 snd_conv)
    from 2(1) [OF r [symmetric] spec(1) ne(2) _ this] show ?thesis
      using 2(4) r Suc by (auto simp: All_less_Suc2 split: option.splits if_splits)
  qed
qed simp

lemma fold_insert_queued_has:
  "oid \<in> set ids \<or> oid \<in> object_id ` set (snd nq) \<Longrightarrow> oid \<in> object_id ` set (snd (fold (insert_queued now) ids nq))"
proof (induction ids arbitrary: nq)
  case (Cons i ids)
  have "object_id ` set (snd (insert_queued now i nq)) = insert i (object_id ` set (snd nq))"
    by (auto simp: insert_queued_def list_ex_iff split: prod.splits)
  then show ?case using Cons.IH [of "insert_queued now i nq"] Cons.prems by auto
qed simp

lemma enqueue_objects_Ok:
  assumes "enqueue_objects show_id env e q = (Ok n, calls, e', q')" "listed env = Ok oids"
  shows "q' = snd (fold (insert_queued (queue_time env)) (sort (map show_id oids)) (0, q))"
  using assms
  by (auto simp: enqueue_objects_def commit_def dest!: queue_objects_Ok
      split: option.splits sum.splits prod.splits commit_outcome.splits)

lemma in_map_filter: "r \<in> set xs \<Longrightarrow> f r = Some y \<Longrightarrow> y \<in> set (List.map_filter f xs)"
  by (auto simp: map_filter_def image_iff intro!: bexI [of _ r])

text \<open>An element that is not among the first of a sorted list was pushed out by elements before it.\<close>

lemma take_sorted:
  assumes "x \<in> set xs" "x \<notin> set (take n (sort_key f xs))"
  shows "length (take n (sort_key f xs)) = n" "y \<in> set (take n (sort_key f xs)) \<Longrightarrow> f y \<le> f x"
proof -
  let ?s = "sort_key f xs"
  have "x \<in> set (take n ?s) \<union> set (drop n ?s)" using assms(1) by (metis append_take_drop_id set_append set_sort)
  then have x: "x \<in> set (drop n ?s)" using assms(2) by blast
  then show "length (take n ?s) = n" by (cases "n \<le> length ?s") auto
  have "sorted (map f (take n ?s @ drop n ?s))" by simp
  then show "y \<in> set (take n ?s) \<Longrightarrow> f y \<le> f x" using x by (simp only: map_append sorted_append) auto
qed

lemma dequeue_Ok:
  assumes "dequeue_and_dispatch parse_id env now locked p q = (Ok n, p', q')"
  defines "ids \<equiv> dequeued_ids now (lease (iteration_config p)) locked (min (remaining_capacity p) (2 ^ 32 - 1)) q"
  shows "q' = map (claim (processor_id p) now ids) q"
    "object_tasks p' = object_tasks p @ map (\<lambda>oid. \<lparr>task_object = oid, task_started = now, task_result = None\<rparr>)
      (List.map_filter (\<lambda>r. parse_id (object_id r)) (filter (\<lambda>r. object_id r \<in> set ids) q'))"
proof -
  let ?acq = "acquire_txn env now locked (remaining_capacity p) (processor_id p) (lease (iteration_config p)) q"
  obtain rs where a: "?acq = (Ok rs, q')" and t: "object_tasks p' = object_tasks p @ map (\<lambda>oid. \<lparr>task_object = oid, task_started = now, task_result = None\<rparr>)
      (List.map_filter (\<lambda>r. parse_id (object_id r)) rs)"
    using assms(1) by (auto simp: dequeue_and_dispatch_def Let_def split: prod.splits sum.splits)
  have "q' = map (claim (processor_id p) now ids) q \<and> rs = filter (\<lambda>r. object_id r \<in> set ids) q'"
  proof (cases "remaining_capacity p = 0")
    case True
    then show ?thesis using a by (simp add: acquire_txn_def ids_def dequeued_ids_def claim_def map_idI)
  next
    case False
    then have "acquire_queued_objects (call_fault env 0) now locked (min (remaining_capacity p) (2 ^ 32 - 1)) (processor_id p) (lease (iteration_config p)) q = (Ok rs, q')"
      using a by (auto simp: acquire_txn_def commit_def split: option.splits sum.splits prod.splits commit_outcome.splits)
    then show ?thesis by (auto simp: acquire_queued_objects_def ids_def Let_def split: option.splits)
  qed
  then show "q' = map (claim (processor_id p) now ids) q"
    "object_tasks p' = object_tasks p @ map (\<lambda>oid. \<lparr>task_object = oid, task_started = now, task_result = None\<rparr>)
      (List.map_filter (\<lambda>r. parse_id (object_id r)) (filter (\<lambda>r. object_id r \<in> set ids) q'))"
    using t by simp_all
qed

lemma last_retained_eq:
  assumes "0 < i" "i < 2 ^ 63"
  shows "last_retained i = max 1 (i - 9)"
proof -
  have w: "uint (word_of_int i :: u64) = i" using assms by (simp add: uint_word_of_int mod_pos_pos_trivial)
  show ?thesis
  proof (cases "i < 10")
    case True
    then have "word_of_int i < (10 :: u64)" using w by (simp add: word_less_def)
    then show ?thesis using True assms by (simp add: last_retained_def saturating_sub_def NUM_RETAINED_def)
  next
    case False
    then have "\<not> word_of_int i < (10 :: u64)" using w by (simp add: word_less_def)
    moreover have "word_of_int i - 10 + (1 :: u64) = word_of_int (i - 9)" by (simp add: algebra_simps)
    moreover have "sint (word_of_int (i - 9) :: u64) = i - 9" 
      unfolding sint_sbintrunc' using False assms by (intro signed_take_bit_int_eq_self) simp_all
    ultimately show ?thesis using False by (simp add: last_retained_def saturating_sub_def NUM_RETAINED_def)
  qed
qed

lemma sorted_card_interval:
  fixes xs :: "int list"
  assumes "sorted_wrt (<) xs" "set xs \<subseteq> {a..b}"
  shows "length xs \<le> nat (b + 1 - a)"
proof -
  have "distinct xs" using assms(1) by (simp add: strict_sorted_iff)
  then have "length xs = card (set xs)" by (simp add: distinct_card)
  also have "\<dots> \<le> card {a..b}" using assms(2) by (rule card_mono [rotated]) simp
  finally show ?thesis by simp
qed

lemma start_keeps_iterations_ok:
  assumes "iterations_ok t" "next_iteration_id t < 2 ^ 63" "create_iteration now t = (it, t1)" "t2 = delete_old_iterations (iteration_id it) t1"
  shows "iterations_ok t2" "it \<in> set (iterations t2)" "iteration_id it = next_iteration_id t" "next_iteration_id t1 = next_iteration_id t + 1"
    "iterations_ok (t\<lparr>next_iteration_id := next_iteration_id t1\<rparr>)"
proof -
  let ?n = "next_iteration_id t"
  have it: "it = \<lparr>iteration_id = ?n, started_at = now\<rparr>" "t1 = t\<lparr>iterations := iterations t @ [it], next_iteration_id := ?n + 1\<rparr>"
    using assms(3) by (auto simp: create_iteration_def Let_def)
  have n: "0 < ?n" using assms(1) by (simp add: iterations_ok_def)
  have r: "last_retained ?n = max 1 (?n - 9)" using last_retained_eq [OF n assms(2)] .
  show "iteration_id it = ?n" "next_iteration_id t1 = ?n + 1" using it by simp_all
  show "iterations_ok (t\<lparr>next_iteration_id := next_iteration_id t1\<rparr>)" using assms(1) it by (auto simp: iterations_ok_def)
  have t2: "iterations t2 = filter (\<lambda>i. \<not> iteration_id i < max 1 (?n - 9)) (iterations t @ [it])" "next_iteration_id t2 = ?n + 1"
    using assms(4) it r by (simp_all add: delete_old_iterations_def)
  show "it \<in> set (iterations t2)" unfolding t2(1) using it n by (simp add: max_def)
  have "sorted_wrt (<) (map iteration_id (iterations t @ [it]))" using assms(1) it by (auto simp: iterations_ok_def sorted_wrt_append)
  then have srt: "sorted_wrt (<) (map iteration_id (iterations t2))" unfolding t2(1) sorted_wrt_map by (rule sorted_wrt_filter)
  moreover have b: "i \<in> set (iterations t2) \<Longrightarrow> 0 < iteration_id i \<and> ?n - 9 \<le> iteration_id i \<and> iteration_id i \<le> ?n" for i
  proof -
    assume "i \<in> set (iterations t2)"
    then have "i \<in> set (iterations t) \<or> i = it" "\<not> iteration_id i < max 1 (?n - 9)" unfolding t2(1) by (simp_all only: set_filter) auto
    then show ?thesis using assms(1) it(1) n by (auto simp: iterations_ok_def)
  qed
  ultimately have "length (iterations t2) \<le> 10" using sorted_card_interval [OF srt, of "?n - 9" ?n] by fastforce
  then show "iterations_ok t2" using srt b n t2(2) by (fastforce simp: iterations_ok_def)
qed

text \<open>
  C37. Iterations are numbered and bounded.  Whatever fails when an iteration starts, the table keeps
  ascending ids and at most ten rows; an iteration that starts gets an id above every earlier one and
  is in the table.
\<close>

theorem iterations_numbered_and_bounded:
  assumes "iterations_ok t" "next_iteration_id t < 2 ^ 63" "lock_and_start_iteration env lock table_id now t = (res, t')"
  shows "iterations_ok t' \<and> next_iteration_id t \<le> next_iteration_id t' \<and>
    (\<forall>li. res = Ok li \<longrightarrow> iteration_data li \<in> set (iterations t') \<and> iteration_id (iteration_data li) = next_iteration_id t \<and>
      next_iteration_id t < next_iteration_id t')"
proof -
  obtain it t1 where c: "create_iteration now t = (it, t1)" by fastforce
  note ok = start_keeps_iterations_ok [OF assms(1,2) c refl]
  have "next_iteration_id (delete_old_iterations (iteration_id it) t1) = next_iteration_id t + 1" using ok(4) by (simp add: delete_old_iterations_def)
  then show ?thesis using assms(1,3) c ok
    by (auto simp: lock_and_start_iteration_def Let_def split: sum.splits option.splits commit_outcome.splits)
qed

theorem iterations_numbered_and_bounded_witness:
  "iterations_ok (snd (lock_and_start_iteration txn_ok (\<lambda>_. Ok 7) ''iterations'' 5 \<lparr>iterations = [], next_iteration_id = 1\<rparr>))"
  using iterations_numbered_and_bounded [OF _ _ surjective_pairing, of "\<lparr>iterations = [], next_iteration_id = 1\<rparr>" txn_ok "\<lambda>_. Ok 7" "''iterations''" 5]
  by (simp add: iterations_ok_def [of "\<lparr>iterations = [], next_iteration_id = 1\<rparr>"])

text \<open>
  C34. The series of a live object is never cleared; the series of an object that has vanished is
  cleared in every iteration from then on, up to and including the first one by which no
  handler that ran when it vanished can still be running.\<close>
theorem vanished_series_stay_cleared:
  assumes "enqueuer_ok e" "i < length its"
  shows "(x \<in> set (snd (its ! i)) \<longrightarrow> Clear x \<notin> set (refresh_run its e ! i)) \<and>
    (x \<in> set (known_object_ids e) \<and> (\<forall>it \<in> set its. x \<notin> set (snd it)) \<longrightarrow>
      (Clear x \<in> set (refresh_run its e ! i) \<longleftrightarrow> (\<forall>j<i. fst (its ! j) < fst (its ! 0) + max_object_handling_time (enq_config e))))"
proof (intro conjI impI)
  show "Clear x \<notin> set (refresh_run its e ! i)" if "x \<in> set (snd (its ! i))" using refresh_run_live [OF assms that] .
next
  assume x: "x \<in> set (known_object_ids e) \<and> (\<forall>it \<in> set its. x \<notin> set (snd it))"
  have "its ! 0 \<in> set its" using assms(2) by (metis length_pos_if_in_set nth_mem gr_zeroI not_less_zero)
  then have "due (fst (its ! 0)) (snd (its ! 0)) e x = Some (fst (its ! 0) + max_object_handling_time (enq_config e))"
    using x by (auto simp: due_def)
  from refresh_run_gone [OF assms _ this] x
  show "Clear x \<in> set (refresh_run its e ! i) \<longleftrightarrow> (\<forall>j<i. fst (its ! j) < fst (its ! 0) + max_object_handling_time (enq_config e))" by simp
qed

theorem vanished_series_stay_cleared_witness:
  "Clear ''a'' \<in> set (refresh_run [(5, [''b'']), (9, [''b'']), (from_secs 200, [''b''])] demo_enqueuer ! 2)"
proof -
  have "enqueuer_ok demo_enqueuer" by (simp add: enqueuer_ok_def demo_enqueuer_def)
  from vanished_series_stay_cleared [OF this, of 2 "[(5, [''b'']), (9, [''b'']), (from_secs 200, [''b''])]" "''a''"] show ?thesis
    by (simp add: demo_enqueuer_def iteration_config_default_def from_secs_def less_Suc_eq numeral_2_eq_2)
qed

text \<open>
  C24. Every object the enqueuer lists has a row in the queue afterwards, and the next processor that claims successfully starts a
  handler for it under its own name, with three exceptions: the object is under a lease that has not expired, which
  was there before; another transaction holds its row locked; or the processor used up its capacity on other
  rows, none of which was queued or claimed later than that of the object.\<close>
theorem listed_object_is_handled:
  assumes "queue_ok q" "enqueue_objects show_id env e q = (Ok n, calls, e', q1)" "listed env = Ok oids" "x \<in> set oids"
    and "parse_id (show_id x) = Some x" "dequeue_and_dispatch parse_id txn now locked p q1 = (Ok k, p', q2)"
  shows "\<exists>r \<in> set q1. object_id r = show_id x \<and>
    (x \<in> set (running_objects p') \<and> owns (processor_id p) (show_id x) now q2 \<or>
     r \<in> set q \<inter> set q2 \<and> processed_by r \<noteq> None \<and> now \<le> processing_started_at r + lease (iteration_config p) \<or>
     r \<in> set q2 \<and> show_id x \<in> set locked \<or>
     r \<in> set q2 \<and> (let ids = dequeued_ids now (lease (iteration_config p)) locked (min (remaining_capacity p) (2 ^ 32 - 1)) q1
       in length ids = min (remaining_capacity p) (2 ^ 32 - 1) \<and> \<not> (\<exists>r' \<in> set q1. object_id r' \<in> set ids \<and> processing_started_at r < processing_started_at r')))"
proof -
  let ?lease = "lease (iteration_config p)" and ?pid = "processor_id p" and ?count = "min (remaining_capacity p) (2 ^ 32 - 1)"
  let ?ids = "dequeued_ids now ?lease locked ?count q1"
  note q1 = enqueue_objects_Ok [OF assms(2,3)] and claimed = dequeue_Ok [OF assms(6)]
  have "show_id x \<in> object_id ` set q1" unfolding q1 by (rule fold_insert_queued_has) (use assms(4) in simp)
  then obtain r where r: "r \<in> set q1" "object_id r = show_id x" by auto
  have new: "r \<in> set q \<or> processed_by r = None" using fold_insert_queued_new [OF r(1) [unfolded q1]] by auto
  have ok: "queue_ok q1" unfolding q1 by (rule fold_insert_queued(1)) (simp add: assms(1))
  have row: "claim ?pid now ?ids r \<in> set q2" "object_id (claim ?pid now ?ids r) = show_id x" using r by (simp_all add: claimed(1))
  show ?thesis
  proof (cases "show_id x \<in> set ?ids")
    case True
    then have "claim ?pid now ?ids r \<in> set (filter (\<lambda>r. object_id r \<in> set ?ids) q2)" using row by simp
    then have "x \<in> set (List.map_filter (\<lambda>r. parse_id (object_id r)) (filter (\<lambda>r. object_id r \<in> set ?ids) q2))"
      by (rule in_map_filter) (simp only: row(2) assms(5))
    then have "x \<in> set (running_objects p')" by (auto simp: running_objects_def claimed(2))
    moreover have "claim ?pid now ?ids r = \<lparr>object_id = show_id x, processed_by = Some ?pid, processing_started_at = now\<rparr>"
      using True r(2) by (cases r) (simp add: claim_def)
    ultimately show ?thesis using r row(1) by (intro bexI [of _ r]) (simp_all add: owns_def)
  next
    case False
    then have kept: "r \<in> set q2" using row(1) r(2) by (simp add: claim_def)
    let ?can = "filter (\<lambda>r. dequeuable now ?lease r \<and> object_id r \<notin> set locked) q1"
    have out: "r \<notin> set (take ?count (sort_key processing_started_at ?can))" 
    proof
      assume "r \<in> set (take ?count (sort_key processing_started_at ?can))"
      then have "object_id r \<in> set ?ids" unfolding dequeued_ids_def set_map by (rule imageI)
      then show False using False r(2) by simp
    qed
    consider "\<not> dequeuable now ?lease r" | "show_id x \<in> set locked" | "r \<in> set ?can" using r by auto
    then show ?thesis
    proof cases
      case 1
      then have "processed_by r \<noteq> None" "now \<le> processing_started_at r + ?lease" by (auto simp: dequeuable_def)
      moreover from this have "r \<in> set q" using new by (elim disjE) (simp, simp)
      ultimately show ?thesis using kept r by (intro bexI [of _ r]) simp_all
    next
      case 2
      then show ?thesis using kept r by (intro bexI [of _ r]) simp_all
    next
      case 3
      note older = take_sorted [OF 3 out]
      have "processing_started_at r' \<le> processing_started_at r" if in1: "r' \<in> set q1" and in2: "object_id r' \<in> set ?ids" for r'
      proof -
        obtain r'' where r'': "r'' \<in> set (take ?count (sort_key processing_started_at ?can))" "object_id r'' = object_id r'"
          using in2 by (auto simp: dequeued_ids_def)
        then have "r'' \<in> set q1" by (auto dest!: in_set_takeD)
        then have "r'' = r'" using r''(2) queue_ok_key [OF ok _ in1] by simp
        then show ?thesis using older(2) [OF r''(1)] by simp
      qed
      then have "\<not> (\<exists>r' \<in> set q1. object_id r' \<in> set ?ids \<and> processing_started_at r < processing_started_at r')" by (metis leD)
      moreover have "length ?ids = ?count" using older(1) by (simp add: dequeued_ids_def)
      ultimately show ?thesis unfolding Let_def using kept r by (intro bexI [of _ r] conjI disjI2)
    qed
  qed
qed

theorem listed_object_is_handled_witness:
  "\<exists>calls e' q1 p' q2. enqueue_objects id demo_enqueue demo_enqueuer [] = (Ok 1, calls, e', q1) \<and> calls = [Clear ''a''] \<and>
    dequeue_and_dispatch Some txn_ok 7 [] (new_processor ''p'' iteration_config_default 0 :: (string, nat) state_processor) q1 = (Ok 1, p', q2) \<and>
    ''b'' \<in> set (running_objects p') \<and> owns ''p'' ''b'' 7 q2"
proof -
  let ?row = "\<lparr>object_id = ''b'', processed_by = None, processing_started_at = 6\<rparr>"
  let ?p = "new_processor ''p'' iteration_config_default 0 :: (string, nat) state_processor"
  have "queue_objects (\<lambda>_. None) 6 [''b''] [] = (Ok 1, [?row])"
    by (simp add: queue_objects_def chunks_single insert_queued_def)
  then obtain e' where e: "enqueue_objects id demo_enqueue demo_enqueuer [] = (Ok 1, [Clear ''a''], e', [?row])"
    by (simp add: enqueue_objects_def demo_enqueue_def demo_enqueuer_def txn_ok_def commit_def refresh_series_def Let_def)
  have c: "remaining_capacity ?p = 10" by (simp add: remaining_capacity_def new_processor_def iteration_config_default_def)
  have ids: "dequeued_ids 7 (lease (iteration_config ?p)) [] (min (remaining_capacity ?p) (2 ^ 32 - 1)) [?row] = [''b'']"
    by (simp add: c dequeued_ids_def dequeuable_def)
  obtain p' q2 where d: "dequeue_and_dispatch Some txn_ok 7 [] ?p [?row] = (Ok 1, p', q2)"
    by (simp add: dequeue_and_dispatch_def acquire_txn_def c txn_ok_def acquire_queued_objects_def commit_def dequeued_ids_def dequeuable_def claim_def
        map_filter_simps Let_def)
  have "''b'' \<in> set (running_objects p') \<and> owns (processor_id ?p) (id ''b'') 7 q2"
    using listed_object_is_handled [where oids = "[''b'']" and x = "''b''", OF _ e _ _ _ d] unfolding ids
    by (simp add: c queue_ok_def demo_enqueue_def Let_def)
  with e d show ?thesis by (auto simp: new_processor_def)
qed

end
