(* ===== verification/Controller_Io.thy ===== *)
theory Controller_Io
  imports Process_Object
begin

section \<open>The contract of the controller IO\<close>

text \<open>
  What \<^verbatim>\<open>process_object\<close> relies on in an implementation of \<^verbatim>\<open>StateControllerIO\<close>
  (\<^verbatim>\<open>state-controller/src/io.rs\<close>): the state is stored under a compare-and-swap on its version, and the
  history and the outcome leave it alone.  From these laws follows what one invocation can do to the
  controller states of all objects.
\<close>

definition stored_under :: "('o \<Rightarrow> 's versioned option) \<Rightarrow> 'o \<Rightarrow> config_version \<Rightarrow> bool" where
  "stored_under st oid ver \<longleftrightarrow> (\<exists>v. st oid = Some v \<and> ver_version v = ver)"

text \<open>Handlers never write controller states themselves, except by removing their object.\<close>

definition keeps_states :: "('db \<Rightarrow> bool) \<Rightarrow> ('db \<Rightarrow> 'o \<Rightarrow> 's versioned option) \<Rightarrow> ('o, 'db, 'snap, 's) handler \<Rightarrow> 'db \<Rightarrow> 'o \<Rightarrow> bool" where
  "keeps_states ok state_of handle base oid \<longleftrightarrow>
     (\<forall>snap s outcome v. run_result (handle base oid snap s) = Ok outcome \<longrightarrow>
        apply_all (run_writes (handle base oid snap s)) (handler_view outcome base) = Ok v \<longrightarrow>
        ok v \<and> (\<not> is_deleted (Ok outcome) \<longrightarrow> state_of v = state_of base))"

text \<open>A part of the database that neither the IO nor the handler writes.\<close>

lemma projection_after:
  fixes io :: "('o, 'db, 'snap, 's) io_ops"
  assumes "process_object io handle env oid db = Some out"
    and p: "\<And>old new s v. f (snd (persist_controller_state io oid old new s v)) = f v"
    and h: "\<And>ver s v. f (persist_state_history io oid ver s v) = f v" and o: "\<And>po v. f (persist_outcome io oid po v) = f v"
    and run: "\<And>snap s outcome v. run_result (handle (meanwhile env db) oid snap s) = Ok outcome \<Longrightarrow> \<not> is_deleted (Ok outcome) \<Longrightarrow>
      apply_all (run_writes (handle (meanwhile env db) oid snap s)) (handler_view outcome (meanwhile env db)) = Ok v \<Longrightarrow> f v = f (meanwhile env db)"
  obtains (not_loaded) "out_db out = db" | (unchanged) "f (out_db out) = f (meanwhile env db)"
    | (removed) snap src t s where "load_object_state io db oid = Ok (Some snap)" "s = ver_value (load_controller_state io db oid snap)"
      "run_result (handle (meanwhile env db) oid snap s) = Ok (Deleted src t)"
      "apply_all (run_writes (handle (meanwhile env db) oid snap s)) (handler_view (Deleted src t :: ('s, 'db \<Rightarrow> 'db) state_handler_outcome) (meanwhile env db)) = Ok (out_db out)"
proof (rule process_object_ends [OF assms(1)])
  have tv: "f v' = f v" if view: "transition_view io env oid cs s v = Some (b, v')" for cs s v b v'
  proof -
    obtain new where "increment (chrono env) (sys_now env) (ver_version cs) = Some new" using view by (auto simp: transition_view_def)
    then show ?thesis using view p [of "ver_version cs" new s v] h
      by (cases "persist_controller_state io oid (ver_version cs) new s v") (auto simp: transition_view_def split: bool.splits)
  qed
  fix r
  assume "body_ends io handle env oid db r (transition_conflict (out_metrics out)) (next_state (out_metrics out)) (out_db out)"
  then show thesis
  proof cases
    case (outcome_stored snap cs run outcome va vb)
    show thesis
    proof (cases "is_deleted (Ok outcome)")
      case True
      then obtain src t where "outcome = Deleted src t" by (auto simp: is_deleted_def split: state_handler_outcome.splits)
      then show thesis using that(3) [OF outcome_stored(1) refl, of src t] outcome_stored by (auto simp: is_deleted_def)
    next
      case False
      then have "f va = f (meanwhile env db)" using outcome_stored(3-5) assms(5) by auto
      moreover have "f vb = f va" using outcome_stored(6) by (auto split: state_handler_outcome.splits dest: tv)
      ultimately show thesis using that(2) False outcome_stored(9) o by auto
    qed
  qed (use that(1,2) o in auto)
qed

locale controller_io =
  fixes io :: "('o, 'db, 'snap, 's) io_ops"
    and ok :: "'db \<Rightarrow> bool"
    and state_of :: "'db \<Rightarrow> 'o \<Rightarrow> 's versioned option"
  assumes load_state: "load_object_state io db oid = Ok (Some snap) \<Longrightarrow> state_of db oid = Some (load_controller_state io db oid snap)"
    and persist_won: "ok db \<Longrightarrow> persist_controller_state io oid old new s db = (True, db') \<Longrightarrow>
      ok db' \<and> stored_under (state_of db) oid old \<and> state_of db' = (state_of db)(oid \<mapsto> versioned_new s new)"
    and persist_lost: "ok db \<Longrightarrow> persist_controller_state io oid old new s db = (False, db') \<Longrightarrow> \<not> stored_under (state_of db) oid old \<and> db' = db"
    and history_state: "ok (persist_state_history io oid ver s db) = ok db" "state_of (persist_state_history io oid ver s db) = state_of db"
    and outcome_state: "ok (persist_outcome io oid po db) = ok db" "state_of (persist_outcome io oid po db) = state_of db"
begin

lemma transition_view_state:
  assumes "ok v" "transition_view io env oid cs s v = Some (won, v')"
  obtains new where "increment (chrono env) (sys_now env) (ver_version cs) = Some new" "ok v'"
    "won \<longleftrightarrow> stored_under (state_of v) oid (ver_version cs)"
    "state_of v' = (if won then (state_of v)(oid \<mapsto> versioned_new s new) else state_of v)"
proof -
  obtain new where new: "increment (chrono env) (sys_now env) (ver_version cs) = Some new" using assms(2) by (auto simp: transition_view_def)
  obtain b w where p: "persist_controller_state io oid (ver_version cs) new s v = (b, w)" by fastforce
  show thesis
  proof (cases b)
    case True
    then show thesis using assms new p persist_won [OF assms(1)] that [OF new] by (auto simp: transition_view_def history_state)
  next
    case False
    with p have l: "\<not> stored_under (state_of v) oid (ver_version cs)" "w = v" using persist_lost [OF assms(1)] by auto
    moreover have "\<not> won" "v' = w" using assms(2) new p False by (auto simp: transition_view_def)
    ultimately show thesis using assms(1) by (intro that [OF new]) simp_all
  qed
qed

lemma announced_state:
  assumes "process_object io handle env oid db = Some out" "out_event out = Some s"
    and "ok (meanwhile env db)" "keeps_states ok state_of handle (meanwhile env db) oid"
  obtains snap src t old new where "load_object_state io db oid = Ok (Some snap)" "state_of db oid = Some old"
    "run_result (handle (meanwhile env db) oid snap (ver_value old)) = Ok (Transition s src t)"
    "stored_under (state_of (meanwhile env db)) oid (ver_version old)"
    "increment (chrono env) (sys_now env) (ver_version old) = Some new"
    "state_of (out_db out) = (state_of (meanwhile env db))(oid \<mapsto> versioned_new s new)"
proof -
  let ?base = "meanwhile env db"
  obtain snap src t va vb where ld: "load_object_state io db oid = Ok (Some snap)"
    and run: "run_result (handle ?base oid snap (ver_value (load_controller_state io db oid snap))) = Ok (Transition s src t)"
      "apply_all (run_writes (handle ?base oid snap (ver_value (load_controller_state io db oid snap)))) (handler_view (Transition s src t) ?base) = Ok va"
    and tv: "transition_view io env oid (load_controller_state io db oid snap) s va = Some (True, vb)"
    and out: "out_db out = persist_outcome io oid (PTransition (Some src)) vb"
    using process_object_announced [OF assms(1,2)] by (auto simp: Let_def)
  have va: "ok va" "state_of va = state_of ?base"
    using assms(4) run unfolding keeps_states_def by (fastforce simp: is_deleted_def)+
  show thesis
    using transition_view_state [OF va(1) tv] that [OF ld load_state [OF ld] run(1)] va(2) out
    by (metis (full_types) outcome_state(2))
qed

text \<open>All that can happen to the controller states, also when the invocation fails or its commit is not confirmed.\<close>

lemma states_after:
  assumes "process_object io handle env oid db = Some out"
    and "ok (meanwhile env db)" "keeps_states ok state_of handle (meanwhile env db) oid"
  obtains (not_loaded) "out_db out = db"
    | (unchanged) "ok (out_db out)" "state_of (out_db out) = state_of (meanwhile env db)"
    | (moved) snap s src t old new where "ok (out_db out)" "load_object_state io db oid = Ok (Some snap)" "state_of db oid = Some old"
      "run_result (handle (meanwhile env db) oid snap (ver_value old)) = Ok (Transition s src t)"
      "stored_under (state_of (meanwhile env db)) oid (ver_version old)"
      "state_of (out_db out) = (state_of (meanwhile env db))(oid \<mapsto> versioned_new s new)"
    | (removed) snap src t old where "ok (out_db out)" "load_object_state io db oid = Ok (Some snap)" "state_of db oid = Some old"
      "run_result (handle (meanwhile env db) oid snap (ver_value old)) = Ok (Deleted src t)"
      "apply_all (run_writes (handle (meanwhile env db) oid snap (ver_value old))) (handler_view (Deleted src t :: ('s, 'db \<Rightarrow> 'db) state_handler_outcome) (meanwhile env db)) = Ok (out_db out)"
proof (rule process_object_ends [OF assms(1)])
  fix r
  assume "body_ends io handle env oid db r (transition_conflict (out_metrics out)) (next_state (out_metrics out)) (out_db out)"
  then show thesis
  proof cases
    case not_loaded
    then show thesis using that(1) by simp
  next
    case (nothing_stored snap)
    then show thesis using that(2) assms(2) by simp
  next
    case (error_stored snap run e)
    then show thesis using that(2) assms(2) by (simp add: outcome_state)
  next
    case (outcome_stored snap cs run outcome va vb)
    let ?c = "transition_conflict (out_metrics out)"
    have va: "ok va" "\<not> is_deleted (Ok outcome) \<Longrightarrow> state_of va = state_of (meanwhile env db)"
      using assms(3) outcome_stored(3-5) unfolding keeps_states_def by auto
    note cs = load_state [OF outcome_stored(1), folded outcome_stored(2)]
    show thesis
    proof (cases outcome)
      case (Transition s src t)
      then have st: "state_of va = state_of (meanwhile env db)" and tv: "transition_view io env oid cs s va = Some (\<not> ?c, vb)"
        and o: "ok (out_db out) = ok vb" "state_of (out_db out) = state_of vb"
        using va(2) outcome_stored(6,9) by (auto simp: is_deleted_def outcome_state)
      show thesis
      proof (rule transition_view_state [OF va(1) tv])
        fix new
        assume n: "ok vb" "(\<not> ?c) = stored_under (state_of va) oid (ver_version cs)"
          "state_of vb = (if \<not> ?c then (state_of va)(oid \<mapsto> versioned_new s new) else state_of va)"
        have r: "run_result (handle (meanwhile env db) oid snap (ver_value cs)) = Ok (Transition s src t)"
          using outcome_stored(3,4) Transition by simp
        show thesis
        proof (cases ?c)
          case True
          then show thesis using that(2) n o st by simp
        next
          case False
          then show thesis using that(3) [OF _ outcome_stored(1) cs r] n o st by auto
        qed
      qed
    next
      case (Deleted src t)
      then have "vb = va" "out_db out = va" using outcome_stored(6,9) by (auto simp: is_deleted_def)
      then show thesis using that(4) [OF _ outcome_stored(1) cs, of src t] outcome_stored(3-5) va(1) Deleted by auto
    qed (use that(2) outcome_stored(6,9) va outcome_state in \<open>auto simp: is_deleted_def\<close>)
  qed
qed

end

end
