(* ===== verification/Segment_Controller.thy ===== *)
theory Segment_Controller
  imports Controller_Io
begin

section \<open>The network segment controller\<close>

text \<open>
  Network segments from \<^verbatim>\<open>Provisioning\<close> to their deletion: the states of
  \<^verbatim>\<open>api-model/src/network_segment\<close>, the statements of \<^verbatim>\<open>api-db/src/network_segment.rs\<close> that the
  controller uses, and the handler and the IO of the crate \<^verbatim>\<open>network-segment-controller\<close>, which
  run inside \<^verbatim>\<open>process_object\<close>.

  Identifiers are their text.  The range of chrono (\<^verbatim>\<open>checked_add_signed\<close>), the text of a time and
  the source locations are parameters; metrics of address usage are left out.
\<close>

subsection \<open>Segments and their states\<close>

datatype network_segment_type = Tenant | Admin | Underlay | HostInband

fun segment_type_display :: "network_segment_type \<Rightarrow> string" where
  "segment_type_display Tenant = ''tenant''"
| "segment_type_display Admin = ''admin''"
| "segment_type_display Underlay = ''tor''"
| "segment_type_display HostInband = ''host_inband''"

definition segment_type_from_str :: "string \<Rightarrow> (string, network_segment_type) result" where
  "segment_type_from_str s =
     (if s = ''tenant'' then Ok Tenant
      else if s = ''admin'' then Ok Admin
      else if s = ''tor'' then Ok Underlay
      else if s = ''host_inband'' then Ok HostInband
      else Err (''Invalid segment type '' @ s @ '' reveived from Database.''))"

fun is_tenant :: "network_segment_type \<Rightarrow> bool" where
  "is_tenant Tenant = True"
| "is_tenant HostInband = True"
| "is_tenant Admin = False"
| "is_tenant Underlay = False"

datatype deletion_state = DrainAllocatedIps (delete_at: datetime) | DBDelete

datatype segment_state = Provisioning | SegmentReady | Deleting deletion_state

record network_segment =
  seg_id :: string
  seg_type :: network_segment_type
  seg_state :: "segment_state versioned"
  seg_outcome :: "persistent_outcome option"
  vlan_id :: "int option"
  vni :: "int option"
  seg_deleted :: "datetime option"

definition is_marked_as_deleted :: "network_segment \<Rightarrow> bool" where
  "is_marked_as_deleted s \<longleftrightarrow> seg_deleted s \<noteq> None"

definition PROVISIONING_SLA :: duration where "PROVISIONING_SLA = 15 * 60 * 1000000000"

definition DELETING_DBDELETE_SLA :: duration where "DELETING_DBDELETE_SLA = 15 * 60 * 1000000000"

definition segment_state_sla :: "datetime \<Rightarrow> segment_state \<Rightarrow> config_version \<Rightarrow> state_sla" where
  "segment_state_sla now s ver =
     (let time_in_state = to_std_or_day (now - timestamp ver)
      in case s of
           Provisioning \<Rightarrow> with_sla PROVISIONING_SLA time_in_state
         | SegmentReady \<Rightarrow> no_sla
         | Deleting (DrainAllocatedIps _) \<Rightarrow> no_sla
         | Deleting DBDelete \<Rightarrow> with_sla DELETING_DBDELETE_SLA time_in_state)"

subsection \<open>The tables\<close>

record segment_db =
  db_segments :: "network_segment list"
  db_prefixes :: "(string \<times> string) list"
  db_interfaces :: "string list"
  db_addresses :: "string list"
  db_defs :: "(string \<times> string) list"
  db_pools :: pool_table
  db_history :: "(string \<times> segment_state \<times> config_version) list"

definition on_segment :: "string \<Rightarrow> (network_segment \<Rightarrow> network_segment) \<Rightarrow> segment_db \<Rightarrow> segment_db" where
  "on_segment sid f db = db\<lparr>db_segments := map (\<lambda>s. if seg_id s = sid then f s else s) (db_segments db)\<rparr>"

definition segment_has_allocations :: "segment_db \<Rightarrow> string \<Rightarrow> bool" where
  "segment_has_allocations db sid \<longleftrightarrow> sid \<in> set (db_interfaces db) \<or> sid \<in> set (db_addresses db)"

definition try_update_controller_state ::
  "string \<Rightarrow> config_version \<Rightarrow> config_version \<Rightarrow> segment_state \<Rightarrow> segment_db \<Rightarrow> bool \<times> segment_db" where
  "try_update_controller_state sid expected new_ver s db =
     (let hit = (\<lambda>x. seg_id x = sid \<and> ver_version (seg_state x) = expected)
      in (list_ex hit (db_segments db),
          db\<lparr>db_segments := map (\<lambda>x. if hit x then x\<lparr>seg_state := versioned_new s new_ver\<rparr> else x) (db_segments db)\<rparr>))"

definition update_controller_state_outcome :: "string \<Rightarrow> persistent_outcome \<Rightarrow> segment_db \<Rightarrow> segment_db" where
  "update_controller_state_outcome sid po = on_segment sid (\<lambda>s. s\<lparr>seg_outcome := Some po\<rparr>)"

text \<open>
  The trigger \<^verbatim>\<open>t_network_segment_state_history_keep_limit\<close>: after an insert the 250 newest rows of the object
  stay.  Rows are in the order of their ids.
\<close>

fun drop_oldest :: "nat \<Rightarrow> string \<Rightarrow> (string \<times> segment_state \<times> config_version) list \<Rightarrow> (string \<times> segment_state \<times> config_version) list" where
  "drop_oldest 0 sid hist = hist"
| "drop_oldest (Suc n) sid [] = []"
| "drop_oldest (Suc n) sid (r # hist) = (if fst r = sid then drop_oldest n sid hist else r # drop_oldest (Suc n) sid hist)"

definition history_keep_limit :: "string \<Rightarrow> (string \<times> segment_state \<times> config_version) list \<Rightarrow> (string \<times> segment_state \<times> config_version) list" where
  "history_keep_limit sid hist = drop_oldest (length (filter (\<lambda>r. fst r = sid) hist) - 250) sid hist"

definition history_persist :: "string \<Rightarrow> config_version \<Rightarrow> segment_state \<Rightarrow> segment_db \<Rightarrow> segment_db" where
  "history_persist sid ver s db = db\<lparr>db_history := history_keep_limit sid (db_history db @ [(sid, s, ver)])\<rparr>"

fun create_for :: "faults \<Rightarrow> nat \<Rightarrow> string \<Rightarrow> string list \<Rightarrow> segment_db \<Rightarrow> (database_error, segment_db) result" where
  "create_for fault i sid [] db = (case fault i of Some e \<Rightarrow> Err (QueryFailed e) | None \<Rightarrow> Ok db)"
| "create_for fault i sid (p # ps) db =
     (case fault i of
        Some e \<Rightarrow> Err (QueryFailed e)
      | None \<Rightarrow> create_for fault (Suc i) sid ps (db\<lparr>db_prefixes := db_prefixes db @ [(p, sid)]\<rparr>))"

definition segment_persist :: "faults \<Rightarrow> config_version \<Rightarrow> string \<Rightarrow> network_segment_type \<Rightarrow> int option \<Rightarrow> int option \<Rightarrow> string list
    \<Rightarrow> segment_state \<Rightarrow> segment_db \<Rightarrow> (database_error, segment_db) result" where
  "segment_persist fault ver sid ty vlan vn prefixes initial db =
     (case fault 0 of
        Some e \<Rightarrow> Err (QueryFailed e)
      | None \<Rightarrow>
          if list_ex (\<lambda>s. seg_id s = sid) (db_segments db) then Err UniqueViolation
          else and_then
            (case fault 1 of
               Some e \<Rightarrow> Err (QueryFailed e)
             | None \<Rightarrow>
                 create_for fault 2 sid prefixes
                   (db\<lparr>db_segments := db_segments db @
                      [\<lparr>seg_id = sid, seg_type = ty, seg_state = versioned_new initial ver, seg_outcome = None,
                        vlan_id = vlan, vni = vn, seg_deleted = None\<rparr>]\<rparr>))
            (\<lambda>db'. case fault (3 + length prefixes) of
                     Some e \<Rightarrow> Err (QueryFailed e)
                   | None \<Rightarrow> Ok (history_persist sid ver initial db')))"

definition delete_for_segment :: "string \<Rightarrow> segment_db \<Rightarrow> segment_db" where
  "delete_for_segment sid db = db\<lparr>db_prefixes := filter (\<lambda>(_, s). s \<noteq> sid) (db_prefixes db)\<rparr>"

text \<open>
  The foreign keys of the schema: an interface or a prefix that still refers to the segment makes the delete
  fail, and the row of \<^verbatim>\<open>network_def\<close> that refers to it goes with it.
\<close>

definition final_delete :: "faults \<Rightarrow> string \<Rightarrow> segment_db \<Rightarrow> (database_error, segment_db) result" where
  "final_delete fault sid db =
     (case fault 0 of
        Some e \<Rightarrow> Err (QueryFailed e)
      | None \<Rightarrow>
          (let db1 = delete_for_segment sid db
           in case fault 1 of
                Some e \<Rightarrow> Err (QueryFailed e)
              | None \<Rightarrow>
                  if list_ex (\<lambda>s. seg_id s = sid) (db_segments db1)
                  then if sid \<in> set (db_interfaces db1) then Err (QueryFailed ''machine_interfaces_segment_id_fkey'')
                    else if list_ex (\<lambda>(_, s). s = sid) (db_prefixes db1) then Err (QueryFailed ''network_prefixes_segment_id_fkey'')
                    else Ok (db1\<lparr>db_segments := filter (\<lambda>s. seg_id s \<noteq> sid) (db_segments db1),
                                 db_defs := filter (\<lambda>(_, s). s \<noteq> sid) (db_defs db1)\<rparr>)
                  else Err RowNotFound))"

datatype segment_delete_error = NetworkSegmentDelete string | SegmentDb database_error

definition mark_as_deleted :: "faults \<Rightarrow> datetime \<Rightarrow> string \<Rightarrow> segment_db \<Rightarrow> (segment_delete_error, segment_db) result" where
  "mark_as_deleted fault now sid db =
     (case fault 0 of
        Some e \<Rightarrow> Err (SegmentDb (QueryFailed e))
      | None \<Rightarrow>
          if count_list (db_interfaces db) sid > 0
          then Err (NetworkSegmentDelete ''Network Segment can't be deleted with associated MachineInterface'')
          else case fault 1 of
            Some e \<Rightarrow> Err (SegmentDb (QueryFailed e))
          | None \<Rightarrow>
              if count_list (db_addresses db) sid > 0
              then Err (NetworkSegmentDelete ''Network Segment can't be deleted while addresses on the segment are allocated to instances'')
              else case fault 2 of
                Some e \<Rightarrow> Err (SegmentDb (QueryFailed e))
              | None \<Rightarrow>
                  if list_ex (\<lambda>s. seg_id s = sid) (db_segments db)
                  then Ok (on_segment sid (\<lambda>s. s\<lparr>seg_deleted := Some now\<rparr>) db)
                  else Err (SegmentDb RowNotFound))"

definition mark_as_deleted_no_validation :: "faults \<Rightarrow> datetime \<Rightarrow> string list \<Rightarrow> segment_db \<Rightarrow> (database_error, segment_db) result" where
  "mark_as_deleted_no_validation fault now sids db =
     (case fault 0 of
        Some e \<Rightarrow> Err (QueryFailed e)
      | None \<Rightarrow>
          if list_ex (\<lambda>s. seg_id s \<in> set sids) (db_segments db)
          then Ok (db\<lparr>db_segments := map (\<lambda>s. if seg_id s \<in> set sids then s\<lparr>seg_deleted := Some now\<rparr> else s) (db_segments db)\<rparr>)
          else Err RowNotFound)"

subsection \<open>The IO\<close>

definition load_segment :: "segment_db \<Rightarrow> string \<Rightarrow> (database_error, network_segment option) result" where
  "load_segment db sid =
     (case filter (\<lambda>s. seg_id s = sid) (db_segments db) of
        [] \<Rightarrow> Ok None
      | [s] \<Rightarrow> Ok (Some s)
      | _ \<Rightarrow> Err (QueryFailed (''searching for NetworkSegment '' @ sid @ '' returned multiple results'')))"

fun segment_metric_state_names :: "segment_state \<Rightarrow> full_state" where
  "segment_metric_state_names Provisioning = (''provisioning'', [])"
| "segment_metric_state_names SegmentReady = (''ready'', [])"
| "segment_metric_state_names (Deleting (DrainAllocatedIps _)) = (''deleting'', ''drainallocatedips'')"
| "segment_metric_state_names (Deleting DBDelete) = (''deleting'', ''dbdelete'')"

definition segment_io :: "datetime \<Rightarrow> (segment_state \<Rightarrow> string) \<Rightarrow> (string, segment_db, network_segment, segment_state) io_ops" where
  "segment_io now debug =
     \<lparr>io_show = (\<lambda>sid. sid),
      load_object_state = load_segment,
      load_controller_state = (\<lambda>_ _ seg. seg_state seg),
      persist_controller_state = try_update_controller_state,
      persist_state_history = history_persist,
      persist_outcome = update_controller_state_outcome,
      io_state_sla = (\<lambda>s _. segment_state_sla now (ver_value s) (ver_version s)),
      metric_state_names = segment_metric_state_names,
      manual_intervention_reason = (\<lambda>_. None),
      debug_state = debug\<rparr>"

definition list_segment_ids :: "network_segment_type option \<Rightarrow> segment_db \<Rightarrow> string list" where
  "list_segment_ids ty db =
     (case ty of
        Some t \<Rightarrow> map seg_id (filter (\<lambda>s. seg_type s = t) (db_segments db))
      | None \<Rightarrow> map seg_id (db_segments db))"

subsection \<open>The handler\<close>

record segment_handler_env =
  h_now :: "nat \<Rightarrow> datetime"
  h_checked_add :: "datetime \<Rightarrow> duration \<Rightarrow> datetime option"
  h_rfc3339 :: "datetime \<Rightarrow> string"
  h_caller :: source_location
  h_fault :: faults

record segment_state_handler =
  drain_period :: duration
  pool_vlan_id :: resource_pool
  pool_vni :: resource_pool

definition drain_deadline :: "segment_state_handler \<Rightarrow> segment_handler_env \<Rightarrow> datetime" where
  "drain_deadline h env = (case h_checked_add env (h_now env 0) (drain_period h) of Some t \<Rightarrow> t | None \<Rightarrow> h_now env 1)"

definition release_opt :: "faults \<Rightarrow> resource_pool \<Rightarrow> int option \<Rightarrow> segment_db \<Rightarrow> (database_error, segment_db) result" where
  "release_opt fault pool v db =
     (case v of
        None \<Rightarrow> Ok db
      | Some x \<Rightarrow>
          (case release show_int fault pool (db_pools db) x of
             (Inl e, _) \<Rightarrow> Err e
           | (Inr _, tbl, _) \<Rightarrow> Ok (db\<lparr>db_pools := tbl\<rparr>)))"

text \<open>The statements of \<^verbatim>\<open>DBDelete\<close>, after \<^verbatim>\<open>begin\<close>: release the VNI, release the VLAN, delete the rows.\<close>

definition delete_segment :: "segment_state_handler \<Rightarrow> faults \<Rightarrow> string \<Rightarrow> network_segment \<Rightarrow> segment_db \<Rightarrow> (database_error, segment_db) result" where
  "delete_segment h fault sid seg db =
     and_then (release_opt (\<lambda>_. fault 1) (pool_vni h) (vni seg) db) (\<lambda>db1.
     and_then (release_opt (\<lambda>_. fault 2) (pool_vlan_id h) (vlan_id seg) db1)
       (final_delete (\<lambda>i. fault (3 + i)) sid))"

definition handle_object_state :: "segment_state_handler \<Rightarrow> segment_handler_env
    \<Rightarrow> (string, segment_db, network_segment, segment_state) handler" where
  "handle_object_state h env db sid seg s =
     (let finish = (\<lambda>res. \<lparr>run_result = res, run_snapshot = seg, run_writes = []\<rparr>);
          caller = h_caller env
      in case s of
           Provisioning \<Rightarrow> finish (Ok (transition caller SegmentReady))
         | SegmentReady \<Rightarrow>
             if is_marked_as_deleted seg
             then finish (Ok (transition caller (Deleting (DrainAllocatedIps (drain_deadline h env)))))
             else finish (Ok (do_nothing caller))
         | Deleting (DrainAllocatedIps t) \<Rightarrow>
             (case h_fault env 0 of
                Some e \<Rightarrow> finish (Err (TransactionError e))
              | None \<Rightarrow>
                  (case h_fault env 1 of
                     Some e \<Rightarrow> finish (Err (DBError (QueryFailed e)))
                   | None \<Rightarrow>
                       if segment_has_allocations db (seg_id seg)
                       then finish (Ok (the (with_txn (transition caller (Deleting (DrainAllocatedIps (drain_deadline h env)))) id)))
                       else if h_now env 0 \<ge> t
                       then finish (Ok (the (with_txn (transition caller (Deleting DBDelete)) id)))
                       else finish (Ok (the (with_txn (wait caller
                              (''Cannot delete from database until draining completes at '' @ h_rfc3339 env t)) id)))))
         | Deleting DBDelete \<Rightarrow>
             (case h_fault env 0 of
                Some e \<Rightarrow> finish (Err (TransactionError e))
              | None \<Rightarrow>
                  (case delete_segment h (h_fault env) sid seg db of
                     Inl e \<Rightarrow> finish (Err (DBError e))
                   | Inr db' \<Rightarrow>
                       \<lparr>run_result = Ok (the (with_txn (deleted caller) (\<lambda>_. db'))), run_snapshot = seg\<lparr>vni := None, vlan_id := None\<rparr>,
                        run_writes = []\<rparr>)))"

subsection \<open>The life of the segments\<close>

text \<open>
  What happens to the tables besides the controller: segments are created in \<^verbatim>\<open>Provisioning\<close> or
  \<^verbatim>\<open>Ready\<close>, marked as deleted by the API, and everything but their identifier, state and mark may change.
  \<open>ids\<close> are the identifiers used so far, and a segment is created under one that is not among them: the
  tables alone accept the identifier of a segment that is gone, so this is a condition on the
  callers, who choose it or have it drawn at random.
\<close>

inductive api_step :: "string set \<Rightarrow> segment_db \<Rightarrow> string set \<Rightarrow> segment_db \<Rightarrow> bool" where
  created: "sid \<notin> ids \<Longrightarrow> initial \<in> {Provisioning, SegmentReady} \<Longrightarrow> segment_persist fault ver sid ty vlan vn prefixes initial db = Ok db' \<Longrightarrow>
    api_step ids db (insert sid ids) db'"
| marked: "mark_as_deleted fault now sid db = Ok db' \<Longrightarrow> api_step ids db ids db'"
| marked_unchecked: "mark_as_deleted_no_validation fault now sids db = Ok db' \<Longrightarrow> api_step ids db ids db'"
| other: "(\<And>s. seg_id (f s) = seg_id s \<and> seg_state (f s) = seg_state s \<and> seg_deleted (f s) = seg_deleted s) \<Longrightarrow>
    db_segments db' = map f (db_segments db) \<Longrightarrow> api_step ids db ids db'"

text \<open>Invocations of the controller, each with everything that is committed between its load and its end.\<close>

inductive segment_run :: "segment_state_handler \<Rightarrow> string set \<Rightarrow> segment_db \<Rightarrow> string set \<Rightarrow> segment_db \<Rightarrow> bool" for h where
  idle: "segment_run h ids db ids db"
| api: "segment_run h ids db ids1 db1 \<Longrightarrow> api_step ids1 db1 ids2 db2 \<Longrightarrow> segment_run h ids db ids2 db2"
| handled: "segment_run h ids db ids1 db1 \<Longrightarrow> segment_run h ids1 db1 ids2 (meanwhile env db1) \<Longrightarrow>
    process_object (segment_io now debug) (handle_object_state h henv) env sid db1 = Some out \<Longrightarrow>
    out_db out = db1 \<and> ids3 = ids1 \<or> ids3 = ids2 \<Longrightarrow> segment_run h ids db ids3 (out_db out)"

definition segment_state_of :: "segment_db \<Rightarrow> string \<Rightarrow> segment_state versioned option" where
  "segment_state_of db sid = map_option seg_state (find (\<lambda>s. seg_id s = sid) (db_segments db))"

definition segment_mark_of :: "segment_db \<Rightarrow> string \<Rightarrow> datetime option option" where
  "segment_mark_of db sid = map_option seg_deleted (find (\<lambda>s. seg_id s = sid) (db_segments db))"

definition segments_distinct :: "segment_db \<Rightarrow> bool" where
  "segments_distinct db \<longleftrightarrow> distinct (map seg_id (db_segments db))"

fun is_deleting :: "segment_state \<Rightarrow> bool" where
  "is_deleting (Deleting _) = True"
| "is_deleting _ = False"

text \<open>The edges of the state machine, with what has to hold for each.\<close>

inductive segment_edge :: "segment_state_handler \<Rightarrow> segment_handler_env \<Rightarrow> segment_db \<Rightarrow> network_segment \<Rightarrow> segment_state \<Rightarrow> segment_state \<Rightarrow> bool"
  for h env db seg where
  provisioned: "segment_edge h env db seg Provisioning SegmentReady"
| drain: "is_marked_as_deleted seg \<Longrightarrow> segment_edge h env db seg SegmentReady (Deleting (DrainAllocatedIps (drain_deadline h env)))"
| still_used: "segment_has_allocations db (seg_id seg) \<Longrightarrow>
    segment_edge h env db seg (Deleting (DrainAllocatedIps t)) (Deleting (DrainAllocatedIps (drain_deadline h env)))"
| drained: "\<not> segment_has_allocations db (seg_id seg) \<Longrightarrow> t \<le> h_now env 0 \<Longrightarrow>
    segment_edge h env db seg (Deleting (DrainAllocatedIps t)) (Deleting DBDelete)"

definition segments_wf :: "string set \<Rightarrow> segment_db \<Rightarrow> bool" where
  "segments_wf ids db \<longleftrightarrow> segments_distinct db \<and> seg_id ` set (db_segments db) \<subseteq> ids \<and>
     (\<forall>s \<in> set (db_segments db). is_deleting (ver_value (seg_state s)) \<longrightarrow> is_marked_as_deleted s)"

text \<open>The pool rows of the VNI and of the VLAN of a segment.\<close>

definition holds_row :: "segment_state_handler \<Rightarrow> network_segment \<Rightarrow> pool_row \<Rightarrow> bool" where
  "holds_row h seg r \<longleftrightarrow>
     (\<exists>v. vni seg = Some v \<and> row_name r = pool_name (pool_vni h) \<and> row_value r = show_int v) \<or>
     (\<exists>v. vlan_id seg = Some v \<and> row_name r = pool_name (pool_vlan_id h) \<and> row_value r = show_int v)"

definition quiet :: "segment_db po_env \<Rightarrow> bool" where
  "quiet env \<longleftrightarrow> awaits env = (\<lambda>_. Ready) \<and> \<not> handler_elapsed env \<and> meanwhile env = id \<and> cv_now (chrono env) (sys_now env) \<noteq> None"

text \<open>Once a segment is marked as deleted, or gone, it never becomes an unmarked segment again.\<close>

definition marks_stay :: "string set \<Rightarrow> segment_db \<Rightarrow> segment_db \<Rightarrow> bool" where
  "marks_stay ids db db' \<longleftrightarrow> (\<forall>sid \<in> ids. segment_mark_of db sid \<noteq> Some None \<longrightarrow> segment_mark_of db' sid \<noteq> Some None)"

text \<open>A site with one segment, for the examples.\<close>

definition demo_handler_config :: segment_state_handler where
  "demo_handler_config =
     \<lparr>drain_period = 10, pool_vlan_id = \<lparr>pool_name = ''vlan-id'', pool_value_type = value_type.Integer\<rparr>,
      pool_vni = \<lparr>pool_name = ''vni'', pool_value_type = value_type.Integer\<rparr>\<rparr>"

definition demo_handler_env :: "datetime \<Rightarrow> segment_handler_env" where
  "demo_handler_env t =
     \<lparr>h_now = (\<lambda>_. t), h_checked_add = (\<lambda>a b. Some (a + b)), h_rfc3339 = (\<lambda>_. []), h_caller = demo_src, h_fault = (\<lambda>_. None)\<rparr>"

definition demo_segment :: "segment_state \<Rightarrow> network_segment" where
  "demo_segment s =
     \<lparr>seg_id = ''s1'', seg_type = Tenant, seg_state = versioned_new s (demo_version 1), seg_outcome = None,
      vlan_id = None, vni = Some 7, seg_deleted = Some 3\<rparr>"

definition demo_segments :: "segment_state \<Rightarrow> segment_db" where
  "demo_segments s =
     \<lparr>db_segments = [demo_segment s], db_prefixes = [(''p1'', ''s1'')], db_interfaces = [''s2''], db_addresses = [], db_defs = [(''net1'', ''s1'')],
      db_pools = \<lparr>rows =
        [\<lparr>row_id = 1, row_name = ''vni'', row_value = show_int 7, row_type = value_type.Integer,
          row_state = Allocated ''s1'' ''network_segment'', row_version = demo_version 1, row_auto = True, row_allocated = Some 2\<rparr>], next_id = 2\<rparr>,
      db_history = []\<rparr>"

definition demo_quiet :: "segment_db po_env" where
  "demo_quiet =
     \<lparr>awaits = (\<lambda>_. Ready), commit_applied = (\<lambda>_. False), handler_elapsed = False, meanwhile = id, utc_now = 5,
      sys_now = 0, chrono = chrono_doc, error_text = metric_label, latency = 1\<rparr>"

lemma segment_type_round_trip: "segment_type_from_str (segment_type_display t) = Ok t"
  by (cases t) (simp_all add: segment_type_from_str_def)

lemma drop_oldest_filter: "filter (\<lambda>r. fst r = sid) (drop_oldest n sid hist) = drop n (filter (\<lambda>r. fst r = sid) hist)"
  "filter (\<lambda>r. fst r \<noteq> sid) (drop_oldest n sid hist) = filter (\<lambda>r. fst r \<noteq> sid) hist"
  by (induction n sid hist rule: drop_oldest.induct) auto

text \<open>The history of an object holds its newest 250 entries, the one just written among them; that of the others stays.\<close>

lemma history_persist_entries:
  "filter (\<lambda>r. fst r = sid) (db_history (history_persist sid ver s db)) =
     (let old = filter (\<lambda>r. fst r = sid) (db_history db) in drop (length old + 1 - 250) old @ [(sid, s, ver)])"
  "filter (\<lambda>r. fst r \<noteq> sid) (db_history (history_persist sid ver s db)) = filter (\<lambda>r. fst r \<noteq> sid) (db_history db)"
  by (simp_all add: history_persist_def history_keep_limit_def drop_oldest_filter Let_def)

lemma handle_writes [simp]: "run_writes (handle_object_state h env db sid seg s) = []"
  by (simp add: handle_object_state_def Let_def split: segment_state.splits deletion_state.splits option.splits sum.splits)

lemmas outcome_defs = transition_def do_nothing_def wait_def deleted_def with_txn_def with_txn_opt_def

lemma handle_transition:
  assumes "run_result (handle_object_state h env db sid seg s) = Ok (Transition s' src t)"
  shows "segment_edge h env db seg s s'" "handler_view (Transition s' src t) db = db"
  using assms
  by (auto simp: handle_object_state_def Let_def outcome_defs handler_view_def intro: segment_edge.intros
      split: segment_state.splits deletion_state.splits option.splits sum.splits if_splits)

lemma handle_deleted:
  assumes "run_result (handle_object_state h env db sid seg s) = Ok (Deleted src t)"
  shows "s = Deleting DBDelete"
    "delete_segment h (h_fault env) sid seg db = Ok (handler_view (Deleted src t :: (segment_state, segment_db \<Rightarrow> segment_db) state_handler_outcome) db)"
  using assms
  by (auto simp: handle_object_state_def Let_def outcome_defs handler_view_def
      split: segment_state.splits deletion_state.splits option.splits sum.splits if_splits)

lemma handle_view:
  assumes "run_result (handle_object_state h env db sid seg s) = Ok outcome" "\<not> is_deleted (Ok outcome)"
  shows "handler_view outcome db = db"
  using assms
  by (auto simp: handle_object_state_def Let_def outcome_defs handler_view_def is_deleted_def
      split: segment_state.splits deletion_state.splits option.splits sum.splits if_splits)

lemma release_opt_frame: "release_opt fault pool v db = Ok db' \<Longrightarrow> \<exists>tbl. db' = db\<lparr>db_pools := tbl\<rparr>"
  by (auto simp: release_opt_def intro: exI [of _ "db_pools db"] split: option.splits sum.splits prod.splits)

lemma release_opt_segments:
  "release_opt fault pool v db = Ok db' \<Longrightarrow> db_segments db' = db_segments db \<and> db_interfaces db' = db_interfaces db"
  by (drule release_opt_frame) auto

lemma delete_segment_frame:
  assumes "delete_segment h fault sid seg db = Ok db'"
  shows "\<exists>tbl. db' = db\<lparr>db_segments := filter (\<lambda>s. seg_id s \<noteq> sid) (db_segments db), db_prefixes := filter (\<lambda>(_, s). s \<noteq> sid) (db_prefixes db),
    db_defs := filter (\<lambda>(_, s). s \<noteq> sid) (db_defs db), db_pools := tbl\<rparr>" "sid \<notin> set (db_interfaces db)"
proof -
  obtain d1 d2 where d: "release_opt (\<lambda>_. fault 1) (pool_vni h) (vni seg) db = Ok d1"
      "release_opt (\<lambda>_. fault 2) (pool_vlan_id h) (vlan_id seg) d1 = Ok d2" "final_delete (\<lambda>i. fault (3 + i)) sid d2 = Ok db'"
    using assms by (auto simp: delete_segment_def and_then_Inr_iff)
  obtain tbl where d2: "d2 = db\<lparr>db_pools := tbl\<rparr>" using release_opt_frame [OF d(1)] release_opt_frame [OF d(2)] by auto
  show "sid \<notin> set (db_interfaces db)" using d(3) d2 by (auto simp: final_delete_def delete_for_segment_def Let_def split: option.splits if_splits)
  have "db' = d2\<lparr>db_prefixes := filter (\<lambda>(_, s). s \<noteq> sid) (db_prefixes d2), db_segments := filter (\<lambda>s. seg_id s \<noteq> sid) (db_segments d2),
      db_defs := filter (\<lambda>(_, s). s \<noteq> sid) (db_defs d2)\<rparr>"
    using d(3) by (auto simp: final_delete_def delete_for_segment_def Let_def split: option.splits if_splits)
  then show "\<exists>tbl. db' = db\<lparr>db_segments := filter (\<lambda>s. seg_id s \<noteq> sid) (db_segments db), db_prefixes := filter (\<lambda>(_, s). s \<noteq> sid) (db_prefixes db),
      db_defs := filter (\<lambda>(_, s). s \<noteq> sid) (db_defs db), db_pools := tbl\<rparr>"
    unfolding d2 by (intro exI [of _ tbl] segment_db.equality) simp_all
qed

lemma delete_segment_rows: "delete_segment h fault sid seg db = Ok db' \<Longrightarrow> db_segments db' = filter (\<lambda>s. seg_id s \<noteq> sid) (db_segments db)"
  by (drule delete_segment_frame(1)) auto

lemma find_distinct: "distinct (map key xs) \<Longrightarrow> x \<in> set xs \<Longrightarrow> find (\<lambda>y. key y = key x) xs = Some x"
  by (induction xs) (auto simp: rev_image_eqI)

lemma find_map_keep: "(\<And>x. key (f x) = key x) \<Longrightarrow> find (\<lambda>y. key y = k) (map f xs) = map_option f (find (\<lambda>y. key y = k) xs)"
  by (induction xs) auto

lemma find_append_case: "find P (xs @ ys) = (case find P xs of None \<Rightarrow> find P ys | Some x \<Rightarrow> Some x)"
  by (induction xs) auto

lemma load_segment_find:
  assumes "load_segment db sid = Ok (Some seg)"
  shows "find (\<lambda>s. seg_id s = sid) (db_segments db) = Some seg" "seg_id seg = sid" "seg \<in> set (db_segments db)"
proof -
  have f: "filter (\<lambda>s. seg_id s = sid) (db_segments db) = [seg]" using assms by (auto simp: load_segment_def split: list.splits)
  then show "find (\<lambda>s. seg_id s = sid) (db_segments db) = Some seg"
    by (induction "db_segments db") (auto simp: find_dropWhile filter_eq_Cons_iff split: if_splits)
  show "seg_id seg = sid" "seg \<in> set (db_segments db)" using f [THEN arg_cong [where f = set]] by auto
qed

lemma try_update_won:
  assumes "segments_distinct db" "try_update_controller_state sid old new s db = (True, db')"
  shows "segments_distinct db'" "stored_under (segment_state_of db) sid old"
    "segment_state_of db' = (segment_state_of db)(sid \<mapsto> versioned_new s new)" "segment_mark_of db' = segment_mark_of db"
proof -
  let ?f = "\<lambda>x. if seg_id x = sid \<and> ver_version (seg_state x) = old then x\<lparr>seg_state := versioned_new s new\<rparr> else x"
  obtain r where r: "r \<in> set (db_segments db)" "seg_id r = sid" "ver_version (seg_state r) = old"
    using assms(2) by (auto simp: try_update_controller_state_def Let_def list_ex_iff)
  have rows: "db_segments db' = map ?f (db_segments db)" using assms(2) by (auto simp: try_update_controller_state_def Let_def)
  have f: "find (\<lambda>y. seg_id y = sid) (db_segments db) = Some r" using find_distinct [of seg_id _ r] assms(1) r by (simp add: segments_distinct_def)
  have "map seg_id (db_segments db') = map seg_id (db_segments db)" by (auto simp: rows)
  then show "segments_distinct db'" using assms(1) by (simp add: segments_distinct_def)
  show "stored_under (segment_state_of db) sid old" using f r by (auto simp: stored_under_def segment_state_of_def)
  show "segment_state_of db' = (segment_state_of db)(sid \<mapsto> versioned_new s new)"
  proof
    fix x
    show "segment_state_of db' x = ((segment_state_of db)(sid \<mapsto> versioned_new s new)) x"
      unfolding segment_state_of_def rows using f r
      by (subst find_map_keep) (auto simp: find_Some_iff option.map_comp comp_def intro!: option.map_cong)
  qed
  show "segment_mark_of db' = segment_mark_of db"
    unfolding segment_mark_of_def rows by (subst find_map_keep) (auto simp: option.map_comp comp_def intro!: ext option.map_cong)
qed

lemma try_update_lost:
  assumes "segments_distinct db" "try_update_controller_state sid old new s db = (False, db')"
  shows "\<not> stored_under (segment_state_of db) sid old" "db' = db"
proof -
  have no: "\<not> (seg_id x = sid \<and> ver_version (seg_state x) = old)" if "x \<in> set (db_segments db)" for x
    using assms(2) that by (auto simp: try_update_controller_state_def Let_def list_ex_iff)
  then show "\<not> stored_under (segment_state_of db) sid old"
    by (auto simp: stored_under_def segment_state_of_def find_Some_iff dest: nth_mem)
  have "map (\<lambda>x. if seg_id x = sid \<and> ver_version (seg_state x) = old then x\<lparr>seg_state := versioned_new s new\<rparr> else x) (db_segments db) = db_segments db"
    using no by (intro map_idI) auto
  then show "db' = db" using assms(2) by (simp add: try_update_controller_state_def Let_def)
qed

lemma segment_io_simps [simp]:
  "load_object_state (segment_io now debug) = load_segment"
  "load_controller_state (segment_io now debug) db sid seg = seg_state seg"
  "persist_controller_state (segment_io now debug) = try_update_controller_state"
  "persist_state_history (segment_io now debug) = history_persist"
  "persist_outcome (segment_io now debug) = update_controller_state_outcome"
  "io_show (segment_io now debug) sid = sid"
  by (simp_all add: segment_io_def)

lemma update_keeps [simp]:
  "segments_distinct (update_controller_state_outcome sid po db) = segments_distinct db"
  "segment_state_of (update_controller_state_outcome sid po db) = segment_state_of db"
  "segment_mark_of (update_controller_state_outcome sid po db) = segment_mark_of db"
  "segments_distinct (history_persist sid ver s db) = segments_distinct db"
  "segment_state_of (history_persist sid ver s db) = segment_state_of db"
  "segment_mark_of (history_persist sid ver s db) = segment_mark_of db"
proof -
  have "map seg_id (db_segments (update_controller_state_outcome sid po db)) = map seg_id (db_segments db)"
    by (auto simp: update_controller_state_outcome_def on_segment_def)
  then show "segments_distinct (update_controller_state_outcome sid po db) = segments_distinct db" by (simp add: segments_distinct_def)
  show "segment_state_of (update_controller_state_outcome sid po db) = segment_state_of db"
    "segment_mark_of (update_controller_state_outcome sid po db) = segment_mark_of db"
    unfolding segment_state_of_def segment_mark_of_def update_controller_state_outcome_def on_segment_def
    by (auto simp: find_map_keep option.map_comp comp_def intro!: ext option.map_cong)
qed (simp_all add: segments_distinct_def segment_state_of_def segment_mark_of_def history_persist_def fun_eq_iff)

interpretation seg_io: controller_io "segment_io now debug" segments_distinct segment_state_of for now debug
proof
  fix db db' sid seg old new s
  show "load_object_state (segment_io now debug) db sid = Ok (Some seg) \<Longrightarrow>
      segment_state_of db sid = Some (load_controller_state (segment_io now debug) db sid seg)"
    by (simp add: segment_state_of_def load_segment_find)
  show "segments_distinct db \<Longrightarrow> persist_controller_state (segment_io now debug) sid old new s db = (True, db') \<Longrightarrow>
      segments_distinct db' \<and> stored_under (segment_state_of db) sid old \<and> segment_state_of db' = (segment_state_of db)(sid \<mapsto> versioned_new s new)"
    by (simp add: try_update_won)
  show "segments_distinct db \<Longrightarrow> persist_controller_state (segment_io now debug) sid old new s db = (False, db') \<Longrightarrow>
      \<not> stored_under (segment_state_of db) sid old \<and> db' = db"
    by (simp add: try_update_lost)
qed simp_all

lemma handler_keeps_states:
  assumes "segments_distinct db"
  shows "keeps_states segments_distinct segment_state_of (handle_object_state h env) db sid"
proof -
  have "segments_distinct v \<and> (\<not> is_deleted (Ok oc) \<longrightarrow> segment_state_of v = segment_state_of db)"
    if run: "run_result (handle_object_state h env db sid seg s) = Ok oc" and v: "v = handler_view oc db" for seg s oc v
  proof (cases oc)
    case (Deleted src t)
    then show ?thesis using delete_segment_rows [OF handle_deleted(2) [OF run [unfolded Deleted]]] v assms
      by (simp add: is_deleted_def segments_distinct_def distinct_map_filter)
  qed (use handle_view [OF run] v assms in \<open>auto simp: is_deleted_def\<close>)
  then show ?thesis by (simp add: keeps_states_def)
qed

lemma segment_after:
  assumes "process_object (segment_io now debug) (handle_object_state h henv) env sid db = Some out" "segments_distinct (meanwhile env db)"
  obtains (not_loaded) "out_db out = db"
    | (unchanged) "segments_distinct (out_db out)" "segment_state_of (out_db out) = segment_state_of (meanwhile env db)"
      "segment_mark_of (out_db out) = segment_mark_of (meanwhile env db)"
    | (moved) seg s new where "segments_distinct (out_db out)" "load_segment db sid = Ok (Some seg)"
      "segment_edge h henv (meanwhile env db) seg (ver_value (seg_state seg)) s"
      "stored_under (segment_state_of (meanwhile env db)) sid (ver_version (seg_state seg))"
      "segment_state_of (out_db out) = (segment_state_of (meanwhile env db))(sid \<mapsto> versioned_new s new)"
      "segment_mark_of (out_db out) = segment_mark_of (meanwhile env db)"
    | (removed) seg where "load_segment db sid = Ok (Some seg)" "ver_value (seg_state seg) = Deleting DBDelete"
      "delete_segment h (h_fault henv) sid seg (meanwhile env db) = Ok (out_db out)"
proof (rule projection_after [OF assms(1), where f = segment_mark_of])
  fix old new s v
  show "segment_mark_of (snd (persist_controller_state (segment_io now debug) sid old new s v)) = segment_mark_of v"
    unfolding segment_mark_of_def
    by (auto simp: try_update_controller_state_def Let_def find_map_keep option.map_comp comp_def intro!: ext option.map_cong)
next
  fix snap s outcome v
  assume "run_result (handle_object_state h henv (meanwhile env db) sid snap s) = Ok outcome" "\<not> is_deleted (Ok outcome)"
    "apply_all (run_writes (handle_object_state h henv (meanwhile env db) sid snap s)) (handler_view outcome (meanwhile env db)) = Ok v"
  then show "segment_mark_of v = segment_mark_of (meanwhile env db)" using handle_view by fastforce
next
  fix snap src t s
  assume l: "load_object_state (segment_io now debug) db sid = Ok (Some snap)" "s = ver_value (load_controller_state (segment_io now debug) db sid snap)"
    and r: "run_result (handle_object_state h henv (meanwhile env db) sid snap s) = Ok (Deleted src t)"
    and w: "apply_all (run_writes (handle_object_state h henv (meanwhile env db) sid snap s))
      (handler_view (Deleted src t :: (segment_state, segment_db \<Rightarrow> segment_db) state_handler_outcome) (meanwhile env db)) = Ok (out_db out)"
  show thesis using l w handle_deleted [OF r] by (intro removed) auto
next
  assume m: "segment_mark_of (out_db out) = segment_mark_of (meanwhile env db)"
  show thesis
  proof (rule seg_io.states_after [OF assms handler_keeps_states [OF assms(2)]])
    assume "segments_distinct (out_db out)" "segment_state_of (out_db out) = segment_state_of (meanwhile env db)"
    then show thesis using m by (rule unchanged)
  next
    fix snap s src t old new
    assume d: "segments_distinct (out_db out)" and l: "load_object_state (segment_io now debug) db sid = Ok (Some snap)"
      and old: "segment_state_of db sid = Some old"
      and run: "run_result (handle_object_state h henv (meanwhile env db) sid snap (ver_value old)) = Ok (Transition s src t)"
      and st: "stored_under (segment_state_of (meanwhile env db)) sid (ver_version old)"
        "segment_state_of (out_db out) = (segment_state_of (meanwhile env db))(sid \<mapsto> versioned_new s new)"
    have "old = seg_state snap" using seg_io.load_state [OF l] old by simp
    then show thesis using moved [OF d _ _ _ st(2) m] l handle_transition(1) [OF run] st(1) by simp
  next
    fix snap src t old
    assume l: "load_object_state (segment_io now debug) db sid = Ok (Some snap)" and old: "segment_state_of db sid = Some old"
      and r: "run_result (handle_object_state h henv (meanwhile env db) sid snap (ver_value old)) = Ok (Deleted src t)"
      and w: "apply_all (run_writes (handle_object_state h henv (meanwhile env db) sid snap (ver_value old)))
        (handler_view (Deleted src t :: (segment_state, segment_db \<Rightarrow> segment_db) state_handler_outcome) (meanwhile env db)) = Ok (out_db out)"
    have "old = seg_state snap" using seg_io.load_state [OF l] old by simp
    then show thesis using l w handle_deleted [OF r] by (intro removed) auto
  qed (rule not_loaded)
qed (simp_all add: not_loaded)

lemma mark_of_dom: "dom (segment_mark_of db) = seg_id ` set (db_segments db)"
  by (auto simp: segment_mark_of_def dom_def find_Some_iff find_None_iff image_iff)

lemma state_of_dom: "dom (segment_state_of db) = seg_id ` set (db_segments db)"
  by (auto simp: segment_state_of_def dom_def find_Some_iff find_None_iff image_iff)

lemma segments_wf_maps:
  "segments_wf ids db \<longleftrightarrow> segments_distinct db \<and> dom (segment_mark_of db) \<subseteq> ids \<and>
     (\<forall>sid v. segment_state_of db sid = Some v \<longrightarrow> is_deleting (ver_value v) \<longrightarrow> segment_mark_of db sid \<noteq> Some None)"
proof -
  have "(\<forall>s \<in> set (db_segments db). is_deleting (ver_value (seg_state s)) \<longrightarrow> is_marked_as_deleted s) \<longleftrightarrow>
      (\<forall>sid v. segment_state_of db sid = Some v \<longrightarrow> is_deleting (ver_value v) \<longrightarrow> segment_mark_of db sid \<noteq> Some None)"
    if "segments_distinct db"
  proof -
    have f: "find (\<lambda>y. seg_id y = sid) (db_segments db) = Some s \<longleftrightarrow> s \<in> set (db_segments db) \<and> seg_id s = sid" for s sid
      using find_distinct [of seg_id "db_segments db" s] that by (auto simp: segments_distinct_def find_Some_iff)
    have st: "segment_state_of db sid = Some v \<longleftrightarrow> (\<exists>s \<in> set (db_segments db). seg_id s = sid \<and> seg_state s = v)" for sid v
      by (auto simp: segment_state_of_def f)
    have mk: "segment_mark_of db (seg_id s) = Some (seg_deleted s)" if "s \<in> set (db_segments db)" for s
      using f [of "seg_id s" s] that by (simp add: segment_mark_of_def)
    have "(\<forall>s \<in> set (db_segments db). is_deleting (ver_value (seg_state s)) \<longrightarrow> is_marked_as_deleted s) \<longleftrightarrow>
        (\<forall>s \<in> set (db_segments db). is_deleting (ver_value (seg_state s)) \<longrightarrow> segment_mark_of db (seg_id s) \<noteq> Some None)"
      using mk by (simp add: is_marked_as_deleted_def)
    then show ?thesis unfolding st by blast
  qed
  then show ?thesis by (auto simp: segments_wf_def mark_of_dom)
qed

lemma create_for_segments: "create_for fault i sid ps db = Ok db' \<Longrightarrow> db_segments db' = db_segments db"
  by (induction fault i sid ps db rule: create_for.induct) (auto split: option.splits)

lemma segment_persist_rows:
  assumes "segment_persist fault ver sid ty vlan vn prefixes initial db = Ok db'"
  obtains r where "db_segments db' = db_segments db @ [r]" "seg_id r = sid" "seg_state r = versioned_new initial ver" "seg_deleted r = None"
    "sid \<notin> seg_id ` set (db_segments db)"
proof -
  have "\<forall>s \<in> set (db_segments db). seg_id s \<noteq> sid" using assms by (auto simp: segment_persist_def list_ex_iff split: option.splits if_splits)
  then have "sid \<notin> seg_id ` set (db_segments db)" by auto
  then show thesis using assms that
    by (auto simp: segment_persist_def history_persist_def and_then_Inr_iff dest!: create_for_segments split: option.splits if_splits)
qed

lemma mark_rows:
  "mark_as_deleted fault now sid db = Ok db' \<Longrightarrow> db_segments db' = map (\<lambda>s. if seg_id s \<in> {sid} then s\<lparr>seg_deleted := Some now\<rparr> else s) (db_segments db)"
  "mark_as_deleted_no_validation fault now sids db = Ok db' \<Longrightarrow>
     db_segments db' = map (\<lambda>s. if seg_id s \<in> set sids then s\<lparr>seg_deleted := Some now\<rparr> else s) (db_segments db)"
  by (auto simp: mark_as_deleted_def mark_as_deleted_no_validation_def on_segment_def split: option.splits if_splits)

lemma update_rows_wf:
  assumes "db_segments db' = map f (db_segments db)" "segments_wf ids db"
    and "\<And>s. seg_id (f s) = seg_id s \<and> seg_state (f s) = seg_state s \<and> (seg_deleted s \<noteq> None \<longrightarrow> seg_deleted (f s) \<noteq> None)"
  shows "segments_wf ids db'" "marks_stay ids db db'"
proof -
  have "map seg_id (db_segments db') = map seg_id (db_segments db)" using assms(1,3) by simp
  then have "segments_distinct db'" "seg_id ` set (db_segments db') \<subseteq> ids"
    using assms(2) by (simp_all add: segments_wf_def segments_distinct_def flip: set_map)
  then show "segments_wf ids db'" using assms by (auto simp: segments_wf_def is_marked_as_deleted_def)
  show "marks_stay ids db db'" using assms(1,3) by (auto simp: marks_stay_def segment_mark_of_def find_map_keep)
qed

lemma api_step_wf:
  assumes "api_step ids db ids' db'" "segments_wf ids db"
  shows "segments_wf ids' db' \<and> ids \<subseteq> ids' \<and> marks_stay ids db db'"
  using assms
proof cases
  case (created sid initial fault ver ty vlan vn prefixes)
  obtain r where r: "db_segments db' = db_segments db @ [r]" "seg_id r = sid" "seg_state r = versioned_new initial ver" "seg_deleted r = None"
    "sid \<notin> seg_id ` set (db_segments db)"
    using created(4) by (rule segment_persist_rows)
  have "\<not> is_deleting (ver_value (seg_state r))" using created(3) r(3) by (auto simp: versioned_new_def)
  then have "segments_wf ids' db'" using assms(2) r created(1) by (auto simp: segments_wf_def segments_distinct_def)
  moreover have "marks_stay ids db db'"
    using r created(2) by (auto simp: marks_stay_def segment_mark_of_def find_append_case split: option.splits)
  ultimately show ?thesis using created(1) by auto
next
  case (marked fault now sid)
  then show ?thesis using update_rows_wf [OF mark_rows(1) [OF marked(2)] assms(2)] by auto
next
  case (marked_unchecked fault now sids)
  then show ?thesis using update_rows_wf [OF mark_rows(2) [OF marked_unchecked(2)] assms(2)] by auto
next
  case (other f)
  then show ?thesis using update_rows_wf [OF other(3) assms(2)] by auto
qed

lemma marks_stay_trans: "marks_stay ids db db1 \<Longrightarrow> marks_stay ids1 db1 db2 \<Longrightarrow> ids \<subseteq> ids1 \<Longrightarrow> marks_stay ids db db2"
  unfolding marks_stay_def by blast

lemma segment_edge_deleting: "segment_edge h env db seg s s' \<Longrightarrow> is_deleting s' \<Longrightarrow> is_deleting s \<or> is_marked_as_deleted seg"
  by (cases rule: segment_edge.cases) auto

lemma removed_wf:
  assumes "db_segments db' = filter (\<lambda>s. seg_id s \<noteq> sid) (db_segments db)" "segments_wf ids db"
  shows "segments_wf ids db'" "marks_stay ids db db'"
proof -
  show "segments_wf ids db'" using assms by (auto simp: segments_wf_def segments_distinct_def distinct_map_filter)
  have "find (\<lambda>s. seg_id s = x) (filter (\<lambda>s. seg_id s \<noteq> sid) xs) = (if x = sid then None else find (\<lambda>s. seg_id s = x) xs)" for x and xs :: "network_segment list"
    by (induction xs) auto
  then show "marks_stay ids db db'" using assms(1) by (simp add: marks_stay_def segment_mark_of_def)
qed

lemma handled_wf:
  assumes run: "process_object (segment_io now debug) (handle_object_state h henv) env sid db = Some out"
    and wf: "segments_wf ids db" "segments_wf ids' (meanwhile env db)" "marks_stay ids db (meanwhile env db)" "ids \<subseteq> ids'"
  shows "out_db out = db \<or> segments_wf ids' (out_db out) \<and> marks_stay ids' (meanwhile env db) (out_db out)"
proof (rule segment_after [OF run])
  let ?base = "meanwhile env db"
  show "segments_distinct ?base" using wf(2) by (simp add: segments_wf_def)
  assume "segments_distinct (out_db out)" "segment_state_of (out_db out) = segment_state_of ?base" "segment_mark_of (out_db out) = segment_mark_of ?base"
  then show ?thesis using wf(2) by (simp add: segments_wf_maps marks_stay_def)
next
  let ?base = "meanwhile env db"
  fix seg s new
  assume d: "segments_distinct (out_db out)" and l: "load_segment db sid = Ok (Some seg)"
    and edge: "segment_edge h henv ?base seg (ver_value (seg_state seg)) s"
    and st: "segment_state_of (out_db out) = (segment_state_of ?base)(sid \<mapsto> versioned_new s new)"
    and m: "segment_mark_of (out_db out) = segment_mark_of ?base"
  have "segment_mark_of ?base sid \<noteq> Some None" if "is_deleting s"
  proof -
    have "is_marked_as_deleted seg" using segment_edge_deleting [OF edge that] wf(1) load_segment_find [OF l] by (auto simp: segments_wf_def)
    then have "segment_mark_of db sid \<noteq> Some None" using load_segment_find [OF l] by (simp add: segment_mark_of_def is_marked_as_deleted_def)
    moreover have "sid \<in> ids" using wf(1) load_segment_find [OF l] by (auto simp: segments_wf_def)
    ultimately show ?thesis using wf(3) by (simp add: marks_stay_def)
  qed
  then have "segments_wf ids' (out_db out)" using wf(2) d unfolding segments_wf_maps m st by (auto simp: versioned_new_def)
  then show ?thesis using m by (simp add: marks_stay_def)
next
  fix seg
  assume "delete_segment h (h_fault henv) sid seg (meanwhile env db) = Ok (out_db out)"
  from removed_wf [OF delete_segment_rows [OF this] wf(2)] show ?thesis by simp
qed simp

lemma segment_run_wf:
  assumes "segment_run h ids db ids' db'" "segments_wf ids db"
  shows "segments_wf ids' db' \<and> ids \<subseteq> ids' \<and> marks_stay ids db db'"
  using assms
proof induction
  case (idle ids db)
  then show ?case by (simp add: marks_stay_def)
next
  case (api ids db ids1 db1 ids2 db2)
  then show ?case using api_step_wf [OF api.hyps(2)] marks_stay_trans by blast
next
  case (handled ids db ids1 db1 ids2 env now debug henv sid out ids3)
  then have w1: "segments_wf ids1 db1" "ids \<subseteq> ids1" "marks_stay ids db db1" by auto
  then have w2: "segments_wf ids2 (meanwhile env db1)" "ids1 \<subseteq> ids2" "marks_stay ids1 db1 (meanwhile env db1)" using handled by auto
  from handled_wf [OF handled.hyps(3) w1(1) w2(1,3,2)] show ?case
  proof
    assume "out_db out = db1"
    then show ?thesis using w1 w2 handled.hyps(4) by (auto simp: segments_wf_def)
  next
    assume "segments_wf ids2 (out_db out) \<and> marks_stay ids2 (meanwhile env db1) (out_db out)"
    moreover from this have "marks_stay ids db (out_db out)" using w1 w2 marks_stay_trans by (metis order_trans)
    ultimately show ?thesis using w1 w2 handled.hyps(4) by auto
  qed
qed

lemma release_opt_rows:
  "release_opt fault pool v db = Ok db' \<Longrightarrow> rows (db_pools db') =
     map (\<lambda>r. if \<exists>x. v = Some x \<and> row_name r = pool_name pool \<and> row_value r = show_int x then r\<lparr>row_allocated := None, row_state := Free\<rparr> else r)
       (rows (db_pools db))"
  by (auto simp: release_opt_def release_def split: option.splits sum.splits prod.splits)

lemma release_opt_next: "release_opt fault pool v db = Ok db' \<Longrightarrow> next_id (db_pools db') = next_id (db_pools db)"
  by (auto simp: release_opt_def release_def split: option.splits sum.splits prod.splits)

lemma delete_segment_pools:
  assumes "delete_segment h fault sid seg db = Ok db'"
  shows "db_pools db' = (db_pools db)\<lparr>rows := map (\<lambda>r. if holds_row h seg r then r\<lparr>row_allocated := None, row_state := Free\<rparr> else r) (rows (db_pools db))\<rparr>"
proof -
  obtain d1 d2 where d: "release_opt (\<lambda>_. fault 1) (pool_vni h) (vni seg) db = Ok d1"
      "release_opt (\<lambda>_. fault 2) (pool_vlan_id h) (vlan_id seg) d1 = Ok d2" "db_pools db' = db_pools d2"
    using assms by (auto simp: delete_segment_def and_then_Inr_iff final_delete_def delete_for_segment_def Let_def split: option.splits if_splits)
  have "rows (db_pools d2) = map (\<lambda>r. if holds_row h seg r then r\<lparr>row_allocated := None, row_state := Free\<rparr> else r) (rows (db_pools db))"
    unfolding release_opt_rows [OF d(2)] release_opt_rows [OF d(1)] by (auto simp: holds_row_def)
  then show ?thesis unfolding d(3) using release_opt_next [OF d(1)] release_opt_next [OF d(2)] by (intro pool_table.equality) simp_all
qed

lemma release_opt_no_fault: "(\<And>i. fault i = None) \<Longrightarrow> \<exists>db'. release_opt fault pool v db = Ok db'"
  by (auto simp: release_opt_def release_def split: option.splits)

lemma delete_segment_no_fault:
  assumes "\<And>i. fault i = None" "sid \<in> set (list_segment_ids None db)" "sid \<notin> set (db_interfaces db)"
  shows "\<exists>db'. delete_segment h fault sid seg db = Ok db'"
proof -
  obtain d1 where d1: "release_opt (\<lambda>_. fault 1) (pool_vni h) (vni seg) db = Ok d1"
    using release_opt_no_fault [of "\<lambda>_. fault 1" "pool_vni h" "vni seg" db] assms(1) by auto
  obtain d2 where d2: "release_opt (\<lambda>_. fault 2) (pool_vlan_id h) (vlan_id seg) d1 = Ok d2"
    using release_opt_no_fault [of "\<lambda>_. fault 2" "pool_vlan_id h" "vlan_id seg" d1] assms(1) by auto
  have "db_segments d2 = db_segments db" "db_interfaces d2 = db_interfaces db" using release_opt_segments [OF d1] release_opt_segments [OF d2] by simp_all
  then have "list_ex (\<lambda>s. seg_id s = sid) (db_segments d2)" "sid \<notin> set (db_interfaces d2)" using assms(2,3) by (auto simp: list_ex_iff list_segment_ids_def)
  moreover have "\<not> list_ex (\<lambda>(_, s). s = sid) (filter (\<lambda>(_, s). s \<noteq> sid) (db_prefixes d2))" by (auto simp: list_ex_iff)
  ultimately show ?thesis using d1 d2 assms(1) by (simp add: delete_segment_def final_delete_def delete_for_segment_def)
qed

lemma load_map_keep:
  "load_segment db sid = Ok (Some seg) \<Longrightarrow> db_segments db' = map f (db_segments db) \<Longrightarrow> (\<And>s. seg_id (f s) = seg_id s) \<Longrightarrow>
     load_segment db' sid = Ok (Some (f seg))"
  by (auto simp: load_segment_def filter_map comp_def split: list.splits)

text \<open>One invocation in which every \<^verbatim>\<open>await\<close> returns and nobody else writes.\<close>

lemma quiet_move:
  assumes q: "quiet env" and l: "load_segment db sid = Ok (Some seg)"
    and run: "run_result (handle_object_state h henv db sid seg (ver_value (seg_state seg))) = Ok (Transition s src t)"
  shows "\<exists>out seg'. process_object (segment_io now debug) (handle_object_state h henv) env sid db = Some out \<and> out_event out = Some s \<and>
    load_segment (out_db out) sid = Ok (Some seg') \<and> ver_value (seg_state seg') = s \<and> seg_deleted seg' = seg_deleted seg \<and>
    db_interfaces (out_db out) = db_interfaces db \<and> db_addresses (out_db out) = db_addresses db"
proof -
  let ?old = "ver_version (seg_state seg)"
  obtain new where new: "increment (chrono env) (sys_now env) ?old = Some new" using q by (auto simp: quiet_def increment_def)
  let ?hit = "\<lambda>x. seg_id x = sid \<and> ver_version (seg_state x) = ?old"
  let ?db1 = "db\<lparr>db_segments := map (\<lambda>x. if ?hit x then x\<lparr>seg_state := versioned_new s new\<rparr> else x) (db_segments db)\<rparr>"
  have up: "try_update_controller_state sid ?old new s db = (True, ?db1)"
    using load_segment_find [OF l] by (auto simp: try_update_controller_state_def Let_def list_ex_iff)
  have "\<exists>out. process_object (segment_io now debug) (handle_object_state h henv) env sid db = Some out \<and> out_event out = Some s \<and>
      out_db out = update_controller_state_outcome sid (PTransition (Some src)) (history_persist sid new s ?db1)"
  proof -
    have "\<exists>out. process_object (segment_io now debug) (handle_object_state h henv) env sid db = Some out \<and> out_event out = Some s \<and>
        next_state (out_metrics out) = Some s \<and> transition_conflict (out_metrics out) = (\<not> True) \<and>
        out_db out = persist_outcome (segment_io now debug) sid (PTransition (Some src)) (persist_state_history (segment_io now debug) sid new s ?db1)"
      by (rule undisturbed_transition [where snap = seg and cs = "seg_state seg" and t = t and va = db and won = True, unfolded if_True, OF _ _ _ _ refl])
        (use q l run new up handle_transition(2) [OF run] in \<open>simp_all add: quiet_def\<close>)
    then show ?thesis by auto
  qed
  moreover have "load_segment ?db1 sid = Ok (Some (seg\<lparr>seg_state := versioned_new s new\<rparr>))"
    using load_map_keep [OF l, of ?db1 "\<lambda>x. if ?hit x then x\<lparr>seg_state := versioned_new s new\<rparr> else x"] load_segment_find(2) [OF l] by auto
  then have "load_segment (update_controller_state_outcome sid (PTransition (Some src)) (history_persist sid new s ?db1)) sid =
      Ok (Some (seg\<lparr>seg_state := versioned_new s new, seg_outcome := Some (PTransition (Some src))\<rparr>))"
    using load_segment_find(2) [OF l]
    by (subst load_map_keep [of ?db1 _ _ _ "\<lambda>x. if seg_id x = sid then x\<lparr>seg_outcome := Some (PTransition (Some src))\<rparr> else x"])
      (auto simp: update_controller_state_outcome_def on_segment_def history_persist_def)
  ultimately show ?thesis
    by (auto simp: versioned_new_def update_controller_state_outcome_def on_segment_def history_persist_def)
qed

lemma quiet_removal:
  assumes q: "quiet env" and l: "load_segment db sid = Ok (Some seg)"
    and run: "run_result (handle_object_state h henv db sid seg (ver_value (seg_state seg))) = Ok (Deleted src t)"
  shows "\<exists>out. process_object (segment_io now debug) (handle_object_state h henv) env sid db = Some out \<and> out_recorder out = Clear sid \<and>
    sid \<notin> set (list_segment_ids None (out_db out))"
proof -
  have "\<exists>out. process_object (segment_io now debug) (handle_object_state h henv) env sid db = Some out \<and> out_event out = None \<and>
      out_db out = handler_view (Deleted src t :: (segment_state, segment_db \<Rightarrow> segment_db) state_handler_outcome) db \<and> out_recorder out = Clear sid"
  proof -
    have "\<exists>out. process_object (segment_io now debug) (handle_object_state h henv) env sid db = Some out \<and> out_event out = None \<and>
        out_db out = handler_view (Deleted src t :: (segment_state, segment_db \<Rightarrow> segment_db) state_handler_outcome) db \<and>
        out_recorder out = Clear (io_show (segment_io now debug) sid)"
      by (rule undisturbed_deletion [where snap = seg and cs = "seg_state seg" and t = t, OF _ _ _ _ refl])
        (use q l run in \<open>simp_all add: quiet_def\<close>)
    then show ?thesis by simp
  qed
  then show ?thesis using delete_segment_rows [OF handle_deleted(2) [OF run]] by (auto simp: list_segment_ids_def)
qed

lemma quiet_demo: "quiet demo_quiet" "meanwhile demo_quiet db = db"
  using demo_clock by (simp_all add: quiet_def demo_quiet_def)

lemma load_demo: "load_segment (demo_segments s) ''s1'' = Ok (Some (demo_segment s))"
  by (simp add: load_segment_def demo_segments_def demo_segment_def)

lemma demo_removal:
  "\<exists>src t. run_result (handle_object_state demo_handler_config (demo_handler_env 20) (demo_segments (Deleting DBDelete)) ''s1''
     (demo_segment (Deleting DBDelete)) (Deleting DBDelete)) = Ok (Deleted src t)"
proof -
  obtain db' where "delete_segment demo_handler_config (h_fault (demo_handler_env 20)) ''s1'' (demo_segment (Deleting DBDelete)) (demo_segments (Deleting DBDelete)) = Ok db'"
    using delete_segment_no_fault [of "h_fault (demo_handler_env 20)" "''s1''" "demo_segments (Deleting DBDelete)"]
    by (auto simp: demo_handler_env_def list_segment_ids_def demo_segments_def demo_segment_def)
  then show ?thesis by (simp add: handle_object_state_def Let_def) (simp add: demo_handler_env_def outcome_defs)
qed

subsection \<open>Properties\<close>

text \<open>
  C12. Whatever the order in which segments are created, each under an identifier not used before, marked as deleted, changed and handled,
  with any failures and lost answers of the handling: identifiers stay unique, only
  segments marked as deleted are in a deleting state, and a mark is never lost.\<close>
theorem only_marked_segments_are_deleted:
  assumes "segment_run h ids db ids' db'" "segments_wf ids db"
  shows "segments_wf ids' db' \<and> marks_stay ids db db'"
  using segment_run_wf [OF assms] by simp

theorem only_marked_segments_are_deleted_witness:
  "\<exists>out :: (segment_db, segment_state) po_output. segment_run demo_handler_config {''s1''} (demo_segments SegmentReady) {''s1''} (out_db out) \<and>
    map_option ver_value (segment_state_of (out_db out) ''s1'') = Some (Deleting (DrainAllocatedIps 15)) \<and> segments_wf {''s1''} (out_db out)"
proof -
  have r: "run_result (handle_object_state demo_handler_config (demo_handler_env 5) (demo_segments SegmentReady) ''s1'' (demo_segment SegmentReady)
      (ver_value (seg_state (demo_segment SegmentReady)))) = Ok (Transition (Deleting (DrainAllocatedIps 15)) demo_src None)"
    by (simp add: handle_object_state_def demo_segment_def versioned_new_def is_marked_as_deleted_def outcome_defs drain_deadline_def
        demo_handler_env_def demo_handler_config_def)
  obtain out seg where out: "process_object (segment_io 0 (\<lambda>_. [])) (handle_object_state demo_handler_config (demo_handler_env 5)) demo_quiet ''s1'' (demo_segments SegmentReady) = Some out"
      "load_segment (out_db out) ''s1'' = Ok (Some seg)" "ver_value (seg_state seg) = Deleting (DrainAllocatedIps 15)"
    using quiet_move [OF quiet_demo(1) load_demo r, of 0 "\<lambda>_. []"] by blast
  have idle: "segment_run demo_handler_config {''s1''} (demo_segments SegmentReady) {''s1''} (meanwhile demo_quiet (demo_segments SegmentReady))"
    by (simp add: quiet_demo segment_run.idle)
  have run: "segment_run demo_handler_config {''s1''} (demo_segments SegmentReady) {''s1''} (out_db out)"
    using segment_run.handled [OF segment_run.idle idle out(1)]
    by blast
  have "segments_wf {''s1''} (demo_segments SegmentReady)"
    by (simp add: segments_wf_def segments_distinct_def demo_segments_def demo_segment_def is_marked_as_deleted_def)
  from only_marked_segments_are_deleted [OF run this] show ?thesis
    using run out(3) load_segment_find(1) [OF out(2)] by (auto simp: segment_state_of_def)
qed

text \<open>
  C13. While identifiers of segments are unique, an invocation that makes a segment disappear had loaded it in the last deleting state, and commits
  one change: against the database it finds, the row of the segment, its prefixes and its row of
  \<^verbatim>\<open>network_def\<close> are gone, and the pool entries of the VNI and the VLAN it had loaded are free; no
  interface refers to the segment, and nothing else differs.\<close>
theorem segment_removed_with_what_it_holds:
  assumes "process_object (segment_io now debug) (handle_object_state h henv) env sid db = Some out" "segments_distinct (meanwhile env db)"
    and "sid \<in> set (list_segment_ids None db)" "sid \<in> set (list_segment_ids None (meanwhile env db))" "sid \<notin> set (list_segment_ids None (out_db out))"
  shows "\<exists>seg. load_segment db sid = Ok (Some seg) \<and> ver_value (seg_state seg) = Deleting DBDelete \<and> sid \<notin> set (db_interfaces (meanwhile env db)) \<and>
    out_db out = (meanwhile env db)
      \<lparr>db_segments := filter (\<lambda>s. seg_id s \<noteq> sid) (db_segments (meanwhile env db)),
       db_prefixes := filter (\<lambda>(_, s). s \<noteq> sid) (db_prefixes (meanwhile env db)),
       db_defs := filter (\<lambda>(_, s). s \<noteq> sid) (db_defs (meanwhile env db)),
       db_pools := (db_pools (meanwhile env db))
         \<lparr>rows := map (\<lambda>r. if holds_row h seg r then r\<lparr>row_allocated := None, row_state := Free\<rparr> else r) (rows (db_pools (meanwhile env db)))\<rparr>\<rparr>"
proof (rule segment_after [OF assms(1,2)])
  have dom: "sid \<in> set (list_segment_ids None d) \<longleftrightarrow> segment_mark_of d sid \<noteq> None" for d
    using mark_of_dom [of d] by (auto simp: list_segment_ids_def)
  have False if "segment_mark_of (out_db out) = segment_mark_of (meanwhile env db)" using assms(4,5) that by (simp add: dom)
  then show ?thesis if "segment_mark_of (out_db out) = segment_mark_of (meanwhile env db)" using that by blast
  then show ?thesis if "segment_mark_of (out_db out) = segment_mark_of (meanwhile env db)" using that .
next
  fix seg
  assume "load_segment db sid = Ok (Some seg)" "ver_value (seg_state seg) = Deleting DBDelete"
    and d: "delete_segment h (h_fault henv) sid seg (meanwhile env db) = Ok (out_db out)"
  then show ?thesis using delete_segment_frame [OF d] delete_segment_pools [OF d] by (intro exI [of _ seg]) auto
qed (use assms(3,5) in auto)

theorem segment_removed_with_what_it_holds_witness:
  "\<exists>out. process_object (segment_io 0 (\<lambda>_. [])) (handle_object_state demo_handler_config (demo_handler_env 20)) demo_quiet ''s1''
      (demo_segments (Deleting DBDelete)) = Some out \<and> db_segments (out_db out) = [] \<and> db_prefixes (out_db out) = [] \<and> db_defs (out_db out) = [] \<and>
      db_interfaces (out_db out) = [''s2''] \<and> map row_state (rows (db_pools (out_db out))) = [Free]"
proof -
  let ?db = "demo_segments (Deleting DBDelete)"
  obtain src t where "run_result (handle_object_state demo_handler_config (demo_handler_env 20) ?db ''s1'' (demo_segment (Deleting DBDelete))
      (ver_value (seg_state (demo_segment (Deleting DBDelete))))) = Ok (Deleted src t)"
    using demo_removal by (auto simp: demo_segment_def versioned_new_def)
  from quiet_removal [OF quiet_demo(1) load_demo this, of 0 "\<lambda>_. []"] obtain out where
    out: "process_object (segment_io 0 (\<lambda>_. [])) (handle_object_state demo_handler_config (demo_handler_env 20)) demo_quiet ''s1'' ?db = Some out"
      "''s1'' \<notin> set (list_segment_ids None (out_db out))" by blast
  have "segments_distinct ?db" "''s1'' \<in> set (list_segment_ids None ?db)"
    by (simp_all add: segments_distinct_def list_segment_ids_def demo_segments_def demo_segment_def)
  then show ?thesis using segment_removed_with_what_it_holds [OF out(1)] out
    by (auto simp: quiet_demo load_demo) (simp_all add: demo_segments_def demo_segment_def holds_row_def demo_handler_config_def)
qed

text \<open>
  C14. A transition the controller announces for a segment follows an edge of the state machine, was
  decided on the version that is still stored when it is committed, and is the only
  change of a controller state in that commit; deletion starts only for a marked segment, and
  draining ends only after its deadline with no address in use.\<close>
theorem announced_segment_transition:
  assumes "process_object (segment_io now debug) (handle_object_state h henv) env sid db = Some out" "out_event out = Some s"
    and "segments_distinct (meanwhile env db)"
  shows "\<exists>seg new. load_segment db sid = Ok (Some seg) \<and> segment_edge h henv (meanwhile env db) seg (ver_value (seg_state seg)) s \<and>
    stored_under (segment_state_of (meanwhile env db)) sid (ver_version (seg_state seg)) \<and>
    increment (chrono env) (sys_now env) (ver_version (seg_state seg)) = Some new \<and>
    segment_state_of (out_db out) = (segment_state_of (meanwhile env db))(sid \<mapsto> versioned_new s new)"
proof (rule seg_io.announced_state [OF assms handler_keeps_states [OF assms(3)]])
  fix snap src t old new
  assume l: "load_object_state (segment_io now debug) db sid = Ok (Some snap)" and old: "segment_state_of db sid = Some old"
    and run: "run_result (handle_object_state h henv (meanwhile env db) sid snap (ver_value old)) = Ok (Transition s src t)"
    and st: "stored_under (segment_state_of (meanwhile env db)) sid (ver_version old)"
      "increment (chrono env) (sys_now env) (ver_version old) = Some new"
      "segment_state_of (out_db out) = (segment_state_of (meanwhile env db))(sid \<mapsto> versioned_new s new)"
  have "old = seg_state snap" using seg_io.load_state [OF l] old by simp
  then show ?thesis using l st handle_transition(1) [OF run] by auto
qed

theorem announced_segment_transition_witness:
  "\<exists>out. process_object (segment_io 0 (\<lambda>_. [])) (handle_object_state demo_handler_config (demo_handler_env 20)) demo_quiet ''s1''
      (demo_segments (Deleting (DrainAllocatedIps 15))) = Some out \<and> out_event out = Some (Deleting DBDelete) \<and>
    (\<exists>new. segment_state_of (out_db out) ''s1'' = Some (versioned_new (Deleting DBDelete) new))"
proof -
  let ?db = "demo_segments (Deleting (DrainAllocatedIps 15))"
  have r: "run_result (handle_object_state demo_handler_config (demo_handler_env 20) ?db ''s1'' (demo_segment (Deleting (DrainAllocatedIps 15)))
      (ver_value (seg_state (demo_segment (Deleting (DrainAllocatedIps 15)))))) = Ok (Transition (Deleting DBDelete) demo_src (Some id))"
    by (simp add: handle_object_state_def demo_segment_def versioned_new_def outcome_defs demo_handler_env_def segment_has_allocations_def demo_segments_def)
  obtain out where out: "process_object (segment_io 0 (\<lambda>_. [])) (handle_object_state demo_handler_config (demo_handler_env 20)) demo_quiet ''s1'' ?db = Some out"
      "out_event out = Some (Deleting DBDelete)"
    using quiet_move [OF quiet_demo(1) load_demo r, of 0 "\<lambda>_. []"] by blast
  have "segments_distinct ?db" by (simp add: segments_distinct_def demo_segments_def)
  then show ?thesis using announced_segment_transition [OF out] out by (auto simp: quiet_demo)
qed

text \<open>
  C15. A segment that is ready, marked as deleted and without addresses in use is gone after three
  invocations, if the second one runs after the deadline and nothing interferes: it is
  drained, then due for deletion, then removed.\<close>
theorem marked_segment_gets_deleted:
  assumes "quiet env1" "quiet env2" "quiet env3" "load_segment db sid = Ok (Some seg)" "ver_value (seg_state seg) = SegmentReady"
    and "is_marked_as_deleted seg" "\<not> segment_has_allocations db sid"
    and "\<And>i. h_fault h2 i = None" "\<And>i. h_fault h3 i = None" "drain_deadline h h1 \<le> h_now h2 0"
  shows "\<exists>out1 out2 out3.
    process_object (segment_io now debug) (handle_object_state h h1) env1 sid db = Some out1 \<and>
    out_event out1 = Some (Deleting (DrainAllocatedIps (drain_deadline h h1))) \<and>
    process_object (segment_io now debug) (handle_object_state h h2) env2 sid (out_db out1) = Some out2 \<and> out_event out2 = Some (Deleting DBDelete) \<and>
    process_object (segment_io now debug) (handle_object_state h h3) env3 sid (out_db out2) = Some out3 \<and> out_recorder out3 = Clear sid \<and>
    sid \<notin> set (list_segment_ids None (out_db out3))"
proof -
  have "\<exists>src. run_result (handle_object_state h h1 db sid seg (ver_value (seg_state seg))) =
      Ok (Transition (Deleting (DrainAllocatedIps (drain_deadline h h1))) src None)"
    using assms(5,6) by (simp add: handle_object_state_def outcome_defs)
  then obtain out1 seg1 where s1: "process_object (segment_io now debug) (handle_object_state h h1) env1 sid db = Some out1"
      "out_event out1 = Some (Deleting (DrainAllocatedIps (drain_deadline h h1)))" "load_segment (out_db out1) sid = Ok (Some seg1)"
      "ver_value (seg_state seg1) = Deleting (DrainAllocatedIps (drain_deadline h h1))"
      "db_interfaces (out_db out1) = db_interfaces db" "db_addresses (out_db out1) = db_addresses db"
    using quiet_move [OF assms(1,4)] by blast
  have "\<not> segment_has_allocations (out_db out1) (seg_id seg1)"
    using assms(7) s1(5,6) load_segment_find(2) [OF s1(3)] by (simp add: segment_has_allocations_def)
  then have "\<exists>src. run_result (handle_object_state h h2 (out_db out1) sid seg1 (ver_value (seg_state seg1))) = Ok (Transition (Deleting DBDelete) src (Some id))"
    using assms(8,10) s1(4) by (simp add: handle_object_state_def outcome_defs)
  then obtain out2 seg2 where s2: "process_object (segment_io now debug) (handle_object_state h h2) env2 sid (out_db out1) = Some out2"
      "out_event out2 = Some (Deleting DBDelete)" "load_segment (out_db out2) sid = Ok (Some seg2)" "ver_value (seg_state seg2) = Deleting DBDelete"
      "db_interfaces (out_db out2) = db_interfaces (out_db out1)"
    using quiet_move [OF assms(2) s1(3)] by blast
  have "sid \<in> set (list_segment_ids None (out_db out2))" using load_segment_find(2,3) [OF s2(3)] by (auto simp: list_segment_ids_def)
  moreover have "sid \<notin> set (db_interfaces (out_db out2))" using assms(7) s1(5) s2(5) by (simp add: segment_has_allocations_def)
  ultimately obtain d where "delete_segment h (h_fault h3) sid seg2 (out_db out2) = Ok d" using delete_segment_no_fault [of "h_fault h3"] assms(9) by blast
  then have "\<exists>src t. run_result (handle_object_state h h3 (out_db out2) sid seg2 (ver_value (seg_state seg2))) = Ok (Deleted src t)"
    using assms(9) s2(4) by (simp add: handle_object_state_def outcome_defs)
  then show ?thesis using s1 s2 quiet_removal [OF assms(3) s2(3)] by blast
qed

theorem marked_segment_gets_deleted_witness:
  "\<exists>out1 out2 out3.
    process_object (segment_io 0 (\<lambda>_. [])) (handle_object_state demo_handler_config (demo_handler_env 5)) demo_quiet ''s1'' (demo_segments SegmentReady) = Some out1 \<and>
    process_object (segment_io 0 (\<lambda>_. [])) (handle_object_state demo_handler_config (demo_handler_env 20)) demo_quiet ''s1'' (out_db out1) = Some out2 \<and>
    process_object (segment_io 0 (\<lambda>_. [])) (handle_object_state demo_handler_config (demo_handler_env 30)) demo_quiet ''s1'' (out_db out2) = Some out3 \<and>
    ''s1'' \<notin> set (list_segment_ids None (out_db out3))"
proof -
  have "ver_value (seg_state (demo_segment SegmentReady)) = SegmentReady" "is_marked_as_deleted (demo_segment SegmentReady)"
    "\<not> segment_has_allocations (demo_segments SegmentReady) ''s1''"
    "\<And>i t. h_fault (demo_handler_env t) i = None" "drain_deadline demo_handler_config (demo_handler_env 5) \<le> h_now (demo_handler_env 20) 0"
    by (simp_all add: demo_segment_def demo_segments_def versioned_new_def is_marked_as_deleted_def segment_has_allocations_def demo_handler_env_def
        drain_deadline_def demo_handler_config_def)
  from marked_segment_gets_deleted [OF quiet_demo(1) quiet_demo(1) quiet_demo(1) load_demo this(1-4) this(4,5), of 0 "\<lambda>_. []" 30]
  show ?thesis by blast
qed

end
