(* ===== verification/Spec2Isabelle.thy ===== *)
theory Spec2Isabelle
  imports Aggregate_Health Ip_Set Ip_Allocator Pool_Definition Device_Ids Controller_World Periodic_Enqueuer Segment_Controller
begin

text \<open>
  A verification library for the core of the NVIDIA Infra Controller, the service that manages the machines,
  networks and addresses of a site (the Rust crates under \<^verbatim>\<open>src/crates\<close>).

  \<^bold>\<open>The program.\<close>  Several API servers work on one PostgreSQL database.  For each type of object (machines, network segments,
  racks, ...) a \<^emph>\<open>state controller\<close> moves the objects through their states: a periodic enqueuer, of which one runs at
  a time under a work lock, lists the objects and puts them into a queue table; the processors of all servers
  claim rows of the queue under a lease, run the state handler of the object, store its outcome, and
  settle the row.  Handlers allocate and release what the objects hold: values of resource pools, networks
  out of the prefixes of a segment.  Health reports of many sources are merged into the aggregate health that decides whether a
  machine can be allocated.  Versions, identifiers and prefixes are the data types all of this rests on.

  \<^bold>\<open>How the code is modelled.\<close>  Each function is a function of the same name, with its state as argument and result,
  its error branches as values (\<open>Err\<close>, \<open>Ok\<close>), panics as \<open>None\<close> or \<open>Panics\<close>, and machine integers as words where their width
  matters.  A database table is the list of its rows; a statement is a function on it, and whether a
  statement, the start of a transaction or a commit fails is an argument (\<open>txn_env\<close>): a commit may succeed, fail, or
  take effect and report a failure.  Clocks, random choices, row locks held by others and changes by other transactions are arguments too.
  Crates that are not part of the repository (\<^verbatim>\<open>ipnet\<close>, \<^verbatim>\<open>ipnetwork\<close>, \<^verbatim>\<open>chrono\<close>, \<^verbatim>\<open>data_encoding\<close>) are records of operations whose
  documented behaviour is a locale, with an implementation of the documentation as interpretation.

  \<^bold>\<open>The theories.\<close>

  \<^item> \<^verbatim>\<open>Prelude\<close>, \<^verbatim>\<open>Rust_Strings\<close>, \<^verbatim>\<open>Rust_Net\<close>, \<^verbatim>\<open>Address_Blocks\<close>: results, ordered sets and maps (locale \<open>btree_order\<close>), strings,
    numbers and addresses with their text forms, the arithmetic of binary subdivision.
  \<^item> \<^verbatim>\<open>Config_Version\<close> (\<^verbatim>\<open>config-version/src/lib.rs\<close>): versions, their increments and text form; printing and
    parsing are inverse (locale \<open>chrono\<close>).
  \<^item> \<^verbatim>\<open>Device_Ids\<close> (\<^verbatim>\<open>uuid/src\<close>): identifiers of machines, switches, power shelves, devices and racks.  Texts are
    unambiguous and parse back, which the controller relies on (locales \<open>base32\<close>, \<open>object_ids\<close>).
  \<^item> \<^verbatim>\<open>Health_Report\<close> (\<^verbatim>\<open>health-report/src/lib.rs\<close>) and \<^verbatim>\<open>Aggregate_Health\<close> (\<^verbatim>\<open>api-model/src/health.rs\<close>, \<^verbatim>\<open>machine/mod.rs\<close>): the merge of reports
    is well-formed; the aggregate carries exactly the classifications of its sources, and a host can be allocated
    exactly under the conditions of the code, read off the state before the merge.
  \<^item> \<^verbatim>\<open>Ip_Prefix\<close>, \<^verbatim>\<open>Ip_Set\<close> (\<^verbatim>\<open>network/src/ip\<close>): prefixes (locales \<open>ipnet\<close>, \<open>ip_nets\<close>, \<open>prefix_space\<close>) and sets of addresses in a normal form.
    Adding, removing and aggregating refine union, difference and equality of sets of addresses.
  \<^item> \<^verbatim>\<open>Ip_Network\<close>, \<^verbatim>\<open>Ip_Allocator\<close> (\<^verbatim>\<open>api-db/src/ip_allocator.rs\<close>): the next free network of a prefix (locale \<open>ip_network\<close>).  What is handed out is
    free and the lowest such network, and stays disjoint over any history; a free network is found when there is one.
  \<^item> \<^verbatim>\<open>Resource_Pool\<close>, \<^verbatim>\<open>Pool_Expansion\<close>, \<^verbatim>\<open>Pool_Definition\<close> (\<^verbatim>\<open>api-db/src/resource_pool.rs\<close>, \<^verbatim>\<open>api-model/src/resource_pool\<close>): the table of pool entries, filling a pool from ranges and
    prefixes (locale \<open>ipnetwork\<close>), reconciling the configuration, allocating and releasing.  No value is held twice, the table stays consistent, and
    the failures are characterised.
  \<^item> \<^verbatim>\<open>Work_Locks\<close> (\<^verbatim>\<open>api-db/src/work_lock_manager.rs\<close>): named leases, the work loop and its queue, keepalives, fences.  \<open>lock_step\<close> interleaves any
    number of servers; leases exclude each other and a fence keeps other workers out.
  \<^item> \<^verbatim>\<open>Controller_Queue\<close>, \<^verbatim>\<open>State_Handler\<close>, \<^verbatim>\<open>State_Processor\<close>, \<^verbatim>\<open>Periodic_Enqueuer\<close> (\<^verbatim>\<open>state-controller/src\<close>): the queue and iteration tables, the outcomes of
    handlers, one iteration and the shutdown of a processor, one iteration of the enqueuer.
  \<^item> \<^verbatim>\<open>Process_Object\<close>, \<^verbatim>\<open>Controller_Io\<close>: one invocation of a handler, from loading the object to the commit and the event.
    It takes effect as a whole or not at all; the locale \<open>controller_io\<close> states what it relies on in the type of the object.
  \<^item> \<^verbatim>\<open>Controller_World\<close>: all processors on one queue (\<open>step\<close>, \<open>reachable\<close>).  At most one handler runs for an object if a processor
    claims only while it holds the lease of what it has not settled; without that condition a lost answer gives two.
  \<^item> \<^verbatim>\<open>Segment_Controller\<close> (\<^verbatim>\<open>network-segment-controller/src\<close>, \<^verbatim>\<open>api-db/src/network_segment.rs\<close>): the life of network segments, run by
    \<open>process_object\<close>; \<open>controller_io\<close> is interpreted on its tables.

  \<^bold>\<open>Loops.\<close>  Most recursion is structural or has a termination proof.  \<open>drain_loop\<close> (the shutdown) and \<open>fragment\<close> (splitting a prefix)
  may run forever as far as their types tell, so they are partial functions whose termination is proved under the
  conditions of their properties.  The search \<open>next_from\<close> of the allocator has a value for a loop that does not advance. No definition uses fuel.

  \<^bold>\<open>Where the model differs in grain.\<close>  A claim and the start of the handlers it gives rise to happen at one instant, so the lease
  and the time limit of a handler start together; in the program a task starts a little later.  During one invocation other transactions
  take effect between the load and the handler (\<open>meanwhile\<close>), where the code holds no transaction, and not between the statements of the handler.  The relation \<open>step\<close> lets a processor
  do its operations in any order; that an iteration is one of its runs is proved.  Segments are created under
  identifiers that were not used before.  A request for a resource that runs between the two statements of another one is
  the argument \<open>others\<close> of \<open>allocate\<close>.

  \<^bold>\<open>Not modelled.\<close>  The outer loops with their timers and cancellation, panicking handler tasks, metrics exporters and logging; the overview query of
  the pools, which casts texts inside PostgreSQL; searching and seeding of segments; the resolvers that collect used
  networks; the handlers of the other object types, the gRPC interface, the agents and all programs that talk to hardware: they are mostly calls
  of external services.
\<close>

end
